(* ===== verification/Prelude.thy ===== *)
theory Prelude
  imports Complex_Main "HOL-Library.Signed_Division"
begin

text \<open>
  Shared vocabulary of the development: fixed-width integer arithmetic as the C++ code
  computes it, the value space of \<open>float\<close> with the C++ comparisons, decimal printing
  and parsing of integers, the result type of fallible operations, and generic lemmas on lists
  and maps. The named collections gather the facts that component proofs use together:
  \<open>no_wrap\<close> for in-range arithmetic and \<open>frame\<close> for the fields an operation leaves
  unchanged.
\<close>

named_theorems no_wrap "fixed-width sums that stay in range"
named_theorems frame "fields that an operation does not write"

section \<open>Fixed-width signed integers\<close>

definition INT_MAX :: int where
  "INT_MAX = 2147483647"

definition wrap_signed :: "nat \<Rightarrow> int \<Rightarrow> int" where
  "wrap_signed w x = (x + 2 ^ (w - 1)) mod 2 ^ w - 2 ^ (w - 1)"

definition i32 :: "int \<Rightarrow> int" where
  "i32 x = (x + 2147483648) mod 4294967296 - 2147483648"

definition i64 :: "int \<Rightarrow> int" where
  "i64 x = (x + 9223372036854775808) mod 18446744073709551616 - 9223372036854775808"

lemma i32_wrap: "i32 x = wrap_signed 32 x"
  by (simp add: i32_def wrap_signed_def)

lemma i64_wrap: "i64 x = wrap_signed 64 x"
  by (simp add: i64_def wrap_signed_def)

lemma i32_id [no_wrap]: "- INT_MAX - 1 \<le> x \<Longrightarrow> x \<le> INT_MAX \<Longrightarrow> i32 x = x"
  by (simp add: i32_def INT_MAX_def)

lemma i64_id [no_wrap]:
  "- 9223372036854775808 \<le> x \<Longrightarrow> x \<le> 9223372036854775807 \<Longrightarrow> i64 x = x"
  by (simp add: i64_def)

lemma i32_range: "- INT_MAX - 1 \<le> i32 x \<and> i32 x \<le> INT_MAX"
proof -
  have "0 \<le> (x + 2147483648) mod 4294967296" "(x + 2147483648) mod 4294967296 < 4294967296"
    by simp_all
  then show ?thesis by (simp add: i32_def INT_MAX_def)
qed

definition clamp_int :: "int \<Rightarrow> int \<Rightarrow> int \<Rightarrow> int" where
  "clamp_int v lo hi = (if v < lo then lo else if hi < v then hi else v)"

section \<open>Floating-point values\<close>

text \<open>
  A \<open>float\<close> is one of the finite values (a rational; the sign of zero is not observed by the
  code), an infinity or NaN. Comparisons with NaN are false.
\<close>

datatype flt = NaN | NInf | Fin rat | PInf

fun flt_less :: "flt \<Rightarrow> flt \<Rightarrow> bool" where
  "flt_less NaN y = False"
| "flt_less x NaN = False"
| "flt_less (Fin a) (Fin b) = (a < b)"
| "flt_less (Fin a) PInf = True"
| "flt_less (Fin a) NInf = False"
| "flt_less NInf NInf = False"
| "flt_less NInf y = True"
| "flt_less PInf y = False"

abbreviation flt_zero :: flt where "flt_zero \<equiv> Fin 0"
abbreviation flt_one :: flt where "flt_one \<equiv> Fin 1"

definition clamp :: "flt \<Rightarrow> flt \<Rightarrow> flt \<Rightarrow> flt" where
  "clamp v lo hi = (if flt_less v lo then lo else if flt_less hi v then hi else v)"

definition unit_interval :: "flt \<Rightarrow> bool" where
  "unit_interval x = (case x of Fin a \<Rightarrow> 0 \<le> a \<and> a \<le> 1 | _ \<Rightarrow> False)"

lemma clamp_unit: "p \<noteq> NaN \<Longrightarrow> unit_interval (clamp p flt_zero flt_one)"
  by (cases p) (auto simp: clamp_def unit_interval_def)

lemma flt_less_NaN [simp]: "\<not> flt_less x NaN"
  by (cases x) auto

lemma clamp_NaN [simp]: "clamp NaN lo hi = NaN"
  by (simp add: clamp_def)

lemma clamp_unit_id: "unit_interval p \<Longrightarrow> clamp p flt_zero flt_one = p"
  by (cases p) (auto simp: clamp_def unit_interval_def)

section \<open>Decimal numerals\<close>

definition digit_char :: "nat \<Rightarrow> char" where
  "digit_char d = char_of (48 + d)"

definition is_digit :: "char \<Rightarrow> bool" where
  "is_digit c = (48 \<le> (of_char c :: nat) \<and> (of_char c :: nat) \<le> 57)"

definition digit_val :: "char \<Rightarrow> nat" where
  "digit_val c = (of_char c :: nat) - 48"

fun nat_to_string :: "nat \<Rightarrow> string" where
  "nat_to_string n =
     (if n < 10 then [digit_char n] else nat_to_string (n div 10) @ [digit_char (n mod 10)])"

declare nat_to_string.simps [simp del]

definition to_string_int :: "int \<Rightarrow> string" where
  "to_string_int i = (if i < 0 then CHR ''-'' # nat_to_string (nat (- i)) else nat_to_string (nat i))"

definition digits_value :: "string \<Rightarrow> nat" where
  "digits_value ds = foldl (\<lambda>acc c. 10 * acc + digit_val c) 0 ds"

lemma digit_char_digit [simp]: "d < 10 \<Longrightarrow> is_digit (digit_char d)"
  by (simp add: is_digit_def digit_char_def)

lemma digit_val_char [simp]: "d < 10 \<Longrightarrow> digit_val (digit_char d) = d"
  by (simp add: digit_val_def digit_char_def)

lemma nat_to_string_digits: "list_all is_digit (nat_to_string n)"
proof (induction n rule: nat_to_string.induct)
  case (1 n)
  then show ?case
    by (cases "n < 10") (simp_all add: nat_to_string.simps [of n])
qed

lemma nat_to_string_nonempty [simp]: "nat_to_string n \<noteq> []"
  by (simp add: nat_to_string.simps [of n])

lemma digits_value_nat_to_string: "digits_value (nat_to_string n) = n"
proof (induction n rule: nat_to_string.induct)
  case (1 n)
  then show ?case
    by (cases "n < 10") (simp_all add: nat_to_string.simps [of n] digits_value_def)
qed

lemma minus_not_digit [simp]: "\<not> is_digit (CHR ''-'')"
  by (simp add: is_digit_def)

lemma nat_to_string_hd: "is_digit (hd (nat_to_string n))"
  using nat_to_string_digits [of n] nat_to_string_nonempty [of n]
  by (cases "nat_to_string n") auto

section \<open>Lists\<close>

lemma remove1_notin [simp]: "x \<notin> set xs \<Longrightarrow> remove1 x xs = xs"
  by (rule remove1_idem)

lemma sum_list_remove1_int:
  "x \<in> set xs \<Longrightarrow> (\<Sum>y\<leftarrow>remove1 x xs. f y) = (\<Sum>y\<leftarrow>xs. f y) - (f x :: int)"
  by (induction xs) auto

lemma sum_list_cong_set:
  "(\<And>x. x \<in> set xs \<Longrightarrow> f x = g x) \<Longrightarrow> (\<Sum>x\<leftarrow>xs. f x) = (\<Sum>x\<leftarrow>xs. g x)"
  by (induction xs) auto

lemma sum_list_nonneg_int: "(\<And>x. x \<in> set xs \<Longrightarrow> 0 \<le> f x) \<Longrightarrow> 0 \<le> (\<Sum>x\<leftarrow>xs. f x :: int)"
  by (induction xs) auto

lemma sum_list_upper_int:
  "(\<And>x. x \<in> set xs \<Longrightarrow> f x \<le> (c :: int)) \<Longrightarrow> (\<Sum>x\<leftarrow>xs. f x) \<le> int (length xs) * c"
proof (induction xs)
  case Nil
  then show ?case by simp
next
  case (Cons a xs)
  then have "f a \<le> c" "(\<Sum>x\<leftarrow>xs. f x) \<le> int (length xs) * c" by auto
  then show ?case by (simp add: algebra_simps)
qed

lemma length_filter_remove: "length (filter P xs) = length (filter (\<lambda>x. P x \<and> x \<noteq> a) xs) + (if P a then count_list xs a else 0)"
  by (induction xs) auto

end
