(* ===== verification/Result.thy ===== *)
theory Result
  imports Prelude
begin

text \<open>
  \<open>core/result.h\<close>: \<open>Result<T, E>\<close> over a \<open>std::variant\<close> and its specialisation \<open>Result<void, E>\<close> over a
  flag and an error. Both are the sum of the error and the value, which is what the other theories
  use; an access that violates its assertion has no value.
\<close>

section \<open>\<open>Result<T, E>\<close>\<close>

datatype ('a, 'e) storage = Holds_value 'a | Holds_error 'e

definition result_ok :: "'a \<Rightarrow> ('a, 'e) storage" where
  "result_ok v = Holds_value v"

definition result_err :: "'e \<Rightarrow> ('a, 'e) storage" where
  "result_err e = Holds_error e"

fun holds_value :: "('a, 'e) storage \<Rightarrow> bool" where
  "holds_value (Holds_value v) \<longleftrightarrow> True" | "holds_value (Holds_error e) \<longleftrightarrow> False"

fun holds_error :: "('a, 'e) storage \<Rightarrow> bool" where
  "holds_error (Holds_value v) \<longleftrightarrow> False" | "holds_error (Holds_error e) \<longleftrightarrow> True"

fun result_value :: "('a, 'e) storage \<Rightarrow> 'a option" where
  "result_value (Holds_value v) = Some v" | "result_value (Holds_error e) = None"

fun result_error :: "('a, 'e) storage \<Rightarrow> 'e option" where
  "result_error (Holds_value v) = None" | "result_error (Holds_error e) = Some e"

section \<open>\<open>Result<void, E>\<close>\<close>

text \<open>The error is a default one as long as there is none.\<close>

record 'e void_storage =
  has_error :: bool
  stored_error :: 'e

definition void_ok :: "'e \<Rightarrow> 'e void_storage" where
  "void_ok dflt = \<lparr>has_error = False, stored_error = dflt\<rparr>"

definition void_err :: "'e \<Rightarrow> 'e void_storage" where
  "void_err e = \<lparr>has_error = True, stored_error = e\<rparr>"

definition void_is_ok :: "'e void_storage \<Rightarrow> bool" where
  "void_is_ok r \<longleftrightarrow> \<not> has_error r"

definition void_is_err :: "'e void_storage \<Rightarrow> bool" where
  "void_is_err r \<longleftrightarrow> has_error r"

definition void_error :: "'e void_storage \<Rightarrow> 'e option" where
  "void_error r = (if void_is_err r then Some (stored_error r) else None)"

section \<open>Both are sums\<close>

fun is_err :: "'e + 'a \<Rightarrow> bool" where
  "is_err (Inl e) = True"
| "is_err (Inr a) = False"

fun sum_of_storage :: "('a, 'e) storage \<Rightarrow> 'e + 'a" where
  "sum_of_storage (Holds_value v) = Inr v" | "sum_of_storage (Holds_error e) = Inl e"

definition sum_of_void :: "'e void_storage \<Rightarrow> 'e + unit" where
  "sum_of_void r = (if has_error r then Inl (stored_error r) else Inr ())"

lemma storage_is_sum:
  "sum_of_storage (result_ok v) = Inr v" "sum_of_storage (result_err e) = Inl e"
  "holds_error r \<longleftrightarrow> is_err (sum_of_storage r)" "holds_value r \<longleftrightarrow> \<not> is_err (sum_of_storage r)"
  "result_value r = Some v \<longleftrightarrow> sum_of_storage r = Inr v" "result_error r = Some e \<longleftrightarrow> sum_of_storage r = Inl e"
  by (cases r; simp add: result_ok_def result_err_def)+

lemma storage_sum_bij: "bij sum_of_storage"
proof (rule bijI')
  show "sum_of_storage r = sum_of_storage r' \<longleftrightarrow> r = r'" for r r' :: "('a, 'e) storage"
    by (cases r; cases r') auto
  show "\<exists>r. x = sum_of_storage r" for x :: "'e + 'a"
    by (cases x) (use sum_of_storage.simps in metis)+
qed

lemma void_is_sum:
  "sum_of_void (void_ok d) = Inr ()" "sum_of_void (void_err e) = Inl e"
  "void_is_err r \<longleftrightarrow> is_err (sum_of_void r)" "void_is_ok r \<longleftrightarrow> \<not> is_err (sum_of_void r)"
  "void_error r = Some e \<longleftrightarrow> sum_of_void r = Inl e"
  by (simp_all add: sum_of_void_def void_ok_def void_err_def void_is_ok_def void_is_err_def void_error_def)

text \<open>No caller can tell two results with the same sum apart.\<close>

lemma void_observations:
  "sum_of_void r = sum_of_void r' \<longleftrightarrow> void_is_err r = void_is_err r' \<and> void_error r = void_error r'"
  by (auto simp: sum_of_void_def void_is_err_def void_error_def)

end
