(* ===== verification/Task.thy ===== *)
theory Task
  imports Result
begin

text \<open>
  The data model of \<open>core/include/core/task.h\<close>, \<open>task_error.h\<close> and \<open>core/src/task.cpp\<close>:
  task states and types, structured errors, the task descriptor and its validated state
  machine \<open>transition_to\<close>. A result is a sum with the error on the left (\<^theory_text>\<open>Result\<close>); an
  operation that mutates the descriptor returns the updated one on the right and leaves it
  alone on the left. \<open>Clock::now()\<close> is an argument, in nanoseconds of the steady clock.
\<close>

section \<open>Enumerations\<close>

datatype task_state = Queued | Ready | Running | Paused | Canceled | Failed | Succeeded

datatype task_type = Storyboard | ImageGen | VideoClip | TTS | Compose

datatype error_category =
  Cat_Network | Cat_Timeout | Cat_Resource | Cat_Pipeline | Cat_Canceled | Cat_Internal | Cat_Unknown

fun state_to_string :: "task_state \<Rightarrow> string" where
  "state_to_string Queued = ''Queued''"
| "state_to_string Ready = ''Ready''"
| "state_to_string Running = ''Running''"
| "state_to_string Paused = ''Paused''"
| "state_to_string Canceled = ''Canceled''"
| "state_to_string Failed = ''Failed''"
| "state_to_string Succeeded = ''Succeeded''"

fun type_to_string :: "task_type \<Rightarrow> string" where
  "type_to_string Storyboard = ''Storyboard''"
| "type_to_string ImageGen = ''ImageGen''"
| "type_to_string VideoClip = ''VideoClip''"
| "type_to_string TTS = ''TTS''"
| "type_to_string Compose = ''Compose''"

fun category_to_string :: "error_category \<Rightarrow> string" where
  "category_to_string Cat_Network = ''Network''"
| "category_to_string Cat_Timeout = ''Timeout''"
| "category_to_string Cat_Resource = ''Resource''"
| "category_to_string Cat_Pipeline = ''Pipeline''"
| "category_to_string Cat_Canceled = ''Canceled''"
| "category_to_string Cat_Internal = ''Internal''"
| "category_to_string Cat_Unknown = ''Unknown''"

fun is_terminal :: "task_state \<Rightarrow> bool" where
  "is_terminal Canceled = True"
| "is_terminal Failed = True"
| "is_terminal Succeeded = True"
| "is_terminal _ = False"

instantiation task_state :: enum
begin

definition enum_task_state :: "task_state list" where
  "enum_task_state = [Queued, Ready, Running, Paused, Canceled, Failed, Succeeded]"

definition enum_all_task_state :: "(task_state \<Rightarrow> bool) \<Rightarrow> bool" where
  "enum_all_task_state P \<longleftrightarrow>
     P Queued \<and> P Ready \<and> P Running \<and> P Paused \<and> P Canceled \<and> P Failed \<and> P Succeeded"

definition enum_ex_task_state :: "(task_state \<Rightarrow> bool) \<Rightarrow> bool" where
  "enum_ex_task_state P \<longleftrightarrow>
     P Queued \<or> P Ready \<or> P Running \<or> P Paused \<or> P Canceled \<or> P Failed \<or> P Succeeded"

instance
proof
  have states: "(UNIV :: task_state set) = {Queued, Ready, Running, Paused, Canceled, Failed, Succeeded}"
    using task_state.exhaust by blast
  show "(UNIV :: task_state set) = set enum_class.enum"
    by (simp add: enum_task_state_def states)
  show "distinct (enum_class.enum :: task_state list)"
    by (simp add: enum_task_state_def)
  show "enum_class.enum_all P \<longleftrightarrow> Ball UNIV P" for P :: "task_state \<Rightarrow> bool"
    by (simp only: states enum_all_task_state_def) simp
  show "enum_class.enum_ex P \<longleftrightarrow> Bex UNIV P" for P :: "task_state \<Rightarrow> bool"
    by (simp only: states enum_ex_task_state_def) simp
qed

end

section \<open>Errors\<close>

record task_error =
  category :: error_category
  code :: int
  message :: string
  retryable :: bool
  user_message :: string
  internal_message :: string
  details :: "string \<rightharpoonup> string"

text \<open>The default, the legacy and the full constructor.\<close>

definition TaskError_default :: task_error where
  "TaskError_default = \<lparr>category = Cat_Unknown, code = 0, message = [], retryable = False,
     user_message = [], internal_message = [], details = Map.empty\<rparr>"

definition TaskError3 :: "error_category \<Rightarrow> int \<Rightarrow> string \<Rightarrow> task_error" where
  "TaskError3 cat c msg = \<lparr>category = cat, code = c, message = msg, retryable = False,
     user_message = msg, internal_message = msg, details = Map.empty\<rparr>"

definition TaskError6 ::
  "error_category \<Rightarrow> int \<Rightarrow> bool \<Rightarrow> string \<Rightarrow> string \<Rightarrow> (string \<rightharpoonup> string) \<Rightarrow> task_error" where
  "TaskError6 cat c retry user_msg internal_msg dets = \<lparr>category = cat, code = c,
     message = user_msg, retryable = retry, user_message = user_msg,
     internal_message = internal_msg, details = dets\<rparr>"

definition TaskError_Canceled :: task_error where
  "TaskError_Canceled = TaskError3 Cat_Canceled 1 ''Operation canceled''"

definition TaskError_Timeout :: task_error where
  "TaskError_Timeout = TaskError3 Cat_Timeout 2 ''Deadline exceeded''"

definition TaskError_Pipeline :: "string \<Rightarrow> task_error" where
  "TaskError_Pipeline msg = TaskError3 Cat_Pipeline 3 msg"

definition TaskError_Internal :: "string \<Rightarrow> task_error" where
  "TaskError_Internal msg = TaskError3 Cat_Internal 4 msg"

type_synonym void_result = "task_error + unit"

abbreviation Ok :: void_result where "Ok \<equiv> Inr ()"

lemma is_err_iff: "is_err r \<longleftrightarrow> (\<exists>e. r = Inl e)"
  by (cases r) auto

section \<open>Task descriptor\<close>

record resource_demand =
  cpu_slots :: int
  ram_mb :: int
  vram_mb :: int

definition default_demand :: resource_demand where
  "default_demand = \<lparr>cpu_slots = 1, ram_mb = 256, vram_mb = 0\<rparr>"

text \<open>\<open>cancel_token\<close> is a shared pointer: an address in the token heap, or none.\<close>

record task_descriptor =
  task_id :: string
  trace_id :: string
  ttype :: task_type
  tstate :: task_state
  priority :: int
  progress :: flt
  demand :: resource_demand
  deps :: "string list"
  created_at :: int
  started_at :: "int option"
  finished_at :: "int option"
  terror :: "task_error option"
  cancel_token :: "nat option"
  paused_from :: "task_state option"

text \<open>A descriptor as C++ value-initialises it, with the members the creator sets.\<close>

definition new_task :: "int \<Rightarrow> string \<Rightarrow> string \<Rightarrow> task_type \<Rightarrow> task_descriptor" where
  "new_task now tid trace ty = \<lparr>task_id = tid, trace_id = trace, ttype = ty, tstate = Queued,
     priority = 0, progress = flt_zero, demand = default_demand, deps = [], created_at = now,
     started_at = None, finished_at = None, terror = None, cancel_token = None,
     paused_from = None\<rparr>"

fun legal :: "task_state \<Rightarrow> task_state \<Rightarrow> bool" where
  "legal Queued n = (n = Ready \<or> n = Paused \<or> n = Canceled)"
| "legal Ready n = (n = Running \<or> n = Paused \<or> n = Canceled)"
| "legal Running n = (n = Paused \<or> n = Succeeded \<or> n = Failed \<or> n = Canceled)"
| "legal Paused n = (n = Queued \<or> n = Ready \<or> n = Running \<or> n = Canceled)"
| "legal Failed n = (n = Queued)"
| "legal Canceled n = False"
| "legal Succeeded n = False"

definition illegal_transition :: "task_descriptor \<Rightarrow> task_state \<Rightarrow> task_error" where
  "illegal_transition t n = TaskError_Internal (''Illegal state transition: '' @
     state_to_string (tstate t) @ '' -> '' @ state_to_string n @ '' (task_id='' @ task_id t @ '')'')"

definition apply_transition :: "int \<Rightarrow> task_descriptor \<Rightarrow> task_state \<Rightarrow> task_descriptor" where
  "apply_transition now t n =
    (let old = tstate t;
         t1 = t\<lparr>tstate := n\<rparr>;
         t2 = (if n = Paused then t1\<lparr>paused_from := Some old\<rparr>
               else if old = Paused then t1\<lparr>paused_from := None\<rparr> else t1);
         t3 = (if n = Running \<and> started_at t2 = None then t2\<lparr>started_at := Some now\<rparr> else t2);
         t4 = (if is_terminal n then t3\<lparr>finished_at := Some now\<rparr> else t3)
     in if old = Failed \<and> n = Queued
        then t4\<lparr>progress := flt_zero, terror := None, started_at := None, finished_at := None,
                paused_from := None\<rparr>
        else t4)"

definition transition_to :: "int \<Rightarrow> task_descriptor \<Rightarrow> task_state \<Rightarrow> task_error + task_descriptor" where
  "transition_to now t n =
    (if legal (tstate t) n then Inr (apply_transition now t n) else Inl (illegal_transition t n))"

text \<open>A call whose result the caller discards: an illegal transition leaves the task alone.\<close>

definition transition_ignoring :: "int \<Rightarrow> task_descriptor \<Rightarrow> task_state \<Rightarrow> task_descriptor" where
  "transition_ignoring now t n = (case transition_to now t n of Inl e \<Rightarrow> t | Inr t' \<Rightarrow> t')"

definition set_progress :: "task_descriptor \<Rightarrow> flt \<Rightarrow> task_descriptor" where
  "set_progress t p = t\<lparr>progress := clamp p flt_zero flt_one\<rparr>"

section \<open>Facts about transitions\<close>

lemma terminal_cases: "is_terminal st \<longleftrightarrow> st = Canceled \<or> st = Failed \<or> st = Succeeded"
  by (cases st) auto

lemma apply_transition_fields [simp, frame]:
  "tstate (apply_transition now t n) = n"
  "task_id (apply_transition now t n) = task_id t"
  "trace_id (apply_transition now t n) = trace_id t"
  "ttype (apply_transition now t n) = ttype t"
  "priority (apply_transition now t n) = priority t"
  "demand (apply_transition now t n) = demand t"
  "deps (apply_transition now t n) = deps t"
  "created_at (apply_transition now t n) = created_at t"
  "cancel_token (apply_transition now t n) = cancel_token t"
  by (simp_all add: apply_transition_def Let_def)

lemma apply_transition_progress [simp]:
  "tstate t \<noteq> Failed \<Longrightarrow> progress (apply_transition now t n) = progress t"
  by (simp add: apply_transition_def Let_def)

lemma apply_transition_terror [simp]:
  "tstate t \<noteq> Failed \<Longrightarrow> terror (apply_transition now t n) = terror t"
  by (simp add: apply_transition_def Let_def)

lemma apply_transition_paused_from:
  "tstate t \<noteq> Failed \<Longrightarrow> paused_from (apply_transition now t n) =
     (if n = Paused then Some (tstate t) else if tstate t = Paused then None else paused_from t)"
  by (auto simp: apply_transition_def Let_def)

lemma transition_to_Inr:
  "transition_to now t n = Inr t' \<longleftrightarrow> legal (tstate t) n \<and> t' = apply_transition now t n"
  by (auto simp: transition_to_def)

lemma transition_to_Inl:
  "transition_to now t n = Inl e \<longleftrightarrow> \<not> legal (tstate t) n \<and> e = illegal_transition t n"
  by (auto simp: transition_to_def)

lemma transition_to_legal [simp]:
  "legal (tstate t) n \<Longrightarrow> transition_to now t n = Inr (apply_transition now t n)"
  by (simp add: transition_to_def)

lemma transition_to_illegal [simp]:
  "\<not> legal (tstate t) n \<Longrightarrow> transition_to now t n = Inl (illegal_transition t n)"
  by (simp add: transition_to_def)

lemma transition_ignoring_eq:
  "transition_ignoring now t n = (if legal (tstate t) n then apply_transition now t n else t)"
  by (simp add: transition_ignoring_def)

lemma set_progress_fields [simp, frame]:
  "tstate (set_progress t p) = tstate t"
  "task_id (set_progress t p) = task_id t"
  "trace_id (set_progress t p) = trace_id t"
  "ttype (set_progress t p) = ttype t"
  "priority (set_progress t p) = priority t"
  "demand (set_progress t p) = demand t"
  "deps (set_progress t p) = deps t"
  "terror (set_progress t p) = terror t"
  "started_at (set_progress t p) = started_at t"
  "finished_at (set_progress t p) = finished_at t"
  "cancel_token (set_progress t p) = cancel_token t"
  "paused_from (set_progress t p) = paused_from t"
  by (simp_all add: set_progress_def)

lemma legal_cancel: "legal st Canceled \<longleftrightarrow> \<not> is_terminal st"
  by (cases st) auto

lemma legal_from_terminal: "is_terminal st \<Longrightarrow> legal st n \<longleftrightarrow> st = Failed \<and> n = Queued"
  by (cases st) auto

text \<open>The descriptor invariant: what the timestamps and the pause record say about the state.\<close>

definition task_wf :: "task_descriptor \<Rightarrow> bool" where
  "task_wf t \<longleftrightarrow>
     (tstate t = Paused \<longleftrightarrow> paused_from t \<noteq> None) \<and>
     (\<forall>st. paused_from t = Some st \<longrightarrow> st = Queued \<or> st = Ready \<or> st = Running) \<and>
     (is_terminal (tstate t) \<longleftrightarrow> finished_at t \<noteq> None) \<and>
     (tstate t \<in> {Running, Succeeded, Failed} \<longrightarrow> started_at t \<noteq> None)"

text \<open>
  \<open>Paused -> Running\<close> sets the start time even when the task was paused before it started, and
  \<open>transition_to\<close> does not consult \<open>paused_from\<close>: the caller decides where a paused task
  resumes.
\<close>

lemma task_wf_new_task [simp]: "task_wf (new_task now tid trace ty)"
  by (simp add: task_wf_def new_task_def)

lemma task_wf_apply:
  assumes "task_wf t" and "legal (tstate t) n"
  shows "task_wf (apply_transition now t n)"
  using assms by (cases "tstate t"; cases n) (auto simp: task_wf_def apply_transition_def Let_def)

lemma task_wf_set_progress [simp]: "task_wf (set_progress t p) = task_wf t"
  by (simp add: task_wf_def)


text \<open>What a client hands over: a queued, well-formed descriptor.\<close>

definition fresh_task :: "task_descriptor \<Rightarrow> bool" where
  "fresh_task t \<longleftrightarrow> tstate t = Queued \<and> task_wf t"

lemma fresh_queued: "fresh_task t \<Longrightarrow> tstate t = Queued"
  by (simp add: fresh_task_def)

text \<open>Past the dependency check: ready, or further, or paused after that.\<close>

definition started :: "task_descriptor \<Rightarrow> bool" where
  "started t \<longleftrightarrow> tstate t \<in> {Ready, Running, Succeeded, Failed} \<or>
     (tstate t = Paused \<and> paused_from t \<in> {Some Ready, Some Running})"

lemma started_set_progress [simp]: "started (set_progress t p) = started t"
  by (simp add: started_def)

lemma fresh_task_new_task: "fresh_task (new_task now tid trace ty)"
  by (simp add: fresh_task_def new_task_def task_wf_def)

section \<open>Properties\<close>

text \<open>C35: The task state machine. A transition that is accepted leads to the requested state, keeps
  the identity, the dependencies and the demand, and preserves the descriptor invariant. The
  start time is set by the first run and not overwritten; a terminal task accepts only the retry
  of a failed one, which resets progress, error and times.\<close>

theorem transition_spec:
  assumes "task_wf t" and "transition_to now t n = Inr t'"
  shows "task_wf t' \<and> tstate t' = n \<and> task_id t' = task_id t \<and> deps t' = deps t \<and>
    demand t' = demand t \<and>
    (is_terminal (tstate t) \<longrightarrow> tstate t = Failed \<and> n = Queued \<and> progress t' = flt_zero \<and>
       terror t' = None \<and> started_at t' = None \<and> finished_at t' = None) \<and>
    (\<not> is_terminal (tstate t) \<longrightarrow> progress t' = progress t \<and> terror t' = terror t \<and>
       (\<forall>x. started_at t = Some x \<longrightarrow> started_at t' = Some x) \<and>
       (n = Running \<longrightarrow> started_at t' \<noteq> None))"
proof -
  from assms(2) have lg: "legal (tstate t) n" and t': "t' = apply_transition now t n"
    by (auto simp: transition_to_Inr)
  have wf: "task_wf t'" using task_wf_apply [OF assms(1) lg] by (simp add: t')
  show ?thesis
    using lg wf unfolding t'
    by (cases "tstate t"; cases n) (auto simp: apply_transition_def Let_def)
qed

theorem transition_spec_witness:
  "started_at (apply_transition 9 (apply_transition 7 (apply_transition 5
     (new_task 0 ''a'' ''t'' Storyboard) Ready) Running) Succeeded) = Some 7"
proof -
  define r where "r = apply_transition 7 (apply_transition 5
    (new_task 0 ''a'' ''t'' Storyboard) Ready) Running"
  have r: "tstate r = Running" "started_at r = Some 7" "task_wf r"
    by (simp_all add: r_def task_wf_def new_task_def apply_transition_def Let_def)
  then have "transition_to 9 r Succeeded = Inr (apply_transition 9 r Succeeded)"
    by (simp add: transition_to_def)
  from transition_spec [OF r(3) this] r(1,2)
  have "started_at (apply_transition 9 r Succeeded) = Some 7" by simp
  then show ?thesis by (simp only: r_def)
qed

text \<open>\<open>set_progress\<close> keeps the documented range: the stored progress is within \<open>[0, 1]\<close> unless the
  report is NaN, which is stored as it is; a report within the range is stored exactly.\<close>

theorem set_progress_range:
  "(unit_interval (progress (set_progress t p)) \<longleftrightarrow> p \<noteq> NaN) \<and>
   progress (set_progress t p) = (if unit_interval p then p else if p = NaN then NaN
     else if flt_less p flt_zero then flt_zero else flt_one)"
proof (cases p)
  case NaN
  then show ?thesis by (simp add: set_progress_def unit_interval_def)
qed (auto simp: set_progress_def unit_interval_def clamp_def)

end
