(* ===== verification/Cancel_Token.thy ===== *)
theory Cancel_Token
  imports Task
begin

text \<open>
  \<open>core/include/core/cancel_token.h\<close> and \<open>core/src/cancel_token.cpp\<close>. A token is its atomic flag
  and its callback list. A callback is a \<open>std::function\<close>: empty, or the number of a callable; its
  body is the registrant's code, so running it is recorded in the order of the invocations.
  First the operations as one thread runs them, then the heap of shared tokens, then the
  interleavings of registering threads with a cancelling thread, with the atomic steps the code
  has: the load of the flag, the locked append, the compare-and-swap, the locked traversal.
\<close>

section \<open>One token, one thread\<close>

type_synonym callback = "nat option"

record token =
  canceled :: bool
  callbacks :: "callback list"

datatype cpp_exception = Runtime_error string | Callback_exception nat

definition new_token :: token where
  "new_token = \<lparr>canceled = False, callbacks = []\<rparr>"

fun run_callbacks :: "callback list \<Rightarrow> nat list" where
  "run_callbacks [] = []"
| "run_callbacks (cb # cbs) = (case cb of None \<Rightarrow> run_callbacks cbs | Some k \<Rightarrow> k # run_callbacks cbs)"

text \<open>The token afterwards and the callbacks invoked; what a callback throws is swallowed.\<close>

definition request_cancel :: "token \<Rightarrow> token \<times> nat list" where
  "request_cancel tk =
     (if \<not> canceled tk then (tk\<lparr>canceled := True\<rparr>, run_callbacks (callbacks tk)) else (tk, []))"

definition is_canceled :: "token \<Rightarrow> bool" where
  "is_canceled tk = canceled tk"

definition throw_if_canceled :: "token \<Rightarrow> cpp_exception + unit" where
  "throw_if_canceled tk =
     (if is_canceled tk then Inl (Runtime_error ''CancelToken: operation canceled'') else Inr ())"

text \<open>
  \<open>on_cancel\<close> invokes the callback itself when the token is already canceled, outside any
  handler: an exception of the callback reaches the caller (\<open>throws\<close> says which callbacks throw).
\<close>

definition on_cancel ::
  "(nat \<Rightarrow> bool) \<Rightarrow> token \<Rightarrow> callback \<Rightarrow> (cpp_exception + token) \<times> nat list" where
  "on_cancel throws tk cb =
     (if is_canceled tk
      then (case cb of
              None \<Rightarrow> (Inr tk, [])
            | Some k \<Rightarrow> (if throws k then Inl (Callback_exception k) else Inr tk, [k]))
      else (Inr (tk\<lparr>callbacks := callbacks tk @ [cb]\<rparr>), []))"

lemma run_callbacks_append [simp]:
  "run_callbacks (xs @ ys) = run_callbacks xs @ run_callbacks ys"
  by (induction xs) (auto split: option.splits)

lemma set_run_callbacks: "k \<in> set (run_callbacks cbs) \<longleftrightarrow> Some k \<in> set cbs"
  by (induction cbs) (auto split: option.splits)

lemma request_cancel_canceled [simp]: "canceled (fst (request_cancel tk))"
  by (simp add: request_cancel_def)

lemma request_cancel_callbacks [simp]: "callbacks (fst (request_cancel tk)) = callbacks tk"
  by (simp add: request_cancel_def)

section \<open>The heap of shared tokens\<close>

text \<open>
  A \<open>shared_ptr<CancelToken>\<close> is an index into the heap. Tasks of one workflow share one token, so
  a cancellation through one task is seen through all of them. \<open>fired\<close> logs the callbacks in the
  order in which they ran.
\<close>

record token_heap =
  toks :: "token list"
  fired :: "nat list"

definition empty_heap :: token_heap where
  "empty_heap = \<lparr>toks = [], fired = []\<rparr>"

definition create_token :: "token_heap \<Rightarrow> token_heap \<times> nat" where
  "create_token h = (h\<lparr>toks := toks h @ [new_token]\<rparr>, length (toks h))"

definition heap_request_cancel :: "token_heap \<Rightarrow> nat \<Rightarrow> token_heap" where
  "heap_request_cancel h a =
     (if a < length (toks h)
      then (case request_cancel (toks h ! a) of
              (tk, ks) \<Rightarrow> h\<lparr>toks := (toks h)[a := tk], fired := fired h @ ks\<rparr>)
      else h)"

definition heap_is_canceled :: "token_heap \<Rightarrow> nat \<Rightarrow> bool" where
  "heap_is_canceled h a = (a < length (toks h) \<and> is_canceled (toks h ! a))"

text \<open>\<open>if (token) token->request_cancel();\<close> and \<open>token && token->is_canceled()\<close>.\<close>

definition cancel_opt :: "token_heap \<Rightarrow> nat option \<Rightarrow> token_heap" where
  "cancel_opt h p = (case p of None \<Rightarrow> h | Some a \<Rightarrow> heap_request_cancel h a)"

definition canceled_opt :: "token_heap \<Rightarrow> nat option \<Rightarrow> bool" where
  "canceled_opt h p = (case p of None \<Rightarrow> False | Some a \<Rightarrow> heap_is_canceled h a)"

lemma heap_request_cancel_length [simp]:
  "length (toks (heap_request_cancel h a)) = length (toks h)"
  by (simp add: heap_request_cancel_def split: prod.splits)

lemma heap_request_cancel_iff:
  "heap_is_canceled (heap_request_cancel h a) b \<longleftrightarrow>
     (a = b \<and> a < length (toks h)) \<or> heap_is_canceled h b"
  by (auto simp: heap_request_cancel_def heap_is_canceled_def is_canceled_def request_cancel_def
      nth_list_update)

lemma cancel_opt_mono: "canceled_opt h p \<Longrightarrow> canceled_opt (cancel_opt h q) p"
  by (auto simp: canceled_opt_def cancel_opt_def heap_request_cancel_iff split: option.splits)

lemma create_token_fresh:
  "create_token h = (h', a) \<Longrightarrow> \<not> heap_is_canceled h' a \<and> a < length (toks h')"
  by (auto simp: create_token_def heap_is_canceled_def is_canceled_def new_token_def nth_append)

lemma create_token_frame:
  "create_token h = (h', a) \<Longrightarrow> heap_is_canceled h b \<Longrightarrow> heap_is_canceled h' b"
  by (auto simp: create_token_def heap_is_canceled_def is_canceled_def nth_append)

section \<open>Interleavings\<close>

text \<open>
  Thread \<open>i\<close> registers callback \<open>i\<close>: it has not called \<open>on_cancel\<close>, or it has read the flag as
  false and not yet appended, or it has returned. One thread cancels: \<open>won\<close> once its
  compare-and-swap succeeded, \<open>drained\<close> once it has traversed the callbacks under the lock.
\<close>

datatype reg_pc = Reg_start | Reg_checked | Reg_done

record race =
  rtok :: token
  rfired :: "nat list"
  regs :: "nat \<Rightarrow> reg_pc"
  won :: bool
  drained :: bool

definition race_init :: race where
  "race_init = \<lparr>rtok = new_token, rfired = [], regs = (\<lambda>_. Reg_start), won = False, drained = False\<rparr>"

inductive race_step :: "race \<Rightarrow> race \<Rightarrow> bool" where
  check_live: "regs s i = Reg_start \<Longrightarrow> \<not> is_canceled (rtok s) \<Longrightarrow>
     race_step s (s\<lparr>regs := (regs s)(i := Reg_checked)\<rparr>)"
| check_canceled: "regs s i = Reg_start \<Longrightarrow> is_canceled (rtok s) \<Longrightarrow>
     race_step s (s\<lparr>regs := (regs s)(i := Reg_done), rfired := rfired s @ [i]\<rparr>)"
| locked_push: "regs s i = Reg_checked \<Longrightarrow>
     race_step s (s\<lparr>regs := (regs s)(i := Reg_done),
                    rtok := (rtok s)\<lparr>callbacks := callbacks (rtok s) @ [Some i]\<rparr>\<rparr>)"
| cas: "\<not> is_canceled (rtok s) \<Longrightarrow>
     race_step s (s\<lparr>rtok := (rtok s)\<lparr>canceled := True\<rparr>, won := True\<rparr>)"
| locked_drain: "won s \<Longrightarrow> \<not> drained s \<Longrightarrow>
     race_step s (s\<lparr>rfired := rfired s @ run_callbacks (callbacks (rtok s)), drained := True\<rparr>)"

inductive race_run :: "race \<Rightarrow> race \<Rightarrow> bool" where
  race_here [intro]: "race_run s s"
| race_next: "race_run s t \<Longrightarrow> race_step t u \<Longrightarrow> race_run s u"

inductive_cases race_stepE: "race_step s t"

definition race_inv :: "race \<Rightarrow> bool" where
  "race_inv s \<longleftrightarrow>
     (\<forall>i \<in> set (run_callbacks (callbacks (rtok s))). regs s i = Reg_done) \<and>
     distinct (run_callbacks (callbacks (rtok s))) \<and>
     (\<forall>i \<in> set (rfired s). regs s i = Reg_done) \<and>
     distinct (rfired s) \<and>
     (\<not> drained s \<longrightarrow> set (rfired s) \<inter> set (run_callbacks (callbacks (rtok s))) = {}) \<and>
     (drained s \<longrightarrow> won s) \<and>
     (canceled (rtok s) \<longleftrightarrow> won s) \<and>
     (\<not> won s \<longrightarrow> rfired s = []) \<and>
     (\<not> won s \<longrightarrow> (\<forall>i. regs s i = Reg_done \<longrightarrow> i \<in> set (run_callbacks (callbacks (rtok s)))))"

lemma race_run_step: "race_step s t \<Longrightarrow> race_run s t"
  by (rule race_next [OF race_here])

lemma race_run_two: "race_step s t \<Longrightarrow> race_step t u \<Longrightarrow> race_run s u"
  by (rule race_next [OF race_run_step])

lemma race_inv_init: "race_inv race_init"
  by (simp add: race_inv_def race_init_def new_token_def)

lemma race_inv_step: "race_step s t \<Longrightarrow> race_inv s \<Longrightarrow> race_inv t"
proof (induction rule: race_step.induct)
  case (check_live s i)
  then show ?case by (auto simp: race_inv_def)
next
  case (check_canceled s i)
  then show ?case by (auto simp: race_inv_def is_canceled_def)
next
  case (locked_push s i)
  then show ?case by (auto simp: race_inv_def)
next
  case (cas s)
  then show ?case by (auto simp: race_inv_def is_canceled_def)
next
  case (locked_drain s)
  then show ?case by (auto simp: race_inv_def)
qed

lemma race_inv_run: "race_run s t \<Longrightarrow> race_inv s \<Longrightarrow> race_inv t"
  by (induction rule: race_run.induct) (auto intro: race_inv_step)

text \<open>A callback whose registration is complete stays registered, and is fired by the traversal.\<close>

definition will_fire :: "nat \<Rightarrow> race \<Rightarrow> bool" where
  "will_fire i s \<longleftrightarrow> regs s i = Reg_done \<and>
     (if drained s then i \<in> set (rfired s) else i \<in> set (run_callbacks (callbacks (rtok s))))"

lemma will_fire_step: "race_step s t \<Longrightarrow> will_fire i s \<Longrightarrow> will_fire i t"
  by (induction rule: race_step.induct) (auto simp: will_fire_def)

lemma will_fire_run: "race_run s t \<Longrightarrow> will_fire i s \<Longrightarrow> will_fire i t"
  by (induction rule: race_run.induct) (auto intro: will_fire_step)

lemma done_registered:
  assumes "race_run race_init s" and "regs s i = Reg_done" and "\<not> won s"
  shows "will_fire i s"
proof -
  have "race_inv s" using assms(1) race_inv_init by (rule race_inv_run)
  with assms(2,3) show ?thesis by (simp add: race_inv_def will_fire_def)
qed

section \<open>Properties\<close>

text \<open>Cancellation is idempotent and fires each registered callback once, in the order of
  registration: a second request changes nothing and fires nothing, and a callback registered
  after the request runs at once and is not stored.\<close>

theorem cancel_fires_once:
  assumes "\<not> is_canceled tk" and "request_cancel tk = (tk', ks)"
  shows "ks = run_callbacks (callbacks tk) \<and> is_canceled tk' \<and> request_cancel tk' = (tk', []) \<and>
    on_cancel throws tk' (Some k) = (if throws k then Inl (Callback_exception k) else Inr tk', [k]) \<and>
    throw_if_canceled tk' = Inl (Runtime_error ''CancelToken: operation canceled'')"
  using assms by (auto simp: request_cancel_def is_canceled_def on_cancel_def throw_if_canceled_def)

theorem cancel_fires_once_witness:
  "request_cancel \<lparr>canceled = True, callbacks = [Some 4, None, Some 9]\<rparr> =
     (\<lparr>canceled = True, callbacks = [Some 4, None, Some 9]\<rparr>, []) \<and>
   snd (request_cancel \<lparr>canceled = False, callbacks = [Some 4, None, Some 9]\<rparr>) = [4, 9]"
  using cancel_fires_once [of "\<lparr>canceled = False, callbacks = [Some 4, None, Some 9]\<rparr>"
      "\<lparr>canceled = True, callbacks = [Some 4, None, Some 9]\<rparr>" "[4, 9]" "\<lambda>_. False" 0]
  by (simp add: is_canceled_def request_cancel_def)

text \<open>C27: Registration against cancellation, any interleaving. No callback runs twice, none runs
  before the token is canceled, and a callback whose registration returned before the
  cancellation has run once the cancelling thread has traversed the list.\<close>

theorem race_fires:
  assumes "race_run race_init s" and "race_run s t"
  shows "distinct (rfired t) \<and> (rfired t \<noteq> [] \<longrightarrow> is_canceled (rtok t)) \<and>
    (regs s i = Reg_done \<and> \<not> won s \<and> drained t \<longrightarrow> i \<in> set (rfired t))"
proof -
  have inv: "race_inv s" using assms(1) race_inv_init by (rule race_inv_run)
  have "race_inv t" using assms(2) inv by (rule race_inv_run)
  moreover have "i \<in> set (rfired t)" if "regs s i = Reg_done" "\<not> won s" "drained t"
    using will_fire_run [OF assms(2) done_registered [OF assms(1) that(1,2)]] that(3)
    by (simp add: will_fire_def)
  ultimately show ?thesis by (auto simp: race_inv_def is_canceled_def)
qed

definition race_registered :: race where
  "race_registered = race_init\<lparr>regs := (\<lambda>_. Reg_start)(0 := Reg_done),
     rtok := \<lparr>canceled = False, callbacks = [Some 0]\<rparr>\<rparr>"

definition race_drained :: race where
  "race_drained = race_registered\<lparr>rtok := \<lparr>canceled = True, callbacks = [Some 0]\<rparr>, won := True,
     rfired := [0], drained := True\<rparr>"

lemma race_registered_run: "race_run race_init race_registered"
proof -
  have "race_step race_init (race_init\<lparr>regs := (regs race_init)(0 := Reg_checked)\<rparr>)"
    by (rule check_live) (simp_all add: race_init_def new_token_def is_canceled_def)
  moreover have "race_step (race_init\<lparr>regs := (regs race_init)(0 := Reg_checked)\<rparr>) race_registered"
    using locked_push [of "race_init\<lparr>regs := (regs race_init)(0 := Reg_checked)\<rparr>" 0]
    by (simp add: race_registered_def race_init_def new_token_def)
  ultimately show ?thesis by (rule race_run_two)
qed

lemma race_drained_run: "race_run race_registered race_drained"
proof -
  let ?m = "race_registered\<lparr>rtok := \<lparr>canceled = True, callbacks = [Some 0]\<rparr>, won := True\<rparr>"
  have "race_step race_registered ?m"
    using cas [of race_registered] by (simp add: race_registered_def race_init_def is_canceled_def)
  moreover have "race_step ?m race_drained"
    using locked_drain [of ?m] by (simp add: race_drained_def race_registered_def race_init_def)
  ultimately show ?thesis by (rule race_run_two)
qed

theorem race_fires_witness: "0 \<in> set (rfired race_drained)"
  using race_fires [OF race_registered_run race_drained_run, of 0]
  by (simp add: race_registered_def race_drained_def race_init_def)

text \<open>The end of a run in which callback 0 is registered too late.\<close>

definition race_lost :: race where
  "race_lost = race_init\<lparr>regs := (\<lambda>_. Reg_start)(0 := Reg_done),
     rtok := \<lparr>canceled = True, callbacks = [Some 0]\<rparr>, won := True, drained := True\<rparr>"

lemma race_lost_run: "race_run race_init race_lost"
proof -
  let ?a = "race_init\<lparr>regs := (\<lambda>_. Reg_start)(0 := Reg_checked)\<rparr>"
  let ?b = "?a\<lparr>rtok := \<lparr>canceled = True, callbacks = []\<rparr>, won := True\<rparr>"
  let ?c = "?b\<lparr>drained := True\<rparr>"
  have "race_step race_init ?a"
    using check_live [of race_init 0] by (simp add: race_init_def new_token_def is_canceled_def)
  moreover have "race_step ?a ?b"
    using cas [of ?a] by (simp add: race_init_def new_token_def is_canceled_def)
  moreover have "race_step ?b ?c"
    using locked_drain [of ?b] by (simp add: race_init_def)
  moreover have "race_step ?c race_lost"
    using locked_push [of ?c 0] by (simp add: race_lost_def race_init_def)
  ultimately show ?thesis by (rule race_next [OF race_next [OF race_run_two]])
qed

lemma race_lost_forever: "race_step s t \<Longrightarrow>
    regs s i = Reg_done \<and> drained s \<and> i \<notin> set (rfired s) \<Longrightarrow>
    regs t i = Reg_done \<and> drained t \<and> i \<notin> set (rfired t)"
  by (induction rule: race_step.induct) auto

text \<open>A registration can be lost. A run exists in which \<open>on_cancel\<close> returned, the token is
  canceled, the cancelling thread is through, and the callback has not run and never will: the
  registering thread read the flag before the cancellation and appended after the traversal.\<close>

theorem race_callback_lost:
  "\<exists>s. race_run race_init s \<and> regs s 0 = Reg_done \<and> is_canceled (rtok s) \<and> drained s \<and>
     (\<forall>t. race_run s t \<longrightarrow> 0 \<notin> set (rfired t))"
proof (intro exI conjI allI impI)
  show "race_run race_init race_lost" by (rule race_lost_run)
  show "regs race_lost 0 = Reg_done" "is_canceled (rtok race_lost)" "drained race_lost"
    by (simp_all add: race_lost_def is_canceled_def)
  fix t
  assume "race_run race_lost t"
  moreover have "regs race_lost 0 = Reg_done \<and> drained race_lost \<and> 0 \<notin> set (rfired race_lost)"
    by (simp add: race_lost_def race_init_def)
  ultimately have "regs t 0 = Reg_done \<and> drained t \<and> 0 \<notin> set (rfired t)"
    by (induction rule: race_run.induct) (auto dest: race_lost_forever)
  then show "0 \<notin> set (rfired t)" by simp
qed

theorem race_callback_lost_witness:
  "\<exists>s. race_run race_init s \<and> regs s 0 = Reg_done \<and> is_canceled (rtok s) \<and> 0 \<notin> set (rfired s)"
  using race_callback_lost by (blast intro: race_here)

end
