(* ===== verification/Pipeline.thy ===== *)
theory Pipeline
  imports Cancel_Token
begin

text \<open>
  \<open>core/include/core/pipeline.h\<close> and \<open>core/src/pipeline.cpp\<close>: the stage context with its typed
  inputs and outputs, the stage classes the repository has, and the three mock stages. A stage
  runs outside the scheduler lock: what it sees is the answer of \<open>is_canceled()\<close> at each of its
  polls, what it does is a list of progress reports, its outputs and its result.
\<close>

section \<open>Values and contexts\<close>

text \<open>\<open>std::any\<close>, by the types the code stores; \<open>any_cast\<close> succeeds on the exact type only.\<close>

datatype any = Any_int int | Any_string string | Any_float flt | Any_strings "string list" | Any_other nat

type_synonym any_map = "string \<rightharpoonup> any"

record stage_context =
  ctx_trace_id :: string
  ctx_cancel_token :: "nat option"
  ctx_inputs :: any_map
  ctx_outputs :: any_map
  ctx_on_progress :: bool

definition new_context :: stage_context where
  "new_context = \<lparr>ctx_trace_id = [], ctx_cancel_token = None, ctx_inputs = Map.empty,
     ctx_outputs = Map.empty, ctx_on_progress = False\<rparr>"

definition get_input_int :: "stage_context \<Rightarrow> string \<Rightarrow> int \<Rightarrow> int" where
  "get_input_int ctx key dflt = (case ctx_inputs ctx key of Some (Any_int n) \<Rightarrow> n | _ \<Rightarrow> dflt)"

definition get_input_string :: "stage_context \<Rightarrow> string \<Rightarrow> string \<Rightarrow> string" where
  "get_input_string ctx key dflt = (case ctx_inputs ctx key of Some (Any_string v) \<Rightarrow> v | _ \<Rightarrow> dflt)"

definition get_input_float :: "stage_context \<Rightarrow> string \<Rightarrow> flt \<Rightarrow> flt" where
  "get_input_float ctx key dflt = (case ctx_inputs ctx key of Some (Any_float v) \<Rightarrow> v | _ \<Rightarrow> dflt)"

definition set_output :: "stage_context \<Rightarrow> string \<Rightarrow> any \<Rightarrow> stage_context" where
  "set_output ctx key v = ctx\<lparr>ctx_outputs := (ctx_outputs ctx)(key \<mapsto> v)\<rparr>"

text \<open>The classes that implement \<open>IStage\<close>; a foreign stage is any other implementation.\<close>

datatype stage =
    MockStoryboardStage | MockImageGenStage | MockComposeStage
  | StoryboardStage string | ImageGenStage string | TtsStage string | ComposeStage string
  | Foreign_stage nat

section \<open>Single-precision quotients\<close>

text \<open>
  \<open>static_cast<float>(i + 1) / steps\<close>: the quotient of two small integers, rounded to the 24-bit
  significand, ties to even. \<open>f32_exp\<close> finds the scaling that brings the quotient above \<open>2 ^ 23\<close>.
\<close>

function f32_exp :: "nat \<Rightarrow> nat \<Rightarrow> nat \<Rightarrow> nat" where
  "f32_exp a b e = (if a = 0 \<or> b * 2 ^ 23 \<le> a * 2 ^ e then e else f32_exp a b (Suc e))"
  by pat_completeness auto
termination
proof (relation "measure (\<lambda>(a, b, e). b * 2 ^ 23 - a * 2 ^ e)", goal_cases)
  case 1
  show ?case by simp
next
  case (2 a b e)
  then have "a * 2 ^ e < a * 2 ^ Suc e" "a * 2 ^ e < b * 2 ^ 23" by auto
  then have "b * 2 ^ 23 - a * 2 ^ Suc e < b * 2 ^ 23 - a * 2 ^ e" by (metis diff_less_mono2)
  then show ?case by simp
qed

declare f32_exp.simps [simp del]

definition f32_round_div :: "nat \<Rightarrow> nat \<Rightarrow> nat" where
  "f32_round_div n b =
     (let q = n div b; r = n mod b
      in if b < 2 * r \<or> (2 * r = b \<and> odd q) then Suc q else q)"

definition f32_div :: "nat \<Rightarrow> nat \<Rightarrow> flt" where
  "f32_div a b = (let e = f32_exp a b 23 in Fin (of_nat (f32_round_div (a * 2 ^ e) b) / 2 ^ e))"

lemma f32_round_div_le:
  assumes "0 < b" and "n \<le> b * m"
  shows "f32_round_div n b \<le> m"
proof (cases "n div b = m")
  case True
  with assms have "n = b * m" by (metis le_antisym times_div_less_eq_dividend)
  with assms(1) show ?thesis by (simp add: f32_round_div_def)
next
  case False
  have "n div b \<le> m" using assms by (metis div_le_mono nonzero_mult_div_cancel_left less_numeral_extra(3))
  with False show ?thesis by (simp add: f32_round_div_def Let_def)
qed

lemma f32_div_unit:
  assumes "0 < b" and "a \<le> b"
  shows "unit_interval (f32_div a b)"
proof -
  define e where "e = f32_exp a b 23"
  define m where "m = f32_round_div (a * 2 ^ e) b"
  have "m \<le> 2 ^ e"
    unfolding m_def using assms by (intro f32_round_div_le) auto
  then have "(of_nat m :: rat) \<le> of_nat (2 ^ e)" by (simp only: of_nat_le_iff)
  then have "(of_nat m :: rat) \<le> 2 ^ e" by simp
  then show ?thesis
    by (simp add: f32_div_def Let_def unit_interval_def flip: e_def m_def)
qed

section \<open>Mock stages\<close>

text \<open>
  The polling loop that the mock stages share: before step \<open>i\<close> the token is polled, after the
  sleep the progress \<open>(i + 1) / steps\<close> is reported. The result says whether the stage was canceled.
\<close>

function mock_steps :: "stage_context \<Rightarrow> (nat \<Rightarrow> bool) \<Rightarrow> nat \<Rightarrow> nat \<Rightarrow> flt list \<times> bool" where
  "mock_steps ctx polls steps i =
     (if i < steps then
        if ctx_cancel_token ctx \<noteq> None \<and> polls i then ([], True)
        else (case mock_steps ctx polls steps (Suc i) of
                (ps, c) \<Rightarrow> ((if ctx_on_progress ctx then [f32_div (Suc i) steps] else []) @ ps, c))
      else ([], False))"
  by pat_completeness auto
termination
  by (relation "measure (\<lambda>(ctx, polls, steps, i). steps - i)") auto

declare mock_steps.simps [simp del]

type_synonym stage_outcome = "stage_context \<times> flt list \<times> void_result"

definition mock_scenes :: "int \<Rightarrow> string list" where
  "mock_scenes n = map (\<lambda>i. ''mock_scene_prompt_'' @ to_string_int (int (Suc i))) [0..<nat n]"

definition mock_storyboard_execute :: "(nat \<Rightarrow> bool) \<Rightarrow> stage_context \<Rightarrow> stage_outcome" where
  \<open>mock_storyboard_execute polls ctx =
     (case mock_steps ctx polls 5 0 of
        (ps, c) \<Rightarrow>
          if c then (ctx, ps, Inl TaskError_Canceled)
          else (let ctx1 = set_output ctx ''scenes''
                             (Any_strings (mock_scenes (get_input_int ctx ''scene_count'' 4)));
                    ctx2 = set_output ctx1 ''storyboard_json''
                             (Any_string ''{"scenes": ["mock"]}'')
                in (ctx2, ps, Ok)))\<close>

definition mock_imagegen_execute :: "(nat \<Rightarrow> bool) \<Rightarrow> stage_context \<Rightarrow> stage_outcome" where
  "mock_imagegen_execute polls ctx =
     (case mock_steps ctx polls 3 0 of
        (ps, c) \<Rightarrow>
          if c then (ctx, ps, Inl TaskError_Canceled)
          else (set_output ctx ''image_path''
                  (Any_string (''/tmp/stv_mock/frame_'' @
                     to_string_int (get_input_int ctx ''scene_index'' 0) @ ''.png'')), ps, Ok))"

definition mock_compose_execute :: "(nat \<Rightarrow> bool) \<Rightarrow> stage_context \<Rightarrow> stage_outcome" where
  "mock_compose_execute polls ctx =
     (case mock_steps ctx polls 5 0 of
        (ps, c) \<Rightarrow>
          if c then (ctx, ps, Inl TaskError_Canceled)
          else (set_output ctx ''output_path'' (Any_string ''/tmp/stv_mock/final_output.mp4''), ps, Ok))"

fun create_mock_stage :: "task_type \<Rightarrow> stage" where
  "create_mock_stage Storyboard = MockStoryboardStage"
| "create_mock_stage ImageGen = MockImageGenStage"
| "create_mock_stage Compose = MockComposeStage"
| "create_mock_stage TTS = MockStoryboardStage"
| "create_mock_stage VideoClip = MockImageGenStage"

fun mock_execute :: "stage \<Rightarrow> ((nat \<Rightarrow> bool) \<Rightarrow> stage_context \<Rightarrow> stage_outcome) option" where
  "mock_execute MockStoryboardStage = Some mock_storyboard_execute"
| "mock_execute MockImageGenStage = Some mock_imagegen_execute"
| "mock_execute MockComposeStage = Some mock_compose_execute"
| "mock_execute _ = None"

section \<open>Facts about the polling loop\<close>

lemma mock_steps_reports_unit:
  "p \<in> set (fst (mock_steps ctx polls steps i)) \<Longrightarrow> unit_interval p"
proof (induction ctx polls steps i rule: mock_steps.induct)
  case (1 ctx polls steps i)
  then show ?case
    by (subst (asm) (2) mock_steps.simps)
       (auto simp: f32_div_unit split: if_splits prod.splits)
qed

lemma mock_steps_canceled:
  "snd (mock_steps ctx polls steps i) \<longleftrightarrow>
     ctx_cancel_token ctx \<noteq> None \<and> (\<exists>j. i \<le> j \<and> j < steps \<and> polls j)"
proof (induction ctx polls steps i rule: mock_steps.induct)
  case (1 ctx polls steps i)
  show ?case
  proof (cases "i < steps \<and> \<not> (ctx_cancel_token ctx \<noteq> None \<and> polls i)")
    case True
    with 1 have "snd (mock_steps ctx polls steps (Suc i)) \<longleftrightarrow>
        ctx_cancel_token ctx \<noteq> None \<and> (\<exists>j. Suc i \<le> j \<and> j < steps \<and> polls j)" by simp
    moreover have "snd (mock_steps ctx polls steps i) = snd (mock_steps ctx polls steps (Suc i))"
      using True by (subst mock_steps.simps) (auto split: prod.splits)
    ultimately show ?thesis using True by (metis Suc_leD le_antisym not_less_eq_eq)
  next
    case False
    then show ?thesis by (subst mock_steps.simps) auto
  qed
qed

lemma mock_steps_length:
  "ctx_on_progress ctx \<Longrightarrow> \<not> snd (mock_steps ctx polls steps i) \<Longrightarrow>
     length (fst (mock_steps ctx polls steps i)) = steps - i"
proof (induction ctx polls steps i rule: mock_steps.induct)
  case (1 ctx polls steps i)
  show ?case
  proof (cases "i < steps \<and> \<not> (ctx_cancel_token ctx \<noteq> None \<and> polls i)")
    case True
    have eq: "mock_steps ctx polls steps i =
        (f32_div (Suc i) steps # fst (mock_steps ctx polls steps (Suc i)),
         snd (mock_steps ctx polls steps (Suc i)))"
      using True 1(2) by (subst mock_steps.simps) (auto split: prod.splits)
    with 1 True have "length (fst (mock_steps ctx polls steps (Suc i))) = steps - Suc i" by simp
    with eq True show ?thesis by (simp add: Suc_diff_Suc)
  next
    case False
    with 1 show ?thesis by (subst mock_steps.simps) (auto simp: mock_steps_canceled)
  qed
qed

section \<open>Properties\<close>

text \<open>The mock stages honour cancellation and report sane progress. A stage is canceled exactly
  when it has a token and one of its polls sees the cancellation; then it leaves its outputs
  alone. Otherwise it succeeds and reports one value per step. Every report is within \<open>[0, 1]\<close>.\<close>

theorem mock_stage_spec:
  assumes "mock_execute stg = Some exec" and "exec polls ctx = (ctx', reports, r)"
    and "steps = (if stg = MockImageGenStage then 3 else 5)"
  shows "(r = Inl TaskError_Canceled \<longleftrightarrow> ctx_cancel_token ctx \<noteq> None \<and> (\<exists>j < steps. polls j)) \<and>
    (r = Inl TaskError_Canceled \<longrightarrow> ctx' = ctx) \<and> (r \<noteq> Inl TaskError_Canceled \<longrightarrow> r = Ok) \<and>
    (r = Ok \<and> ctx_on_progress ctx \<longrightarrow> length reports = steps) \<and> list_all unit_interval reports"
proof -
  obtain ps c where m: "mock_steps ctx polls steps 0 = (ps, c)" by fastforce
  have st: "stg = MockStoryboardStage \<or> stg = MockImageGenStage \<or> stg = MockComposeStage"
    using assms(1) by (cases stg) auto
  have res: "reports = ps \<and> r = (if c then Inl TaskError_Canceled else Ok) \<and> (c \<longrightarrow> ctx' = ctx)"
    using st assms m
    by (auto simp: mock_storyboard_execute_def mock_imagegen_execute_def mock_compose_execute_def Let_def
        split: if_splits)
  have cc: "c \<longleftrightarrow> ctx_cancel_token ctx \<noteq> None \<and> (\<exists>j < steps. polls j)"
    using mock_steps_canceled [of ctx polls steps 0] m by simp
  have "length ps = steps" if "ctx_on_progress ctx" "\<not> c"
    using mock_steps_length [of ctx polls steps 0] that m by simp
  moreover have "list_all unit_interval ps"
    using mock_steps_reports_unit [of _ ctx polls steps 0] m by (simp add: list_all_iff)
  ultimately show ?thesis using res cc by auto
qed

theorem mock_stage_spec_witness:
  "mock_imagegen_execute (\<lambda>i. i = 2) (new_context\<lparr>ctx_cancel_token := Some 0\<rparr>) =
     (new_context\<lparr>ctx_cancel_token := Some 0\<rparr>, [], Inl TaskError_Canceled)"
proof -
  let ?ctx = "new_context\<lparr>ctx_cancel_token := Some 0\<rparr>"
  obtain ctx' ps r where e: "mock_imagegen_execute (\<lambda>i. i = 2) ?ctx = (ctx', ps, r)" by (metis prod_cases3)
  have "ps = []"
    using e by (auto simp: mock_imagegen_execute_def mock_steps.simps new_context_def numeral_eq_Suc)
  moreover have "r = Inl TaskError_Canceled \<and> ctx' = ?ctx"
    using mock_stage_spec [of MockImageGenStage mock_imagegen_execute "\<lambda>i. i = 2" ?ctx ctx' ps r 3] e by simp
  ultimately show ?thesis using e by simp
qed

end
