(* ===== verification/Float_Text.thy ===== *)
theory Float_Text
  imports Pipeline
begin

text \<open>
  Numbers as text, as the standard library writes and reads them for the stages: a stream prints a
  \<open>float\<close> with six significant digits (\<open>%g\<close>), \<open>stoi\<close> and \<open>stof\<close> read the longest numeral at the
  start of a text that a pattern has already restricted to digits and points, and throw when
  there is none or its value is out of range. A float is read by rounding to 24 bits, ties to even.
\<close>

section \<open>Printing\<close>

function dec_up :: "nat \<Rightarrow> nat \<Rightarrow> nat \<Rightarrow> nat" where
  "dec_up n d k = (if n = 0 \<or> d \<le> n * 10 ^ k then k else dec_up n d (Suc k))"
  by pat_completeness auto
termination
proof (relation "measure (\<lambda>(n, d, k). d - n * 10 ^ k)", goal_cases)
  case 1
  show ?case by simp
next
  case (2 n d k)
  then have "n * 10 ^ k < n * 10 ^ Suc k" "n * 10 ^ k < d" by auto
  then have "d - n * 10 ^ Suc k < d - n * 10 ^ k" by (metis diff_less_mono2)
  then show ?case by simp
qed

declare dec_up.simps [simp del]

text \<open>The decimal exponent of \<open>n / d\<close>, and its six significant digits with the exponent after rounding.\<close>

definition dec_exp :: "nat \<Rightarrow> nat \<Rightarrow> int" where
  "dec_exp n d = (if d \<le> n then int (length (nat_to_string (n div d))) - 1 else - int (dec_up n d 0))"

definition six_digits :: "nat \<Rightarrow> nat \<Rightarrow> nat \<times> int" where
  "six_digits n d =
     (let x = dec_exp n d;
          m = (if x \<le> 5 then f32_round_div (n * 10 ^ nat (5 - x)) d
               else f32_round_div n (d * 10 ^ nat (x - 5)))
      in if m = 1000000 then (100000, x + 1) else (m, x))"

definition strip_zeros :: "string \<Rightarrow> string" where
  "strip_zeros s = rev (dropWhile (\<lambda>c. c = CHR ''0'') (rev s))"

definition fraction :: "string \<Rightarrow> string" where
  "fraction s = (let f = strip_zeros s in if f = [] then [] else CHR ''.'' # f)"

definition show_exponent :: "int \<Rightarrow> string" where
  "show_exponent x =
     (let ds = nat_to_string (nat \<bar>x\<bar>)
      in CHR ''e'' # (if x < 0 then CHR ''-'' else CHR ''+'') # (if length ds < 2 then CHR ''0'' # ds else ds))"

definition show_ratio :: "nat \<Rightarrow> nat \<Rightarrow> string" where
  "show_ratio n d =
     (case six_digits n d of
        (m, x) \<Rightarrow>
          (let ds = nat_to_string m
           in if x < -4 \<or> 6 \<le> x then hd ds # fraction (tl ds) @ show_exponent x
              else if 0 \<le> x then take (nat x + 1) ds @ fraction (drop (nat x + 1) ds)
              else ''0.'' @ replicate (nat (- x) - 1) CHR ''0'' @ strip_zeros ds))"

definition show_flt :: "flt \<Rightarrow> string" where
  "show_flt v =
     (case v of
        NaN \<Rightarrow> ''nan'' | PInf \<Rightarrow> ''inf'' | NInf \<Rightarrow> ''-inf''
      | Fin q \<Rightarrow>
          (case quotient_of q of
             (n, d) \<Rightarrow> if n = 0 then ''0''
                       else if n < 0 then CHR ''-'' # show_ratio (nat (- n)) (nat d)
                       else show_ratio (nat n) (nat d)))"

section \<open>Reading\<close>

datatype parse_exception = Invalid_argument | Out_of_range

function f32_down :: "nat \<Rightarrow> nat \<Rightarrow> nat \<Rightarrow> nat" where
  "f32_down n d g = (if d = 0 \<or> n < d * 2 ^ g * 2 ^ 24 then g else f32_down n d (Suc g))"
  by pat_completeness auto
termination
proof (relation "measure (\<lambda>(n, d, g). Suc n - d * 2 ^ g)", goal_cases)
  case 1
  show ?case by simp
next
  case (2 n d g)
  then have "d * 2 ^ g < d * 2 ^ Suc g" "d * 2 ^ g < Suc n" by auto
  then have "Suc n - d * 2 ^ Suc g < Suc n - d * 2 ^ g" by (metis diff_less_mono2)
  then show ?case by simp
qed

declare f32_down.simps [simp del]

text \<open>
  The nearest float of \<open>n / d\<close>. Values beyond the largest float, and those below the smallest
  normal one, are range errors.
\<close>

definition to_f32 :: "nat \<Rightarrow> nat \<Rightarrow> parse_exception + flt" where
  "to_f32 n d =
     (if n = 0 then Inr flt_zero
      else if d * 2 ^ 24 \<le> n
      then (let g = f32_down n d 0; m = f32_round_div n (d * 2 ^ g)
            in if 2 ^ 128 \<le> m * 2 ^ g then Inl Out_of_range else Inr (Fin (of_nat (m * 2 ^ g))))
      else (let e = f32_exp n d 0; m = f32_round_div (n * 2 ^ e) d
            in if 149 < e then Inl Out_of_range else Inr (Fin (of_nat m / 2 ^ e))))"

definition stof :: "string \<Rightarrow> parse_exception + flt" where
  "stof s =
     (let whole = takeWhile is_digit s;
          rest = dropWhile is_digit s;
          frac = (if rest \<noteq> [] \<and> hd rest = CHR ''.'' then takeWhile is_digit (tl rest) else [])
      in if whole = [] \<and> frac = [] then Inl Invalid_argument
         else to_f32 (digits_value (whole @ frac)) (10 ^ length frac))"

definition stoi :: "string \<Rightarrow> parse_exception + int" where
  "stoi s =
     (let ds = takeWhile is_digit s
      in if ds = [] then Inl Invalid_argument
         else if INT_MAX < int (digits_value ds) then Inl Out_of_range
         else Inr (int (digits_value ds)))"

section \<open>Whole numbers\<close>

lemma digit_char_0 [simp]: "digit_char 0 = CHR ''0''"
  by code_simp

lemma nat_to_string_times10: "0 < n \<Longrightarrow> nat_to_string (n * 10) = nat_to_string n @ ''0''"
  by (subst nat_to_string.simps) simp

lemma nat_to_string_pow10:
  "0 < n \<Longrightarrow> nat_to_string (n * 10 ^ k) = nat_to_string n @ replicate k CHR ''0''"
proof (induction k)
  case (Suc k)
  then have "nat_to_string (n * 10 ^ Suc k) = nat_to_string (n * 10 ^ k) @ ''0''"
    using nat_to_string_times10 [of "n * 10 ^ k"] by (simp add: mult.commute mult.left_commute)
  with Suc show ?case by (simp add: replicate_append_same)
qed simp

lemma nat_to_string_length: "n < 10 ^ k \<Longrightarrow> 0 < k \<Longrightarrow> length (nat_to_string n) \<le> k"
proof (induction n arbitrary: k rule: nat_to_string.induct)
  case (1 n)
  show ?case
  proof (cases "n < 10")
    case True
    with 1(3) show ?thesis by (subst nat_to_string.simps) simp
  next
    case False
    then obtain j where j: "k = Suc j" "0 < j" using 1(2,3) by (cases k; cases "k - 1") auto
    with 1(2) have "n div 10 < 10 ^ j" by (simp add: less_mult_imp_div_less mult.commute)
    with 1(1) [OF False] j False show ?thesis by (subst nat_to_string.simps) simp
  qed
qed

lemma f32_round_div_exact [simp]: "f32_round_div n (Suc 0) = n"
  by (simp add: f32_round_div_def)

lemma strip_replicate [simp]: "strip_zeros (replicate k CHR ''0'') = []"
  by (simp add: strip_zeros_def dropWhile_eq_Nil_conv)

lemma show_whole:
  assumes "0 < n" "n < 1000000"
  shows "show_ratio n (Suc 0) = nat_to_string n"
proof -
  let ?l = "length (nat_to_string n)"
  have l: "?l \<le> 6" "0 < ?l" using nat_to_string_length [of n 6] assms by simp_all
  have x: "dec_exp n (Suc 0) = int ?l - 1" using assms by (simp add: dec_exp_def)
  have k: "nat (5 - (int ?l - 1)) = 6 - ?l" using l by simp
  have m: "f32_round_div (n * 10 ^ (6 - ?l)) (Suc 0) = n * 10 ^ (6 - ?l)" by simp
  have s: "nat_to_string (n * 10 ^ (6 - ?l)) = nat_to_string n @ replicate (6 - ?l) CHR ''0''"
    using assms by (simp add: nat_to_string_pow10)
  have ne: "n * 10 ^ (6 - ?l) \<noteq> 1000000"
  proof
    assume "n * 10 ^ (6 - ?l) = 1000000"
    with s have "length (nat_to_string 1000000) = ?l + (6 - ?l)" by simp
    moreover have "length (nat_to_string (1 * 10 ^ 6)) = 7"
      by (subst nat_to_string_pow10) (simp_all add: nat_to_string.simps)
    ultimately show False using l by simp
  qed
  have "six_digits n (Suc 0) = (n * 10 ^ (6 - ?l), int ?l - 1)"
    using l m ne k by (simp add: six_digits_def x)
  moreover have "Suc (nat (int ?l - 1)) = ?l" using l(2) by linarith
  moreover have "\<not> int ?l - 1 < - 4" "\<not> 6 \<le> int ?l - 1" "0 \<le> int ?l - 1" using l by linarith+
  ultimately show ?thesis by (simp add: show_ratio_def s fraction_def)
qed

lemma to_f32_whole:
  assumes "n < 2 ^ 24"
  shows "to_f32 n (Suc 0) = Inr (Fin (of_nat n))"
proof (cases "n = 0")
  case False
  have step: "f32_exp n (Suc 0) e \<le> 24" if "e \<le> 24" for e
    using that
  proof (induction "24 - e" arbitrary: e)
    case 0
    then have "e = 24" by simp
    with False show ?case by (subst f32_exp.simps) auto
  next
    case (Suc j)
    then have "f32_exp n (Suc 0) (Suc e) \<le> 24" by (intro Suc.hyps(1)) auto
    with Suc.prems show ?case by (subst f32_exp.simps) simp
  qed
  have "f32_exp n (Suc 0) 0 \<le> 24" using step [of 0] by simp
  moreover have "f32_round_div (n * 2 ^ e) (Suc 0) = n * 2 ^ e" for e by simp
  ultimately show ?thesis using False assms by (simp add: to_f32_def Let_def)
qed (simp add: to_f32_def)

lemma takeWhile_all: "list_all P xs \<Longrightarrow> takeWhile P xs = xs \<and> dropWhile P xs = []"
  by (induction xs) auto

text \<open>A whole number below a million is read back from its text.\<close>

lemma stof_show_whole:
  assumes "n < 1000000"
  shows "show_flt (Fin (of_nat n)) = nat_to_string n \<and> stof (nat_to_string n) = Inr (Fin (of_nat n))"
proof
  have "quotient_of (of_nat n) = (int n, 1)"
    using quotient_of_int [of "int n"] by simp
  moreover have "nat_to_string 0 = ''0''" by (simp add: nat_to_string.simps)
  ultimately show "show_flt (Fin (of_nat n)) = nat_to_string n"
    using assms by (cases "n = 0") (simp_all add: show_flt_def show_whole)
  show "stof (nat_to_string n) = Inr (Fin (of_nat n))"
    using assms by (simp add: stof_def Let_def digits_value_nat_to_string to_f32_whole
        takeWhile_all [OF nat_to_string_digits, THEN conjunct1] takeWhile_all [OF nat_to_string_digits, THEN conjunct2])
qed

end
