(* ===== verification/Platform.thy ===== *)
theory Platform
  imports Float_Text
begin

text \<open>
  \<open>infra/config.h\<close>, \<open>platform/path_service_unix.cpp\<close>, \<open>token_storage.cpp\<close> and the fallback format of
  \<open>logger.cpp\<close>: where the application keeps its files, the settings it reads from the environment,
  and the stored tokens. The environment is a map, the home directory of the password database an
  argument, the file system a map from paths to contents in which writing succeeds. The model is
  the build for a Unix other than macOS.
\<close>

type_synonym environment = "string \<rightharpoonup> string"
type_synonym files = "string \<rightharpoonup> string"

datatype platform_error = No_home string | Bad_number parse_exception

text \<open>A variable that is set and not empty.\<close>

definition env_value :: "environment \<Rightarrow> string \<Rightarrow> string option" where
  "env_value env k = (case env k of None \<Rightarrow> None | Some v \<Rightarrow> if v = [] then None else Some v)"

text \<open>\<open>std::filesystem::path::operator/\<close> with a relative right side.\<close>

definition path_join :: "string \<Rightarrow> string \<Rightarrow> string" where
  "path_join a b = (if a = [] then b else if last a = CHR ''/'' then a @ b else a @ ''/'' @ b)"

section \<open>Integers in variables\<close>

text \<open>
  \<open>strtol\<close> in base ten: blanks, a sign, digits; the value, clamped to 64 bits, and what is left, or
  zero and the whole text if there is no number.
\<close>

definition is_blank :: "char \<Rightarrow> bool" where
  "is_blank c \<longleftrightarrow> c = CHR '' '' \<or> (9 \<le> (of_char c :: nat) \<and> (of_char c :: nat) \<le> 13)"

definition clamp_long :: "int \<Rightarrow> int" where
  "clamp_long v = max (- 9223372036854775808) (min 9223372036854775807 v)"

definition strtol10 :: "string \<Rightarrow> int \<times> string" where
  "strtol10 s =
     (let s1 = dropWhile is_blank s;
          neg = (s1 \<noteq> [] \<and> hd s1 = CHR ''-'');
          s2 = (if s1 \<noteq> [] \<and> (hd s1 = CHR ''-'' \<or> hd s1 = CHR ''+'') then tl s1 else s1);
          ds = takeWhile is_digit s2;
          v = int (digits_value ds)
      in if ds = [] then (0, s) else (clamp_long (if neg then - v else v), dropWhile is_digit s2))"

definition has_number :: "string \<Rightarrow> bool" where
  "has_number s =
     (let s1 = dropWhile is_blank s;
          s2 = (if s1 \<noteq> [] \<and> (hd s1 = CHR ''-'' \<or> hd s1 = CHR ''+'') then tl s1 else s1)
      in takeWhile is_digit s2 \<noteq> [])"

definition stoi_text :: "string \<Rightarrow> parse_exception + int" where
  "stoi_text s =
     (if \<not> has_number s then Inl Invalid_argument
      else let v = fst (strtol10 s)
           in if v < - INT_MAX - 1 \<or> INT_MAX < v then Inl Out_of_range else Inr v)"

section \<open>Directories\<close>

definition xdg_dir :: "environment \<Rightarrow> string \<Rightarrow> (string \<Rightarrow> string) \<Rightarrow> string" where
  "xdg_dir env var below_home =
     path_join (case env_value env var of
                  Some v \<Rightarrow> v
                | None \<Rightarrow> (case env_value env ''HOME'' of Some h \<Rightarrow> below_home h | None \<Rightarrow> ''/tmp''))
       ''stv-renew''"

definition get_config_dir :: "environment \<Rightarrow> string" where
  "get_config_dir env = xdg_dir env ''XDG_CONFIG_HOME'' (\<lambda>h. path_join h ''.config'')"

definition get_cache_dir :: "environment \<Rightarrow> string" where
  "get_cache_dir env = xdg_dir env ''XDG_CACHE_HOME'' (\<lambda>h. path_join h ''.cache'')"

definition get_data_dir :: "environment \<Rightarrow> string" where
  "get_data_dir env = xdg_dir env ''XDG_DATA_HOME'' (\<lambda>h. path_join (path_join h ''.local'') ''share'')"

definition get_output_dir :: "environment \<Rightarrow> string" where
  "get_output_dir env =
     (case env_value env ''STV_OUTPUT_DIR'' of
        Some v \<Rightarrow> v
      | None \<Rightarrow> path_join (get_data_dir env) ''outputs'')"

record app_config =
  api_base_url :: string
  output_dir :: string
  cfg_max_retries :: int
  initial_backoff_ms :: int
  max_backoff_ms :: int

definition app_config_from_environment :: "environment \<Rightarrow> platform_error + app_config" where
  "app_config_from_environment env =
     (let c = \<lparr>api_base_url = (case env_value env ''STV_API_BASE_URL'' of Some v \<Rightarrow> v
                  | None \<Rightarrow> ''http://127.0.0.1:8765''),
               output_dir = get_output_dir env, cfg_max_retries = 2, initial_backoff_ms = 500,
               max_backoff_ms = 5000\<rparr>
      in case env_value env ''STV_MAX_RETRIES'' of
           None \<Rightarrow> Inr c
         | Some v \<Rightarrow> (case stoi_text v of Inl ex \<Rightarrow> Inl (Bad_number ex)
                       | Inr n \<Rightarrow> Inr (c\<lparr>cfg_max_retries := n\<rparr>)))"

definition home_dir :: "environment \<Rightarrow> string option \<Rightarrow> platform_error + string" where
  "home_dir env pw =
     (case env_value env ''HOME'' of
        Some h \<Rightarrow> Inr h
      | None \<Rightarrow> (case pw of Some d \<Rightarrow> Inr d
                  | None \<Rightarrow> Inl (No_home ''Unable to resolve HOME directory'')))"

definition service_dir ::
  "environment \<Rightarrow> string option \<Rightarrow> string \<Rightarrow> string \<Rightarrow> platform_error + string" where
  "service_dir env pw var below_home =
     (case env_value env var of
        Some v \<Rightarrow> Inr (v @ ''/stv_renew'')
      | None \<Rightarrow> (case home_dir env pw of Inl e \<Rightarrow> Inl e | Inr h \<Rightarrow> Inr (h @ below_home)))"

definition config_dir :: "environment \<Rightarrow> string option \<Rightarrow> platform_error + string" where
  "config_dir env pw = service_dir env pw ''XDG_CONFIG_HOME'' ''/.config/stv_renew''"

definition cache_dir :: "environment \<Rightarrow> string option \<Rightarrow> platform_error + string" where
  "cache_dir env pw = service_dir env pw ''XDG_CACHE_HOME'' ''/.cache/stv_renew''"

definition data_dir :: "environment \<Rightarrow> string option \<Rightarrow> platform_error + string" where
  "data_dir env pw = service_dir env pw ''XDG_DATA_HOME'' ''/.local/share/stv_renew''"

definition download_dir :: "environment \<Rightarrow> string option \<Rightarrow> platform_error + string" where
  "download_dir env pw = (case home_dir env pw of Inl e \<Rightarrow> Inl e | Inr h \<Rightarrow> Inr (h @ ''/Downloads''))"

section \<open>Stored tokens\<close>

abbreviation newline :: char where "newline \<equiv> CHR 0x0A"

definition token_file_path :: "string \<Rightarrow> string" where
  "token_file_path cfg_dir = path_join cfg_dir ''tokens.txt''"

definition token_save :: "string \<Rightarrow> string \<Rightarrow> string \<Rightarrow> files \<Rightarrow> files" where
  "token_save cfg_dir access refresh fs =
     fs(token_file_path cfg_dir \<mapsto> access @ newline # refresh @ [newline])"

text \<open>\<open>std::getline\<close>: it fails only when nothing is left to read.\<close>

definition getline :: "string \<Rightarrow> (string \<times> string) option" where
  "getline s = (if s = [] then None
     else Some (takeWhile (\<lambda>c. c \<noteq> newline) s, drop 1 (dropWhile (\<lambda>c. c \<noteq> newline) s)))"

definition token_load :: "string \<Rightarrow> files \<Rightarrow> (string \<times> string) option" where
  "token_load cfg_dir fs =
     (case fs (token_file_path cfg_dir) of
        None \<Rightarrow> None
      | Some content \<Rightarrow>
          (case getline content of
             None \<Rightarrow> None
           | Some (access, rest) \<Rightarrow>
               (case getline rest of
                  None \<Rightarrow> None
                | Some (refresh, rest2) \<Rightarrow>
                    if access = [] \<or> refresh = [] then None else Some (access, refresh))))"

definition token_clear :: "string \<Rightarrow> files \<Rightarrow> files" where
  "token_clear cfg_dir fs = fs(token_file_path cfg_dir := None)"

section \<open>Log lines\<close>

datatype log_level = Info | Warn | Error_level

fun level_text :: "log_level \<Rightarrow> string" where
  "level_text Info = ''INFO''" | "level_text Warn = ''WARN''" | "level_text Error_level = ''ERROR''"

definition log_line :: "string \<Rightarrow> log_level \<Rightarrow> string \<Rightarrow> string \<Rightarrow> string \<Rightarrow> string \<Rightarrow> string" where
  "log_line stamp lvl trace component event msg =
     ''['' @ stamp @ ''] ['' @ level_text lvl @ ''] ['' @ trace @ ''] ['' @ component @ ''] '' @
     event @ '': '' @ msg @ [newline]"

section \<open>Facts\<close>

lemma takeWhile_newline:
  "newline \<notin> set a \<Longrightarrow> takeWhile (\<lambda>c. c \<noteq> newline) (a @ newline # r) = a"
  "newline \<notin> set a \<Longrightarrow> dropWhile (\<lambda>c. c \<noteq> newline) (a @ newline # r) = newline # r"
  by (induction a) auto

lemma digits_not_blank: "is_digit c \<Longrightarrow> \<not> is_blank c"
  by (auto simp: is_digit_def is_blank_def)

lemma sign_not_digit [simp]: "\<not> is_digit (CHR ''+'')"
  by (simp add: is_digit_def)

lemma strtol10_to_string:
  assumes "\<bar>v\<bar> \<le> 9223372036854775807"
  shows "strtol10 (to_string_int v) = (v, [])"
proof -
  let ?ds = "nat_to_string (nat \<bar>v\<bar>)"
  note d = takeWhile_all [OF nat_to_string_digits, THEN conjunct1]
    takeWhile_all [OF nat_to_string_digits, THEN conjunct2]
  have hd: "is_digit (hd ?ds)" by (rule nat_to_string_hd)
  then have h: "hd ?ds \<noteq> CHR ''-''" "hd ?ds \<noteq> CHR ''+''" "dropWhile is_blank ?ds = ?ds"
    using minus_not_digit sign_not_digit digits_not_blank by (metis, metis, cases ?ds) auto
  have m: "\<not> is_blank (CHR ''-'')" by (simp add: is_blank_def)
  show ?thesis
  proof (cases "v < 0")
    case True
    then have t: "to_string_int v = CHR ''-'' # ?ds" by (simp add: to_string_int_def)
    show ?thesis
      unfolding strtol10_def t using m assms True
      by (simp add: Let_def d digits_value_nat_to_string clamp_long_def)
  next
    case False
    then have t: "to_string_int v = ?ds" by (simp add: to_string_int_def)
    show ?thesis
      unfolding strtol10_def t using h assms False
      by (simp add: Let_def d digits_value_nat_to_string clamp_long_def)
  qed
qed

section \<open>Properties\<close>

text \<open>C38: Stored tokens come back. Tokens without a line break that are not empty are loaded as they
  were saved; with an empty one nothing is loaded; after \<open>clear\<close> nothing is; and no other file is
  touched.\<close>

theorem token_roundtrip:
  assumes "newline \<notin> set access" and "newline \<notin> set refresh"
  shows "token_load dir (token_save dir access refresh fs) =
      (if access = [] \<or> refresh = [] then None else Some (access, refresh)) \<and>
    token_load dir (token_clear dir (token_save dir access refresh fs)) = None \<and>
    (p \<noteq> token_file_path dir \<longrightarrow> token_save dir access refresh fs p = fs p \<and> token_clear dir fs p = fs p)"
  using assms takeWhile_newline
  by (auto simp: token_load_def token_save_def token_clear_def getline_def)

theorem token_roundtrip_witness:
  "token_load ''/c'' (token_save ''/c'' ''aa'' ''bb'' Map.empty) = Some (''aa'', ''bb'')"
  using token_roundtrip [of "''aa''" "''bb''" "''/c''" Map.empty] by simp

end
