(* ===== verification/Http_Client.thy ===== *)
theory Http_Client
  imports Cancel_Token
begin

text \<open>
  \<open>infra/include/infra/http_client.h\<close> and \<open>infra/src/http_client.cpp\<close>: requests and responses,
  the error codes and their translation to \<open>TaskError\<close> and back, the retry policy and the client
  that retries. The inner client is an argument: what it does to its own state and what it
  returns. The token is read at explicit points; an argument gives the answers of those reads.
\<close>

section \<open>Requests, responses, error codes\<close>

datatype http_method = GET | POST | PUT | DELETE

record http_request =
  req_method :: http_method
  req_url :: string
  req_id :: string
  req_headers :: "(string \<times> string) list"
  req_body :: string
  req_trace :: string
  req_timeout :: int

record http_response =
  status_code :: int
  resp_headers :: "(string \<times> string) list"
  resp_body :: string
  resp_id :: string
  elapsed_ms :: int

text \<open>An \<open>enum class\<close> holds any \<open>int\<close> after a cast: \<open>Other_code\<close> is a value without a name.\<close>

datatype http_error_code =
    NETWORK_ERROR | TIMEOUT | CANCELED | SERVER_ERROR | CLIENT_ERROR | RATE_LIMIT | PARSE_ERROR
  | UNKNOWN | Other_code int

fun code_int :: "http_error_code \<Rightarrow> int" where
  "code_int NETWORK_ERROR = 1001" | "code_int TIMEOUT = 1002" | "code_int CANCELED = 1003"
| "code_int SERVER_ERROR = 1004" | "code_int CLIENT_ERROR = 1005" | "code_int RATE_LIMIT = 1006"
| "code_int PARSE_ERROR = 1007" | "code_int UNKNOWN = 1999" | "code_int (Other_code n) = n"

definition code_of_int :: "int \<Rightarrow> http_error_code" where
  "code_of_int n = (if n = 1001 then NETWORK_ERROR else if n = 1002 then TIMEOUT
     else if n = 1003 then CANCELED else if n = 1004 then SERVER_ERROR
     else if n = 1005 then CLIENT_ERROR else if n = 1006 then RATE_LIMIT
     else if n = 1007 then PARSE_ERROR else if n = 1999 then UNKNOWN else Other_code n)"

fun code_category :: "http_error_code \<Rightarrow> error_category" where
  "code_category NETWORK_ERROR = Cat_Network"
| "code_category TIMEOUT = Cat_Timeout"
| "code_category CANCELED = Cat_Canceled"
| "code_category SERVER_ERROR = Cat_Network"
| "code_category RATE_LIMIT = Cat_Network"
| "code_category CLIENT_ERROR = Cat_Pipeline"
| "code_category PARSE_ERROR = Cat_Pipeline"
| "code_category UNKNOWN = Cat_Unknown"
| "code_category (Other_code n) = Cat_Unknown"

definition make_http_error :: "http_error_code \<Rightarrow> string \<Rightarrow> string \<Rightarrow> bool \<Rightarrow> task_error" where
  "make_http_error c user_msg internal_msg retry =
     TaskError6 (code_category c) (code_int c) retry user_msg internal_msg
       [''http_error_code'' \<mapsto> to_string_int (code_int c)]"

text \<open>
  \<open>std::from_chars\<close> for an \<open>int\<close> with the test that it consumed everything: an optional minus,
  digits to the end, a value in range. Anything else is an error or stops early.
\<close>

definition int_in_range :: "int \<Rightarrow> bool" where
  "int_in_range n \<longleftrightarrow> - INT_MAX - 1 \<le> n \<and> n \<le> INT_MAX"

definition from_chars_all :: "string \<Rightarrow> int option" where
  "from_chars_all s =
     (let neg = (s \<noteq> [] \<and> hd s = CHR ''-'');
          ds = (if neg then tl s else s);
          v = (if neg then - int (digits_value ds) else int (digits_value ds))
      in if ds \<noteq> [] \<and> list_all is_digit ds \<and> int_in_range v then Some v else None)"

definition parse_http_error_code :: "task_error \<Rightarrow> http_error_code" where
  "parse_http_error_code e =
     (case details e ''http_error_code'' of
        None \<Rightarrow> UNKNOWN
      | Some v \<Rightarrow> (case from_chars_all v of None \<Rightarrow> UNKNOWN | Some n \<Rightarrow> code_of_int n))"

section \<open>The retrying client\<close>

text \<open>
  Durations are milliseconds. The multiplier is a double; its product with a duration, exact as
  long as it fits the significand, is truncated to whole milliseconds.
\<close>

record retry_policy =
  max_retries :: int
  initial_backoff :: int
  backoff_multiplier :: rat
  max_backoff :: int
  sleep_slice :: int

definition default_policy :: retry_policy where
  "default_policy = \<lparr>max_retries = 3, initial_backoff = 1000, backoff_multiplier = 2,
     max_backoff = 30000, sleep_slice = 100\<rparr>"

definition should_retry :: "http_error_code \<Rightarrow> bool" where
  "should_retry c \<longleftrightarrow> c = NETWORK_ERROR \<or> c = TIMEOUT \<or> c = SERVER_ERROR \<or> c = RATE_LIMIT"

definition trunc_rat :: "rat \<Rightarrow> int" where
  "trunc_rat q = (if q < 0 then \<lceil>q\<rceil> else \<lfloor>q\<rfloor>)"

definition next_backoff :: "retry_policy \<Rightarrow> int \<Rightarrow> int" where
  "next_backoff p b = min (trunc_rat (of_int b * backoff_multiplier p)) (max_backoff p)"

type_synonym http_result = "task_error + http_response"

text \<open>What the loop reads of the token: before attempt \<open>n\<close>, and in the backoff after it.\<close>

record token_reads =
  before_attempt :: "int \<Rightarrow> bool"
  in_backoff :: "int \<Rightarrow> bool list"

definition with_detail :: "string \<Rightarrow> string \<Rightarrow> task_error \<Rightarrow> task_error" where
  "with_detail k v e = e\<lparr>details := (details e)(k \<mapsto> v)\<rparr>"

definition retry_abort :: "http_error_code \<Rightarrow> string \<Rightarrow> string \<Rightarrow> int \<Rightarrow> http_request \<Rightarrow> task_error" where
  "retry_abort c user_msg internal_msg n req =
     with_detail ''request_id'' (req_id req)
       (with_detail ''retry_count'' (to_string_int n) (make_http_error c user_msg internal_msg False))"

definition annotate :: "int \<Rightarrow> http_request \<Rightarrow> task_error \<Rightarrow> task_error" where
  "annotate n req e =
     (let e1 = with_detail ''retry_count'' (to_string_int n) e
      in if req_id req \<noteq> [] then with_detail ''request_id'' (req_id req) e1 else e1)"

text \<open>The log line of a scheduled retry: its number, the bound and the backoff.\<close>

datatype retry_log = Retry_scheduled int int int

text \<open>
  One round of the loop at retry count \<open>n\<close>: it returns, or goes on after a backoff.
\<close>

type_synonym 'c inner_client = "'c \<Rightarrow> http_request \<Rightarrow> 'c \<times> http_result"

function retry_loop ::
  "retry_policy \<Rightarrow> 'c inner_client option \<Rightarrow> token_reads \<Rightarrow> http_request \<Rightarrow> int \<Rightarrow> int \<Rightarrow> 'c \<Rightarrow>
   'c \<times> retry_log list \<times> http_result" where
  "retry_loop p inner rd req n backoff c =
     (if before_attempt rd n
      then (c, [], Inl (retry_abort CANCELED ''Request canceled.''
                          ''Cancellation requested before HTTP call'' n req))
      else (case inner of
              None \<Rightarrow> (c, [], Inl (retry_abort UNKNOWN ''Request failed.''
                                ''RetryableHttpClient has null inner client'' n req))
            | Some exec \<Rightarrow>
                (case exec c req of
                   (c1, Inr resp) \<Rightarrow> (c1, [], Inr resp)
                 | (c1, Inl e) \<Rightarrow>
                     if \<not> should_retry (parse_http_error_code e) \<or> \<not> n < max_retries p
                     then (c1, [], Inl (annotate n req e))
                     else if list_ex (\<lambda>b. b) (in_backoff rd n)
                     then (c1, [Retry_scheduled (n + 1) (max_retries p) backoff],
                           Inl (retry_abort CANCELED ''Request canceled.''
                                  ''Cancellation requested during retry backoff'' n req))
                     else (case retry_loop p inner rd req (n + 1) (next_backoff p backoff) c1 of
                             (c2, logs, r) \<Rightarrow>
                               (c2, Retry_scheduled (n + 1) (max_retries p) backoff # logs, r)))))"
  by pat_completeness auto
termination
  by (relation "measure (\<lambda>(p, inner, rd, req, n, backoff, c). nat (max_retries p - n))") auto

declare retry_loop.simps [simp del]

definition retry_execute ::
  "retry_policy \<Rightarrow> 'c inner_client option \<Rightarrow> token_reads \<Rightarrow> http_request \<Rightarrow> 'c \<Rightarrow>
   'c \<times> retry_log list \<times> http_result" where
  "retry_execute p inner rd req c = retry_loop p inner rd req 0 (initial_backoff p) c"

definition retry_cancel :: "('c \<Rightarrow> string \<Rightarrow> 'c \<times> bool) option \<Rightarrow> 'c \<Rightarrow> string \<Rightarrow> 'c \<times> bool" where
  "retry_cancel cancel_op c i = (case cancel_op of None \<Rightarrow> (c, False) | Some f \<Rightarrow> f c i)"

text \<open>\<open>get\<close> and \<open>post\<close> of the interface.\<close>

definition http_get :: "(http_request \<Rightarrow> 'r) \<Rightarrow> http_request \<Rightarrow> 'r" where
  "http_get exec req = exec (req\<lparr>req_method := GET\<rparr>)"

definition http_post :: "(http_request \<Rightarrow> 'r) \<Rightarrow> http_request \<Rightarrow> 'r" where
  "http_post exec req = exec (req\<lparr>req_method := POST\<rparr>)"

section \<open>Codes and decimal text\<close>

lemma code_of_int_code [simp]:
  "(\<forall>n. c \<noteq> Other_code n) \<Longrightarrow> code_of_int (code_int c) = c"
  by (cases c) (simp_all add: code_of_int_def)

lemma from_chars_all_to_string:
  assumes "int_in_range n"
  shows "from_chars_all (to_string_int n) = Some n"
proof (cases "n < 0")
  case True
  with assms show ?thesis
    by (simp add: from_chars_all_def to_string_int_def nat_to_string_digits digits_value_nat_to_string)
next
  case False
  have "hd (nat_to_string (nat n)) \<noteq> CHR ''-''"
    using nat_to_string_hd [of "nat n"] minus_not_digit by metis
  with False assms show ?thesis
    by (simp add: from_chars_all_def to_string_int_def nat_to_string_digits digits_value_nat_to_string)
qed

lemma code_int_range: "(\<forall>n. c \<noteq> Other_code n) \<Longrightarrow> int_in_range (code_int c)"
  by (cases c) (simp_all add: int_in_range_def INT_MAX_def)

lemma parse_make:
  assumes "\<forall>n. c \<noteq> Other_code n"
  shows "parse_http_error_code (make_http_error c u m r) = c"
  using from_chars_all_to_string [OF code_int_range [OF assms]] assms
  by (simp add: parse_http_error_code_def make_http_error_def TaskError6_def)

lemma parse_with_detail [simp]:
  "k \<noteq> ''http_error_code'' \<Longrightarrow> parse_http_error_code (with_detail k v e) = parse_http_error_code e"
  by (simp add: parse_http_error_code_def with_detail_def)

lemma parse_annotate [simp]: "parse_http_error_code (annotate n req e) = parse_http_error_code e"
  by (simp add: annotate_def Let_def)

lemma should_retry_category: "(\<forall>n. c \<noteq> Other_code n) \<Longrightarrow>
    should_retry c \<longleftrightarrow> code_category c = Cat_Network \<or> code_category c = Cat_Timeout"
  by (cases c) (simp_all add: should_retry_def)

section \<open>The loop round by round\<close>

text \<open>A scripted inner client: its state counts the calls, the \<open>k\<close>-th call returns \<open>rs k\<close>.\<close>

definition scripted :: "(nat \<Rightarrow> http_result) \<Rightarrow> nat inner_client" where
  "scripted rs k req = (Suc k, rs k)"

definition retries :: "retry_policy \<Rightarrow> http_result \<Rightarrow> bool" where
  "retries p r = (case r of Inl e \<Rightarrow> should_retry (parse_http_error_code e) | Inr resp \<Rightarrow> False)"

definition final_result :: "int \<Rightarrow> http_request \<Rightarrow> http_result \<Rightarrow> http_result" where
  "final_result n req r = (case r of Inl e \<Rightarrow> Inl (annotate n req e) | Inr resp \<Rightarrow> Inr resp)"

definition backoff_of :: "retry_policy \<Rightarrow> nat \<Rightarrow> int" where
  "backoff_of p k = (next_backoff p ^^ k) (initial_backoff p)"

lemma retry_stop:
  assumes "\<not> before_attempt rd n" "exec c req = (c1, r1)" "\<not> retries p r1 \<or> \<not> n < max_retries p"
  shows "retry_loop p (Some exec) rd req n b c = (c1, [], final_result n req r1)"
  using assms by (subst retry_loop.simps) (auto simp: retries_def final_result_def split: sum.splits)

lemma retry_again:
  assumes "\<not> before_attempt rd n" "exec c req = (c1, r1)" "retries p r1" "n < max_retries p"
    and "True \<notin> set (in_backoff rd n)"
    and "retry_loop p (Some exec) rd req (n + 1) (next_backoff p b) c1 = (c2, logs, r)"
  shows "retry_loop p (Some exec) rd req n b c =
    (c2, Retry_scheduled (n + 1) (max_retries p) b # logs, r)"
proof -
  from assms(3) obtain e where "r1 = Inl e" "should_retry (parse_http_error_code e)"
    by (auto simp: retries_def split: sum.splits)
  moreover have "\<not> list_ex (\<lambda>b. b) (in_backoff rd n)" using assms(5) by (auto simp: list_ex_iff)
  ultimately show ?thesis using assms(1,2,4,6) by (subst retry_loop.simps) simp
qed

lemma retry_interrupted:
  assumes "\<not> before_attempt rd n" "exec c req = (c1, r1)" "retries p r1" "n < max_retries p"
    and "True \<in> set (in_backoff rd n)"
  shows "retry_loop p (Some exec) rd req n b c =
    (c1, [Retry_scheduled (n + 1) (max_retries p) b],
     Inl (retry_abort CANCELED ''Request canceled.'' ''Cancellation requested during retry backoff'' n req))"
proof -
  from assms(3) obtain e where "r1 = Inl e" "should_retry (parse_http_error_code e)"
    by (auto simp: retries_def split: sum.splits)
  moreover have "list_ex (\<lambda>b. b) (in_backoff rd n)" using assms(5) by (auto simp: list_ex_iff)
  ultimately show ?thesis using assms(1,2,4) by (subst retry_loop.simps) simp
qed

lemma retry_precanceled:
  "before_attempt rd n \<Longrightarrow> retry_loop p inner rd req n b c =
     (c, [], Inl (retry_abort CANCELED ''Request canceled.'' ''Cancellation requested before HTTP call'' n req))"
  by (subst retry_loop.simps) simp

lemma retry_loop_cases:
  assumes "retry_loop p (Some exec) rd req n b c = (c', logs, r)"
  obtains (canceled) "before_attempt rd n" "c' = c" "logs = []"
      "r = Inl (retry_abort CANCELED ''Request canceled.'' ''Cancellation requested before HTTP call'' n req)"
  | (stop) c1 r1 where "\<not> before_attempt rd n" "exec c req = (c1, r1)" "c' = c1" "logs = []"
      "r = final_result n req r1"
  | (interrupted) c1 r1 where "\<not> before_attempt rd n" "exec c req = (c1, r1)" "n < max_retries p" "c' = c1"
      "logs = [Retry_scheduled (n + 1) (max_retries p) b]"
      "r = Inl (retry_abort CANCELED ''Request canceled.'' ''Cancellation requested during retry backoff'' n req)"
  | (again) c1 r1 logs1 where "\<not> before_attempt rd n" "exec c req = (c1, r1)" "n < max_retries p"
      "retry_loop p (Some exec) rd req (n + 1) (next_backoff p b) c1 = (c', logs1, r)"
      "logs = Retry_scheduled (n + 1) (max_retries p) b # logs1"
proof -
  obtain c1 r1 where e: "exec c req = (c1, r1)" by fastforce
  consider "before_attempt rd n" | "\<not> before_attempt rd n" "\<not> retries p r1 \<or> \<not> n < max_retries p"
    | "\<not> before_attempt rd n" "retries p r1" "n < max_retries p" "True \<in> set (in_backoff rd n)"
    | "\<not> before_attempt rd n" "retries p r1" "n < max_retries p" "True \<notin> set (in_backoff rd n)" by blast
  then show ?thesis
  proof cases
    case 1
    with assms show ?thesis by (intro canceled) (auto simp: retry_precanceled)
  next
    case 2
    with assms e show ?thesis by (intro stop [of c1 r1]) (auto simp: retry_stop)
  next
    case 3
    with assms e show ?thesis by (intro interrupted [of c1 r1]) (auto simp: retry_interrupted)
  next
    case 4
    obtain c2 logs1 r2 where l: "retry_loop p (Some exec) rd req (n + 1) (next_backoff p b) c1 = (c2, logs1, r2)"
      by (metis prod_cases3)
    from retry_again [OF 4(1) e 4(2,3,4) l] assms have
      "c2 = c'" "r2 = r" "logs = Retry_scheduled (n + 1) (max_retries p) b # logs1" by simp_all
    with 4 e l show ?thesis by (intro again [of c1 r1 logs1]) simp_all
  qed
qed

lemma retry_loop_counts:
  assumes "retry_loop p (Some (scripted rs)) rd req n b k = (k', logs, r)"
  shows "k + length logs \<le> k' \<and> k' \<le> k + length logs + 1 \<and> length logs \<le> nat (max_retries p - n) \<and>
    logs = map (\<lambda>j. Retry_scheduled (n + int j + 1) (max_retries p) ((next_backoff p ^^ j) b)) [0..<length logs]"
  using assms
proof (induction "nat (max_retries p - n)" arbitrary: n b k logs)
  case (0 n b k logs)
  from 0(2) show ?case
    by (cases rule: retry_loop_cases) (use 0(1) in \<open>auto simp: scripted_def\<close>)
next
  case (Suc m)
  from Suc.prems show ?case
  proof (cases rule: retry_loop_cases)
    case (again c1 r1 logs1)
    have c1: "c1 = Suc k" using again(2) by (simp add: scripted_def)
    have "m = nat (max_retries p - (n + 1))" using Suc.hyps(2) by simp
    from Suc.hyps(1) [OF this again(4)] have ih: "c1 + length logs1 \<le> k' \<and> k' \<le> c1 + length logs1 + 1 \<and>
      length logs1 \<le> nat (max_retries p - (n + 1))"
      and l1: "logs1 = map (\<lambda>j. Retry_scheduled (n + 1 + int j + 1) (max_retries p)
        ((next_backoff p ^^ j) (next_backoff p b))) [0..<length logs1]" by blast+
    have "map (\<lambda>j. Retry_scheduled (n + int j + 1) (max_retries p) ((next_backoff p ^^ j) b)) [0..<Suc (length logs1)]
      = Retry_scheduled (n + 1) (max_retries p) b #
        map (\<lambda>j. Retry_scheduled (n + 1 + int j + 1) (max_retries p) ((next_backoff p ^^ j) (next_backoff p b)))
          [0..<length logs1]"
      by (simp add: upt_conv_Cons map_Suc_upt [symmetric] funpow_swap1 o_def add.commute add.left_commute
          del: upt_Suc)
    with l1 again(5) have "logs = map (\<lambda>j. Retry_scheduled (n + int j + 1) (max_retries p)
        ((next_backoff p ^^ j) b)) [0..<length logs]" by simp
    moreover have "k + length logs \<le> k' \<and> k' \<le> k + length logs + 1 \<and> length logs \<le> nat (max_retries p - n)"
      using ih again(3,5) c1 by auto
    ultimately show ?thesis by blast
  qed (auto simp: scripted_def)
qed

lemma retry_loop_final:
  assumes "0 \<le> n" and "\<And>j. n \<le> j \<Longrightarrow> j \<le> n + int m \<Longrightarrow> \<not> before_attempt rd j"
    and "\<And>j. n \<le> j \<Longrightarrow> j < n + int m \<Longrightarrow> True \<notin> set (in_backoff rd j)"
    and "\<And>j. j < m \<Longrightarrow> retries p (rs (k + j))" and "n + int m \<le> max 0 (max_retries p)"
    and "\<not> retries p (rs (k + m)) \<or> n + int m = max 0 (max_retries p)"
  shows "\<exists>logs. retry_loop p (Some (scripted rs)) rd req n b k =
    (k + m + 1, logs, final_result (n + int m) req (rs (k + m))) \<and> length logs = m"
  using assms
proof (induction m arbitrary: n b k)
  case 0
  have "retry_loop p (Some (scripted rs)) rd req n b k = (Suc k, [], final_result n req (rs k))"
    using 0 by (intro retry_stop) (auto simp: scripted_def)
  then show ?case by simp
next
  case (Suc m)
  have "\<exists>logs. retry_loop p (Some (scripted rs)) rd req (n + 1) (next_backoff p b) (Suc k) =
      (Suc k + m + 1, logs, final_result (n + 1 + int m) req (rs (Suc k + m))) \<and> length logs = m"
  proof (rule Suc.IH)
    show "retries p (rs (Suc k + j))" if "j < m" for j using Suc.prems(4) [of "Suc j"] that by simp
  qed (use Suc.prems in auto)
  then obtain logs where l: "retry_loop p (Some (scripted rs)) rd req (n + 1) (next_backoff p b) (Suc k) =
      (Suc k + m + 1, logs, final_result (n + 1 + int m) req (rs (Suc k + m)))" "length logs = m" by blast
  have "retry_loop p (Some (scripted rs)) rd req n b k =
      (Suc k + m + 1, Retry_scheduled (n + 1) (max_retries p) b # logs,
       final_result (n + 1 + int m) req (rs (Suc k + m)))"
    by (rule retry_again [OF _ _ _ _ _ l(1)])
       (use Suc.prems(1) Suc.prems(2) [of n] Suc.prems(3) [of n] Suc.prems(4) [of 0] Suc.prems(5) in
         \<open>auto simp: scripted_def max_def split: if_splits\<close>)
  with l(2) show ?case by (simp add: add.commute add.left_commute)
qed

lemma backoff_doubling:
  assumes "0 \<le> initial_backoff p" "initial_backoff p \<le> max_backoff p" "backoff_multiplier p = 2"
  shows "backoff_of p k = min (initial_backoff p * 2 ^ k) (max_backoff p)"
proof (induction k)
  case 0
  with assms show ?case by (simp add: backoff_of_def)
next
  case (Suc k)
  have "trunc_rat (of_int x * 2) = x * 2" for x
  proof -
    have "(of_int x * 2 :: rat) = of_int (x * 2)" by simp
    then show ?thesis by (simp only: trunc_rat_def floor_of_int ceiling_of_int if_cancel)
  qed
  then have "backoff_of p (Suc k) = min (backoff_of p k * 2) (max_backoff p)"
    by (simp add: backoff_of_def next_backoff_def assms(3))
  with Suc assms(1,2) show ?case by (auto simp: min_def)
qed

section \<open>Properties\<close>

text \<open>Error codes survive the translation. Every named code is read back from the error made of
  it, also after the retry details were added; and it is retried exactly when the error is of the
  network or the timeout category.\<close>

theorem http_code_roundtrip:
  assumes "\<forall>n. c \<noteq> Other_code n"
  shows "parse_http_error_code (annotate k req (make_http_error c u m retry)) = c \<and>
    (should_retry c \<longleftrightarrow> category (make_http_error c u m retry) \<in> {Cat_Network, Cat_Timeout})"
  using assms parse_make [OF assms, of u m retry] should_retry_category [OF assms]
  by (simp add: make_http_error_def TaskError6_def)

definition demo_request :: http_request where
  "demo_request = \<lparr>req_method = POST, req_url = ''u'', req_id = ''r1'', req_headers = [], req_body = [],
     req_trace = ''t'', req_timeout = 30000\<rparr>"

theorem http_code_roundtrip_witness:
  "parse_http_error_code (annotate 2 demo_request (make_http_error RATE_LIMIT ''u'' ''m'' True)) = RATE_LIMIT"
  using http_code_roundtrip [of RATE_LIMIT 2 demo_request "''u''" "''m''" True] by simp

text \<open>C29: The number of calls is bounded. Whatever the inner client returns and whenever the token is
  canceled, it is called at most once more than \<open>max_retries\<close>; the scheduled retries are numbered
  from one, and the backoffs start at the initial one and follow the policy.\<close>

theorem retry_bounded:
  assumes "retry_execute p (Some (scripted rs)) rd req 0 = (calls, logs, r)"
  shows "length logs \<le> nat (max_retries p) \<and> length logs \<le> calls \<and> calls \<le> length logs + 1 \<and>
    logs = map (\<lambda>j. Retry_scheduled (int j + 1) (max_retries p) (backoff_of p j)) [0..<length logs]"
  using retry_loop_counts [OF assms [unfolded retry_execute_def]] by (simp add: backoff_of_def)

definition server_down :: "nat \<Rightarrow> http_result" where
  "server_down k = Inl (make_http_error SERVER_ERROR ''u'' ''m'' True)"

definition no_cancel :: token_reads where
  "no_cancel = \<lparr>before_attempt = (\<lambda>_. False), in_backoff = (\<lambda>_. [False, False])\<rparr>"

theorem retry_bounded_witness:
  "fst (retry_execute default_policy (Some (scripted server_down)) no_cancel demo_request 0) \<le> 4"
proof -
  obtain calls logs r where e: "retry_execute default_policy (Some (scripted server_down)) no_cancel
      demo_request 0 = (calls, logs, r)" by (metis prod_cases3)
  from retry_bounded [OF e] e show ?thesis by (simp add: default_policy_def)
qed

text \<open>Without cancellation the result is that of the first attempt that succeeds, fails with a code
  that is not retried, or is the last one allowed; an error carries the number of retries made.\<close>

theorem retry_first_final:
  assumes "\<forall>n. \<not> before_attempt rd n \<and> True \<notin> set (in_backoff rd n)"
    and "int m \<le> max 0 (max_retries p)" and "\<forall>j < m. retries p (rs j)"
    and "\<not> retries p (rs m) \<or> int m = max 0 (max_retries p)"
  shows "(case retry_execute p (Some (scripted rs)) rd req 0 of (calls, logs, r) \<Rightarrow>
    calls = m + 1 \<and> length logs = m \<and>
    r = (case rs m of Inr resp \<Rightarrow> Inr resp | Inl e \<Rightarrow> Inl (annotate (int m) req e)))"
  using retry_loop_final [of 0 m rd p rs 0 req "initial_backoff p"] assms
  by (auto simp: retry_execute_def final_result_def)

definition flaky :: "nat \<Rightarrow> http_result" where
  "flaky k = (if k < 2 then server_down k else Inr \<lparr>status_code = 200, resp_headers = [],
     resp_body = ''ok'', resp_id = ''r'', elapsed_ms = 5\<rparr>)"

lemma retries_Inr [simp]: "\<not> retries p (Inr resp)"
  by (simp add: retries_def)

lemma retries_server_down: "retries p (server_down k)"
  by (simp add: retries_def server_down_def parse_make should_retry_def)

theorem retry_first_final_witness:
  "snd (snd (retry_execute default_policy (Some (scripted flaky)) no_cancel demo_request 0)) = flaky 2"
proof -
  have "case retry_execute default_policy (Some (scripted flaky)) no_cancel demo_request 0 of (calls, logs, r) \<Rightarrow>
      calls = 2 + 1 \<and> length logs = 2 \<and>
      r = (case flaky 2 of Inr resp \<Rightarrow> Inr resp | Inl e \<Rightarrow> Inl (annotate (int 2) demo_request e))"
    by (rule retry_first_final)
       (auto simp: no_cancel_def default_policy_def flaky_def retries_server_down)
  then show ?thesis by (auto simp: flaky_def)
qed

text \<open>C30: Cancellation stops the retries at once. Seen before an attempt it prevents the call; seen in
  a backoff it prevents the next one; either way the result is a canceled error that no layer
  above retries.\<close>

theorem retry_cancel_stops:
  assumes "(before_attempt rd n \<and> c1 = c) \<or> (\<not> before_attempt rd n \<and> exec c req = (c1, res) \<and> retries p res \<and>
      n < max_retries p \<and> True \<in> set (in_backoff rd n))"
  shows "\<exists>logs e. retry_loop p (Some exec) rd req n b c = (c1, logs, Inl e) \<and> category e = Cat_Canceled \<and>
    \<not> should_retry (parse_http_error_code e)"
proof -
  have c: "category (retry_abort CANCELED u m n req) = Cat_Canceled \<and>
      \<not> should_retry (parse_http_error_code (retry_abort CANCELED u m n req))" for u m
    by (simp add: retry_abort_def parse_make should_retry_def)
       (simp add: with_detail_def make_http_error_def TaskError6_def)
  from assms show ?thesis
  proof
    assume "before_attempt rd n \<and> c1 = c"
    with c show ?thesis by (auto simp: retry_precanceled)
  next
    assume "\<not> before_attempt rd n \<and> exec c req = (c1, res) \<and> retries p res \<and>
      n < max_retries p \<and> True \<in> set (in_backoff rd n)"
    with c show ?thesis using retry_interrupted [of rd n exec c req c1 res p b] by auto
  qed
qed

theorem retry_cancel_stops_witness:
  "fst (retry_loop default_policy (Some (scripted server_down))
     \<lparr>before_attempt = (\<lambda>_. False), in_backoff = (\<lambda>_. [False, True])\<rparr> demo_request 0 1000 0) = 1"
proof -
  let ?rd = "\<lparr>before_attempt = (\<lambda>_. False), in_backoff = (\<lambda>_. [False, True])\<rparr>"
  have "\<exists>logs e. retry_loop default_policy (Some (scripted server_down)) ?rd demo_request 0 1000 0 = (1, logs, Inl e) \<and>
      category e = Cat_Canceled \<and> \<not> should_retry (parse_http_error_code e)"
    by (rule retry_cancel_stops [where res = "server_down 0"])
       (simp add: scripted_def retries_server_down default_policy_def)
  then show ?thesis by auto
qed

text \<open>Backoffs double up to the cap, when the multiplier is two and the first one is below the
  cap; the code applies the cap only from the second backoff on.\<close>

theorem backoff_closed_form:
  assumes "0 \<le> initial_backoff p" and "backoff_multiplier p = 2"
  shows "(initial_backoff p \<le> max_backoff p \<longrightarrow>
      backoff_of p k = min (initial_backoff p * 2 ^ k) (max_backoff p)) \<and>
    backoff_of p 0 = initial_backoff p \<and> backoff_of p (Suc k) \<le> max_backoff p"
  using backoff_doubling [OF assms(1) _ assms(2)] by (simp add: backoff_of_def next_backoff_def)

theorem backoff_closed_form_witness: "backoff_of default_policy 2 = 4000 \<and> backoff_of default_policy 5 = 30000"
  using backoff_closed_form [of default_policy 2] backoff_closed_form [of default_policy 5]
  by (simp add: default_policy_def)

end
