(* ===== verification/Selection.thy ===== *)
theory Selection
  imports Prelude
begin

text \<open>
  Both schedulers choose a task by one pass over their candidates, keeping the best one so far and
  replacing it only by a strictly better one. This theory proves once what such a pass computes:
  for a strict weak order the first of the best candidates, and a result that does not depend on
  the order of the pass when the order is total on the candidates.
\<close>

fun fold_best :: "('a \<Rightarrow> 'a \<Rightarrow> bool) \<Rightarrow> 'a option \<Rightarrow> 'a list \<Rightarrow> 'a option" where
  "fold_best better best [] = best"
| "fold_best better best (x # xs) =
     (case best of
        None \<Rightarrow> fold_best better (Some x) xs
      | Some b \<Rightarrow> if better x b then fold_best better (Some x) xs else fold_best better best xs)"

lemma fold_best_Some_ex: "\<exists>b. fold_best better (Some a) xs = Some b"
  by (induction xs arbitrary: a) auto

lemma fold_best_None_iff [simp]: "fold_best better None xs = None \<longleftrightarrow> xs = []"
  using fold_best_Some_ex [of better "hd xs" "tl xs"] by (cases xs) auto

locale strict_weak =
  fixes better :: "'a \<Rightarrow> 'a \<Rightarrow> bool"
  assumes asym: "better a b \<Longrightarrow> \<not> better b a"
    and neg_trans: "\<not> better a b \<Longrightarrow> \<not> better b c \<Longrightarrow> \<not> better a c"
begin

lemma better_trans_weak: "better a b \<Longrightarrow> \<not> better c b \<Longrightarrow> better a c"
  using neg_trans by blast

lemma fold_best_Some:
  "fold_best better (Some a) xs = Some b \<Longrightarrow>
     (b = a \<and> (\<forall>x \<in> set xs. \<not> better x a)) \<or>
     (better b a \<and> (\<exists>us vs. xs = us @ b # vs \<and> (\<forall>u \<in> set us. better b u) \<and> (\<forall>v \<in> set vs. \<not> better v b)))"
proof (induction xs arbitrary: a)
  case Nil
  then show ?case by simp
next
  case (Cons x xs)
  show ?case
  proof (cases "better x a")
    case True
    with Cons.prems have "fold_best better (Some x) xs = Some b" by simp
    from Cons.IH [OF this] show ?thesis
    proof (elim disjE conjE exE)
      assume "b = x" "\<forall>y \<in> set xs. \<not> better y x"
      with True have "better b a \<and> x # xs = [] @ b # xs \<and> (\<forall>u \<in> set []. better b u) \<and>
          (\<forall>v \<in> set xs. \<not> better v b)" by simp
      then show ?thesis by blast
    next
      fix us vs
      assume h: "better b x" "xs = us @ b # vs" "\<forall>u \<in> set us. better b u" "\<forall>v \<in> set vs. \<not> better v b"
      have "better b a" using h(1) True asym neg_trans by blast
      moreover have "x # xs = (x # us) @ b # vs \<and> (\<forall>u \<in> set (x # us). better b u)" using h by simp
      ultimately show ?thesis using h(4) by blast
    qed
  next
    case False
    with Cons.prems have "fold_best better (Some a) xs = Some b" by simp
    from Cons.IH [OF this] show ?thesis
    proof (elim disjE conjE exE)
      assume "b = a" "\<forall>y \<in> set xs. \<not> better y a"
      with False show ?thesis by simp
    next
      fix us vs
      assume h: "better b a" "xs = us @ b # vs" "\<forall>u \<in> set us. better b u" "\<forall>v \<in> set vs. \<not> better v b"
      have "better b x" using h(1) False by (rule better_trans_weak)
      then have "x # xs = (x # us) @ b # vs \<and> (\<forall>u \<in> set (x # us). better b u)" using h by simp
      with h show ?thesis by blast
    qed
  qed
qed

lemma fold_best_first:
  assumes "fold_best better None xs = Some b"
  shows "\<exists>us vs. xs = us @ b # vs \<and> (\<forall>u \<in> set us. better b u) \<and> (\<forall>v \<in> set vs. \<not> better v b)"
proof (cases xs)
  case Nil
  with assms show ?thesis by simp
next
  case (Cons x ys)
  with assms have "fold_best better (Some x) ys = Some b" by simp
  from fold_best_Some [OF this] show ?thesis
  proof (elim disjE conjE exE)
    assume "b = x" "\<forall>y \<in> set ys. \<not> better y x"
    with Cons have "xs = [] @ b # ys \<and> (\<forall>u \<in> set []. better b u) \<and> (\<forall>v \<in> set ys. \<not> better v b)" by simp
    then show ?thesis by blast
  next
    fix us vs
    assume h: "better b x" "ys = us @ b # vs" "\<forall>u \<in> set us. better b u" "\<forall>v \<in> set vs. \<not> better v b"
    with Cons have "xs = (x # us) @ b # vs \<and> (\<forall>u \<in> set (x # us). better b u)" by simp
    with h show ?thesis by blast
  qed
qed

lemma fold_best_in: "fold_best better None xs = Some b \<Longrightarrow> b \<in> set xs"
  using fold_best_first by fastforce

lemma fold_best_max: "fold_best better None xs = Some b \<Longrightarrow> x \<in> set xs \<Longrightarrow> \<not> better x b"
  using fold_best_first asym by fastforce

lemma fold_best_order_independent:
  assumes "set xs = set ys"
    and total: "\<And>a b. a \<in> set xs \<Longrightarrow> b \<in> set xs \<Longrightarrow> \<not> better a b \<Longrightarrow> \<not> better b a \<Longrightarrow> a = b"
  shows "fold_best better None xs = fold_best better None ys"
proof (cases "fold_best better None xs")
  case None
  with assms(1) show ?thesis by simp
next
  case (Some a)
  then have "ys \<noteq> []" using fold_best_in assms(1) by fastforce
  then obtain b where b: "fold_best better None ys = Some b" using fold_best_None_iff by fastforce
  have "a = b"
    using total fold_best_in [OF Some] fold_best_in [OF b] fold_best_max [OF Some] fold_best_max [OF b]
      assms(1) by blast
  with Some b show ?thesis by simp
qed

end

end
