(* ===== verification/Scheduler_Interface.thy ===== *)
theory Scheduler_Interface
  imports Pipeline Selection
begin

text \<open>
  \<open>core/include/core/scheduler.h\<close>: the scheduler configuration, the state-change events, and the
  \<open>IScheduler\<close> contract as two locales. \<open>submission\<close> is what a client may rely on when it hands a
  task over, \<open>scheduler\<close> adds cancellation and the pending query. Both are interpreted on the
  single-threaded scheduler and on the thread-pool scheduler, and the workflow engine is proved
  against them.
\<close>

section \<open>Configuration and events\<close>

record resource_budget =
  cpu_slots_hard :: int
  ram_soft_mb :: int
  vram_soft_mb :: int

record aging_policy =
  interval_ms :: int
  boost_per_interval :: int

record pause_policy =
  checkpoint_timeout_ms :: int

record scheduler_config =
  worker_count :: int
  resource_budget :: resource_budget
  aging_policy :: aging_policy
  pause_policy :: pause_policy

definition default_config :: scheduler_config where
  "default_config = \<lparr>worker_count = 0,
     resource_budget = \<lparr>cpu_slots_hard = 0, ram_soft_mb = 2048, vram_soft_mb = 7680\<rparr>,
     aging_policy = \<lparr>interval_ms = 500, boost_per_interval = 1\<rparr>,
     pause_policy = \<lparr>checkpoint_timeout_ms = 1500\<rparr>\<rparr>"

datatype state_event = StateEvent (ev_task: string) (ev_state: task_state) (ev_progress: flt)

type_synonym 's sched_result = "'s \<times> state_event list \<times> void_result"

text \<open>
  What each registered callback is called with: all callbacks for the first event, then all of
  them for the second. An empty \<open>std::function\<close> is skipped.
\<close>

definition notify_calls :: "callback list \<Rightarrow> state_event list \<Rightarrow> (nat \<times> state_event) list" where
  "notify_calls cbs evs = concat (map (\<lambda>ev. map (\<lambda>k. (k, ev)) (run_callbacks cbs)) evs)"

lemma notify_calls_set:
  "(k, ev) \<in> set (notify_calls cbs evs) \<longleftrightarrow> Some k \<in> set cbs \<and> ev \<in> set evs"
  by (auto simp: notify_calls_def simp flip: set_run_callbacks)

section \<open>What both schedulers share\<close>

text \<open>
  The two implementations reject a submission with the same messages, resume a task to the state
  recorded when it was paused, and hand the same context to a stage.
\<close>

definition err_null_stage :: task_error where
  "err_null_stage = TaskError_Internal ''Stage must not be null''"
definition err_empty_id :: task_error where
  "err_empty_id = TaskError_Internal ''task_id must not be empty''"
definition err_duplicate :: "string \<Rightarrow> task_error" where
  "err_duplicate i = TaskError_Internal (''Duplicate task_id: '' @ i)"
definition err_self_dep :: "string \<Rightarrow> task_error" where
  "err_self_dep i = TaskError_Internal (''Task cannot depend on itself: '' @ i)"
definition err_dep_missing :: "string \<Rightarrow> task_error" where
  "err_dep_missing d = TaskError_Internal (''Dependency not found: '' @ d)"
definition err_not_found :: "string \<Rightarrow> task_error" where
  "err_not_found i = TaskError_Internal (''Task not found: '' @ i)"

definition resume_target :: "task_descriptor \<Rightarrow> task_state" where
  "resume_target t = (case paused_from t of None \<Rightarrow> Running | Some st \<Rightarrow> st)"

text \<open>What is handed to the stage: the task, the stage and the context.\<close>

record dispatch =
  dtask :: string
  dstage :: stage
  dctx :: stage_context

section \<open>The contract\<close>

locale submission =
  fixes state_of :: "'s \<Rightarrow> string \<Rightarrow> task_state option"
    and inv :: "'s \<Rightarrow> bool"
    and submit :: "int \<Rightarrow> 's \<Rightarrow> task_descriptor \<Rightarrow> stage option \<Rightarrow> 's sched_result"
  assumes submit_inv:
      "inv s \<Longrightarrow> tstate t = Queued \<Longrightarrow> submit now s t stg = (s', evs, r) \<Longrightarrow> inv s'"
    and submit_rejected:
      "submit now s t stg = (s', evs, Inl e) \<Longrightarrow> state_of s' = state_of s \<and> evs = []"
    and submit_accepted:
      "inv s \<Longrightarrow> tstate t = Queued \<Longrightarrow> submit now s t stg = (s', evs, Ok) \<Longrightarrow>
        state_of s (task_id t) = None \<and>
        (\<exists>st. state_of s' (task_id t) = Some st \<and> st \<in> {Queued, Ready, Canceled}) \<and>
        (\<forall>j. j \<noteq> task_id t \<longrightarrow> state_of s' j = state_of s j)"
    and submit_deps_known:
      "inv s \<Longrightarrow> submit now s t stg = (s', evs, Ok) \<Longrightarrow> tstate t = Queued \<Longrightarrow>
        state_of s' (task_id t) \<noteq> Some Canceled \<Longrightarrow> d \<in> set (deps t) \<Longrightarrow> state_of s d \<noteq> None"
begin

lemma submit_duplicate_rejected:
  assumes "inv s" "tstate t = Queued" "state_of s (task_id t) \<noteq> None"
    and "submit now s t stg = (s', evs, r)"
  shows "is_err r"
proof (rule ccontr)
  assume "\<not> is_err r"
  then have "r = Ok" by (cases r) auto
  with assms(4) have "submit now s t stg = (s', evs, Ok)" by simp
  from submit_accepted [OF assms(1,2) this] assms(3) show False by simp
qed

lemma submit_keeps_known:
  assumes "inv s" "tstate t = Queued" "submit now s t stg = (s', evs, r)" "state_of s j \<noteq> None"
  shows "state_of s' j = state_of s j"
proof (cases r)
  case (Inl e)
  with assms(3) submit_rejected have "state_of s' = state_of s" by blast
  then show ?thesis by simp
next
  case (Inr u)
  with assms(3) have "submit now s t stg = (s', evs, Ok)" by simp
  from submit_accepted [OF assms(1,2) this] assms(4) show ?thesis by metis
qed

end

locale scheduler = submission +
  fixes cancel :: "int \<Rightarrow> 's \<Rightarrow> string \<Rightarrow> 's sched_result"
    and has_pending_tasks :: "'s \<Rightarrow> bool"
  assumes cancel_inv: "inv s \<Longrightarrow> cancel now s i = (s', evs, r) \<Longrightarrow> inv s'"
    and cancel_unknown:
      "inv s \<Longrightarrow> state_of s i = None \<Longrightarrow> cancel now s i = (s', evs, r) \<Longrightarrow>
        state_of s' = state_of s \<and> evs = [] \<and> is_err r"
    and cancel_live:
      "inv s \<Longrightarrow> state_of s i = Some st \<Longrightarrow> \<not> is_terminal st \<Longrightarrow> cancel now s i = (s', evs, r) \<Longrightarrow>
        r = Ok \<and> state_of s' i = Some Canceled"
    and cancel_effect:
      "inv s \<Longrightarrow> cancel now s i = (s', evs, r) \<Longrightarrow>
        state_of s' j = state_of s j \<or>
        (\<exists>st. state_of s j = Some st \<and> \<not> is_terminal st \<and> state_of s' j = Some Canceled)"
    and pending_iff:
      "inv s \<Longrightarrow> has_pending_tasks s \<longleftrightarrow> (\<exists>i st. state_of s i = Some st \<and> \<not> is_terminal st)"
begin

lemma cancel_terminal_absorbing:
  assumes "inv s" "cancel now s i = (s', evs, r)" "state_of s j = Some st" "is_terminal st"
  shows "state_of s' j = Some st"
  using cancel_effect [OF assms(1,2), of j] assms(3,4) by auto

lemma cancel_makes_terminal:
  assumes "inv s" "cancel now s i = (s', evs, r)" "state_of s i \<noteq> None"
  shows "\<exists>st. state_of s' i = Some st \<and> is_terminal st"
proof -
  from assms(3) obtain st where st: "state_of s i = Some st" by blast
  show ?thesis
  proof (cases "is_terminal st")
    case True
    with cancel_terminal_absorbing [OF assms(1,2) st] show ?thesis by blast
  next
    case False
    with cancel_live [OF assms(1) st _ assms(2)] show ?thesis by simp
  qed
qed

lemma cancel_same_tasks:
  assumes "inv s" "cancel now s i = (s', evs, r)"
  shows "state_of s' j = None \<longleftrightarrow> state_of s j = None"
  using cancel_effect [OF assms, of j] by auto

end

end
