(* ===== verification/Pool_Scheduler.thy ===== *)
theory Pool_Scheduler
  imports Scheduler_Interface "HOL-Library.List_Lexorder" "HOL-Library.Char_ord"
begin

text \<open>
  \<open>core/src/thread_pool_scheduler.cpp\<close>: the state of \<open>ThreadPoolScheduler\<close> and its operations.
  Every definition is one section of code that runs under the mutex; it returns the new state and
  the events that the code dispatches after releasing the lock. Where the code waits on the
  condition variable an operation is split there: \<open>pause\<close> into \<open>pause_begin\<close>, the waiting
  predicate \<open>pause_reached\<close> and \<open>pause_timeout\<close>; the progress callback into \<open>progress_checkpoint\<close>,
  \<open>progress_waiting\<close> and \<open>progress_resumed\<close>; a worker iteration into \<open>worker_begin\<close> and
  \<open>finalize_execution\<close> around the stage.

  An \<open>unordered_map\<close> is a map with its iteration order, an \<open>unordered_set\<close> a list without
  duplicates in iteration order, \<open>successors_\<close> an association list. One clock reading is taken
  per locked section.
\<close>

section \<open>State\<close>

record resource_usage =
  used_cpu :: int
  used_ram :: int
  used_vram :: int

record node =
  ntask :: task_descriptor
  nstage :: stage
  last_outputs :: any_map
  unmet_deps :: nat
  ready_since :: int
  nrunning :: bool
  pause_requested :: bool
  pause_deadline :: "int option"

record candidate =
  cand_id :: string
  effective_priority :: int
  cand_since :: int
  soft_fit :: bool

record pool =
  config :: scheduler_config
  stopping :: bool
  nodes :: "string \<rightharpoonup> node"
  node_order :: "string list"
  successors :: "(string \<times> string list) list"
  ready_set :: "string list"
  running_set :: "string list"
  in_use :: resource_usage
  pool_callbacks :: "callback list"
  pool_heap :: token_heap

abbreviation nstate :: "node \<Rightarrow> task_state" where "nstate n \<equiv> tstate (ntask n)"

definition set_insert :: "'a \<Rightarrow> 'a list \<Rightarrow> 'a list" where
  "set_insert x xs = (if x \<in> set xs then xs else xs @ [x])"

definition put_node :: "string \<Rightarrow> node \<Rightarrow> pool \<Rightarrow> pool" where
  "put_node i n s = s\<lparr>nodes := (nodes s)(i \<mapsto> n)\<rparr>"

section \<open>Configuration\<close>

definition clamp_auto_workers :: "int \<Rightarrow> int" where
  "clamp_auto_workers hw = (if hw \<le> 0 then 4 else clamp_int (hw - 1) 2 8)"

definition normalize_budget :: "int \<Rightarrow> resource_budget \<Rightarrow> resource_budget" where
  "normalize_budget workers b =
     \<lparr>cpu_slots_hard = (if cpu_slots_hard b \<le> 0 then workers else cpu_slots_hard b),
      ram_soft_mb = max 0 (ram_soft_mb b), vram_soft_mb = max 0 (vram_soft_mb b)\<rparr>"

definition normalize_config :: "int \<Rightarrow> scheduler_config \<Rightarrow> scheduler_config" where
  "normalize_config hw c =
     (let w = (if worker_count c \<le> 0 then clamp_auto_workers hw else worker_count c);
          a = aging_policy c; p = pause_policy c
      in \<lparr>worker_count = w, resource_budget = normalize_budget w (resource_budget c),
          aging_policy =
            \<lparr>interval_ms = (if interval_ms a \<le> 0 then 500 else interval_ms a),
             boost_per_interval = (if boost_per_interval a \<le> 0 then 1 else boost_per_interval a)\<rparr>,
          pause_policy =
            \<lparr>checkpoint_timeout_ms =
               (if checkpoint_timeout_ms p \<le> 0 then 1500 else checkpoint_timeout_ms p)\<rparr>\<rparr>)"

definition create_pool :: "int \<Rightarrow> scheduler_config \<Rightarrow> token_heap \<Rightarrow> pool" where
  "create_pool hw c h = \<lparr>config = normalize_config hw c, stopping = False, nodes = Map.empty,
     node_order = [], successors = [], ready_set = [], running_set = [],
     in_use = \<lparr>used_cpu = 0, used_ram = 0, used_vram = 0\<rparr>, pool_callbacks = [], pool_heap = h\<rparr>"

definition destroy_pool :: "pool \<Rightarrow> pool" where
  "destroy_pool s = s\<lparr>stopping := True\<rparr>"

definition pool_on_state_change :: "pool \<Rightarrow> callback \<Rightarrow> pool" where
  "pool_on_state_change s cb = s\<lparr>pool_callbacks := pool_callbacks s @ [cb]\<rparr>"

definition dispatch_events :: "pool \<Rightarrow> state_event list \<Rightarrow> (nat \<times> state_event) list" where
  "dispatch_events s evs = (if evs = [] then [] else notify_calls (pool_callbacks s) evs)"

abbreviation budget :: "pool \<Rightarrow> resource_budget" where
  "budget s \<equiv> resource_budget (config s)"

section \<open>The dependency graph\<close>

type_synonym graph = "(string \<times> string list) list"

text \<open>\<open>successors_[k].push_back(x)\<close>\<close>

fun add_edge :: "string \<Rightarrow> string \<Rightarrow> graph \<Rightarrow> graph" where
  "add_edge k x [] = [(k, [x])]"
| "add_edge k x ((j, ys) # g) = (if j = k then (j, ys @ [x]) # g else (j, ys) # add_edge k x g)"

definition succs :: "graph \<Rightarrow> string \<Rightarrow> string list" where
  "succs g k = (case map_of g k of None \<Rightarrow> [] | Some xs \<Rightarrow> xs)"

text \<open>The guard: a depth-first search with an explicit stack, top first.\<close>

function cycle_dfs :: "graph \<Rightarrow> string \<Rightarrow> string list \<Rightarrow> string list \<Rightarrow> bool" where
  "cycle_dfs g target visited [] = False"
| "cycle_dfs g target visited (c # stack) =
     (if c = target then True
      else if c \<in> set visited then cycle_dfs g target visited stack
      else (case map_of g c of
              None \<Rightarrow> cycle_dfs g target (c # visited) stack
            | Some ns \<Rightarrow> cycle_dfs g target (c # visited) (rev ns @ stack)))"
  by pat_completeness auto
termination
proof (relation "measures [\<lambda>(g, t, vis, st). card (fst ` set g - set vis), \<lambda>(g, t, vis, st). length st]",
    goal_cases)
  case (3 g target visited c stack)
  then show ?case
    by (auto simp: le_less[symmetric] intro!: card_mono)
next
  case (4 g target visited c stack ns)
  then have "c \<in> fst ` set g - set visited" by (force dest: map_of_SomeD)
  then have "fst ` set g - set (c # visited) \<subset> fst ` set g - set visited" by auto
  then have "card (fst ` set g - set (c # visited)) < card (fst ` set g - set visited)"
    by (intro psubset_card_mono) auto
  then show ?case by simp
qed auto

definition creates_cycle :: "graph \<Rightarrow> string \<Rightarrow> string list \<Rightarrow> bool" where
  "creates_cycle g i ds = cycle_dfs g i [] (rev ds)"

section \<open>Failure propagation\<close>

definition err_ancestor :: "string \<Rightarrow> task_error" where
  "err_ancestor cur = TaskError6 Cat_Canceled 3004 False ''Task canceled due to dependency failure''
     ''Ancestor task failed or canceled'' [''dependency_task_id'' \<mapsto> cur]"

definition cancel_dependent ::
  "int \<Rightarrow> string \<Rightarrow> string \<Rightarrow> node \<Rightarrow> pool \<Rightarrow> pool \<times> state_event list" where
  "cancel_dependent now cur x n s =
     (let s1 = s\<lparr>pool_heap := cancel_opt (pool_heap s) (cancel_token (ntask n)),
                 ready_set := (if nstate n = Ready then remove1 x (ready_set s) else ready_set s)\<rparr>;
          t1 = (ntask n)\<lparr>terror := Some (err_ancestor cur)\<rparr>
      in case transition_to now t1 Canceled of
           Inl e \<Rightarrow> (put_node x (n\<lparr>ntask := t1\<rparr>) s1, [])
         | Inr t2 \<Rightarrow> (put_node x (n\<lparr>ntask := t2\<rparr>) s1, [StateEvent x Canceled (progress t2)]))"

definition touch_dependent ::
  "int \<Rightarrow> string \<Rightarrow> string \<Rightarrow> node \<Rightarrow> pool \<Rightarrow> pool \<times> state_event list" where
  "touch_dependent now cur x n s =
     (if is_terminal (nstate n) then (s, []) else cancel_dependent now cur x n s)"

text \<open>
  The inner loop over the successors of \<open>cur\<close>: the state, the visited set, the ids pushed on the
  stack in the order of the pushes, and the events.
\<close>

fun visit_succs ::
  "int \<Rightarrow> string \<Rightarrow> string list \<Rightarrow> pool \<Rightarrow> string list \<Rightarrow> pool \<times> string list \<times> string list \<times> state_event list" where
  "visit_succs now cur [] s vis = (s, vis, [], [])"
| "visit_succs now cur (x # xs) s vis =
     (if x \<in> set vis then visit_succs now cur xs s vis
      else (case nodes s x of
              None \<Rightarrow> visit_succs now cur xs s (x # vis)
            | Some n \<Rightarrow>
                (case touch_dependent now cur x n s of
                   (s1, ev1) \<Rightarrow>
                     (case visit_succs now cur xs s1 (x # vis) of
                        (s2, vis2, push2, ev2) \<Rightarrow> (s2, vis2, x # push2, ev1 @ ev2)))))"

lemma touch_dependent_frame:
  "touch_dependent now cur x n s = (s', evs) \<Longrightarrow>
     successors s' = successors s \<and> config s' = config s \<and> running_set s' = running_set s \<and>
     in_use s' = in_use s \<and> node_order s' = node_order s \<and> stopping s' = stopping s"
  by (auto simp: touch_dependent_def cancel_dependent_def put_node_def Let_def
      split: if_splits sum.splits)

lemma visit_succs_induct
  [consumes 1, case_names Nil Visited Dangling Node]:
  assumes "visit_succs now cur xs s vis = (s', vis', push, evs)"
    and "\<And>s vis. P [] s vis s vis [] []"
    and "\<And>x xs s vis s' vis' push evs. x \<in> set vis \<Longrightarrow> P xs s vis s' vis' push evs \<Longrightarrow>
           P (x # xs) s vis s' vis' push evs"
    and "\<And>x xs s vis s' vis' push evs. x \<notin> set vis \<Longrightarrow> nodes s x = None \<Longrightarrow>
           P xs s (x # vis) s' vis' push evs \<Longrightarrow> P (x # xs) s vis s' vis' push evs"
    and "\<And>x n xs s vis s1 ev1 s' vis' push evs. x \<notin> set vis \<Longrightarrow> nodes s x = Some n \<Longrightarrow>
           touch_dependent now cur x n s = (s1, ev1) \<Longrightarrow> P xs s1 (x # vis) s' vis' push evs \<Longrightarrow>
           P (x # xs) s vis s' vis' (x # push) (ev1 @ evs)"
  shows "P xs s vis s' vis' push evs"
  using assms(1)
proof (induction xs arbitrary: s vis s' vis' push evs)
  case Nil
  then show ?case by (simp add: assms(2))
next
  case (Cons x xs)
  consider (v) "x \<in> set vis" | (d) "x \<notin> set vis" "nodes s x = None"
    | (n) n where "x \<notin> set vis" "nodes s x = Some n" by blast
  then show ?case
  proof cases
    case v
    with Cons show ?thesis by (auto intro: assms(3))
  next
    case d
    with Cons show ?thesis by (auto intro: assms(4))
  next
    case n
    obtain s1 ev1 where t: "touch_dependent now cur x n s = (s1, ev1)" by fastforce
    obtain vis2 push2 ev2 where "visit_succs now cur xs s1 (x # vis) = (s', vis2, push2, ev2)"
      and eq: "vis' = vis2" "push = x # push2" "evs = ev1 @ ev2"
      using Cons.prems n t by (auto split: prod.splits)
    from Cons.IH [OF this(1)] n t show ?thesis
      unfolding eq by (intro assms(5))
  qed
qed

lemma visit_succs_frame:
  "visit_succs now cur xs s vis = (s', vis', push, evs) \<Longrightarrow>
     successors s' = successors s \<and> set vis' = set vis \<union> set xs \<and> set push \<subseteq> set xs - set vis"
  by (induction rule: visit_succs_induct) (auto dest: touch_dependent_frame)

definition edge_targets :: "graph \<Rightarrow> string set" where
  "edge_targets g = (\<Union>p \<in> set g. set (snd p))"

lemma finite_edge_targets [simp]: "finite (edge_targets g)"
  by (simp add: edge_targets_def)

function propagate_loop ::
  "int \<Rightarrow> pool \<Rightarrow> string list \<Rightarrow> string list \<Rightarrow> pool \<times> state_event list" where
  "propagate_loop now s vis [] = (s, [])"
| "propagate_loop now s vis (c # stack) =
     (case map_of (successors s) c of
        None \<Rightarrow> propagate_loop now s vis stack
      | Some xs \<Rightarrow>
          (case visit_succs now c xs s vis of
             (s1, vis1, push, ev1) \<Rightarrow>
               (case propagate_loop now s1 vis1 (rev push @ stack) of
                  (s2, ev2) \<Rightarrow> (s2, ev1 @ ev2))))"
  by pat_completeness auto
termination
proof (relation "measures [\<lambda>(now, s, vis, st). card (edge_targets (successors s) - set vis),
      \<lambda>(now, s, vis, st). length st]", goal_cases)
  case (3 now s vis c stack xs s1 y vis1 ya push ev1)

  from 3 have v: "visit_succs now c xs s vis = (s1, vis1, push, ev1)" by simp
  from visit_succs_frame [OF v] have fr: "successors s1 = successors s"
    "set vis1 = set vis \<union> set xs" "set push \<subseteq> set xs - set vis" by auto
  have xs: "set xs \<subseteq> edge_targets (successors s)"
    using 3(1) by (force simp: edge_targets_def dest: map_of_SomeD)
  show ?case
  proof (cases "push = []")
    case True
    have "card (edge_targets (successors s1) - set vis1) \<le> card (edge_targets (successors s) - set vis)"
      using fr by (intro card_mono) auto
    with True show ?thesis by auto
  next
    case False
    then obtain y where "y \<in> set push" by (cases push) auto
    with fr xs have "edge_targets (successors s1) - set vis1 \<subset> edge_targets (successors s) - set vis"
      by auto
    then have "card (edge_targets (successors s1) - set vis1) < card (edge_targets (successors s) - set vis)"
      by (intro psubset_card_mono) auto
    then show ?thesis by simp
  qed
qed auto

definition propagate :: "int \<Rightarrow> string \<Rightarrow> pool \<Rightarrow> pool \<times> state_event list" where
  "propagate now origin s = propagate_loop now s [] [origin]"

section \<open>Candidate selection\<close>

text \<open>\<open>int\<close> sums wrap at 32 bits, the score at 64; quotients truncate.\<close>

definition fits_cpu_hard :: "pool \<Rightarrow> resource_demand \<Rightarrow> bool" where
  "fits_cpu_hard s d \<longleftrightarrow> i32 (used_cpu (in_use s) + cpu_slots d) \<le> cpu_slots_hard (budget s)"

definition fits_soft :: "pool \<Rightarrow> resource_demand \<Rightarrow> bool" where
  "fits_soft s d \<longleftrightarrow>
     (ram_soft_mb (budget s) \<le> 0 \<or> i32 (used_ram (in_use s) + ram_mb d) \<le> ram_soft_mb (budget s)) \<and>
     (vram_soft_mb (budget s) \<le> 0 \<or> i32 (used_vram (in_use s) + vram_mb d) \<le> vram_soft_mb (budget s))"

definition aging_score :: "aging_policy \<Rightarrow> int \<Rightarrow> int \<Rightarrow> int \<Rightarrow> int" where
  "aging_score a now since prio =
     (let wait_ms = (now - since) sdiv 1000000;
          intervals = wait_ms sdiv (max 1 (interval_ms a))
      in i64 (prio + i64 (intervals * boost_per_interval a)))"

definition mk_candidate :: "int \<Rightarrow> pool \<Rightarrow> string \<Rightarrow> node \<Rightarrow> candidate" where
  "mk_candidate now s i n = \<lparr>cand_id = i,
     effective_priority = aging_score (aging_policy (config s)) now (ready_since n) (priority (ntask n)),
     cand_since = ready_since n, soft_fit = fits_soft s (demand (ntask n))\<rparr>"

definition better_than :: "candidate \<Rightarrow> candidate \<Rightarrow> bool" where
  "better_than l r =
     (if effective_priority l \<noteq> effective_priority r then effective_priority r < effective_priority l
      else if cand_since l \<noteq> cand_since r then cand_since l < cand_since r
      else cand_id l < cand_id r)"

fun improves :: "candidate \<Rightarrow> candidate option \<Rightarrow> bool" where
  "improves c None = True"
| "improves c (Some b) = better_than c b"

fun pick_loop ::
  "int \<Rightarrow> pool \<Rightarrow> string list \<Rightarrow> candidate option \<Rightarrow> candidate option \<Rightarrow> candidate option \<times> candidate option" where
  "pick_loop now s [] best_fit best_over = (best_fit, best_over)"
| "pick_loop now s (i # is) best_fit best_over =
     (case nodes s i of
        None \<Rightarrow> pick_loop now s is best_fit best_over
      | Some n \<Rightarrow>
          if nstate n \<noteq> Ready then pick_loop now s is best_fit best_over
          else if \<not> fits_cpu_hard s (demand (ntask n)) then pick_loop now s is best_fit best_over
          else (let c = mk_candidate now s i n
                in if soft_fit c
                   then pick_loop now s is (if improves c best_fit then Some c else best_fit) best_over
                   else pick_loop now s is best_fit (if improves c best_over then Some c else best_over)))"

definition pick_candidate :: "int \<Rightarrow> pool \<Rightarrow> bool \<Rightarrow> candidate option" where
  "pick_candidate now s allow_escape =
     (case pick_loop now s (ready_set s) None None of
        (Some c, over) \<Rightarrow> Some c
      | (None, over) \<Rightarrow> (if allow_escape \<and> running_set s = [] then over else None))"

definition has_runnable_task :: "int \<Rightarrow> pool \<Rightarrow> bool" where
  "has_runnable_task now s \<longleftrightarrow> pick_candidate now s True \<noteq> None"

definition reserve_resources :: "resource_demand \<Rightarrow> resource_usage \<Rightarrow> resource_usage" where
  "reserve_resources d u = \<lparr>used_cpu = i32 (used_cpu u + cpu_slots d),
     used_ram = i32 (used_ram u + ram_mb d), used_vram = i32 (used_vram u + vram_mb d)\<rparr>"

definition release_resources :: "resource_demand \<Rightarrow> resource_usage \<Rightarrow> resource_usage" where
  "release_resources d u = \<lparr>used_cpu = max 0 (i32 (used_cpu u - cpu_slots d)),
     used_ram = max 0 (i32 (used_ram u - ram_mb d)), used_vram = max 0 (i32 (used_vram u - vram_mb d))\<rparr>"

section \<open>submit\<close>

definition err_cpu_budget :: "string \<Rightarrow> int \<Rightarrow> int \<Rightarrow> task_error" where
  "err_cpu_budget i slots hard = TaskError6 Cat_Resource 3001 False
     ''Task requires too many CPU slots'' ''resource_demand.cpu_slots exceeds hard CPU budget''
     [''task_id'' \<mapsto> i, ''cpu_slots'' \<mapsto> to_string_int slots, ''cpu_slots_hard'' \<mapsto> to_string_int hard]"

definition err_cycle :: "string \<Rightarrow> task_error" where
  "err_cycle i = TaskError_Internal (''Dependency cycle detected for task: '' @ i)"

definition err_dep_failed :: "string \<Rightarrow> task_error" where
  "err_dep_failed d = TaskError6 Cat_Canceled 3002 False
     ''Task canceled because dependency already failed'' ''Dependency already terminal before submit''
     [''dependency_task_id'' \<mapsto> d]"

definition normalize_demand :: "resource_demand \<Rightarrow> resource_demand" where
  "normalize_demand d = \<lparr>cpu_slots = (if cpu_slots d \<le> 0 then 1 else cpu_slots d),
     ram_mb = max 0 (ram_mb d), vram_mb = max 0 (vram_mb d)\<rparr>"

datatype link_result = Linked nat | Link_blocked string nat | Link_error task_error

text \<open>The loop over the dependencies: it records the edge before it looks at the state.\<close>

fun link_deps :: "pool \<Rightarrow> string \<Rightarrow> string list \<Rightarrow> nat \<Rightarrow> pool \<times> link_result" where
  "link_deps s i [] unmet = (s, Linked unmet)"
| "link_deps s i (d # ds) unmet =
     (if d = i then (s, Link_error (err_self_dep i))
      else (case nodes s d of
              None \<Rightarrow> (s, Link_error (err_dep_missing d))
            | Some dn \<Rightarrow>
                (let s1 = s\<lparr>successors := add_edge d i (successors s)\<rparr>
                 in if nstate dn = Succeeded then link_deps s1 i ds unmet
                    else if nstate dn = Failed \<or> nstate dn = Canceled then (s1, Link_blocked d unmet)
                    else link_deps s1 i ds (Suc unmet))))"

definition mk_node :: "int \<Rightarrow> task_descriptor \<Rightarrow> stage \<Rightarrow> nat \<Rightarrow> node" where
  "mk_node now t sg unmet = \<lparr>ntask = t, nstage = sg, last_outputs = Map.empty, unmet_deps = unmet,
     ready_since = now, nrunning = False, pause_requested = False, pause_deadline = None\<rparr>"

definition emplace_node :: "node \<Rightarrow> pool \<Rightarrow> pool" where
  "emplace_node n s = (put_node (task_id (ntask n)) n s)
     \<lparr>node_order := node_order s @ [task_id (ntask n)]\<rparr>"

definition ensure_token :: "pool \<Rightarrow> task_descriptor \<Rightarrow> pool \<times> task_descriptor" where
  "ensure_token s t =
     (case cancel_token t of
        Some a \<Rightarrow> (s, t)
      | None \<Rightarrow> (case create_token (pool_heap s) of
                   (h, a) \<Rightarrow> (s\<lparr>pool_heap := h\<rparr>, t\<lparr>cancel_token := Some a\<rparr>)))"

definition insert_linked :: "int \<Rightarrow> pool \<Rightarrow> task_descriptor \<Rightarrow> stage \<Rightarrow> link_result \<Rightarrow> pool sched_result" where
  "insert_linked now s t sg lr =
     (case lr of
        Link_error e \<Rightarrow> (s, [], Inl e)
      | Link_blocked d unmet \<Rightarrow>
          (let t1 = t\<lparr>terror := Some (err_dep_failed d)\<rparr>
           in case transition_to now t1 Canceled of
                Inl e \<Rightarrow> (emplace_node (mk_node now t1 sg unmet) s, [], Ok)
              | Inr t2 \<Rightarrow> (emplace_node (mk_node now t2 sg unmet) s,
                            [StateEvent (task_id t2) Canceled (progress t2)], Ok))
      | Linked unmet \<Rightarrow>
          if unmet = 0
          then (case transition_to now t Ready of
                  Inl e \<Rightarrow> (s, [], Inl e)
                | Inr t1 \<Rightarrow>
                    (emplace_node (mk_node now t1 sg 0)
                       (s\<lparr>ready_set := set_insert (task_id t1) (ready_set s)\<rparr>),
                     [StateEvent (task_id t1) Ready (progress t1)], Ok))
          else (emplace_node (mk_node now t sg unmet) s, [], Ok))"

definition pool_submit ::
  "int \<Rightarrow> pool \<Rightarrow> task_descriptor \<Rightarrow> stage option \<Rightarrow> pool sched_result" where
  "pool_submit now s t stg =
     (case stg of
        None \<Rightarrow> (s, [], Inl err_null_stage)
      | Some sg \<Rightarrow>
          if task_id t = [] then (s, [], Inl err_empty_id)
          else if nodes s (task_id t) \<noteq> None then (s, [], Inl (err_duplicate (task_id t)))
          else
            (let t1 = t\<lparr>demand := normalize_demand (demand t)\<rparr>;
                 hard = cpu_slots_hard (budget s)
             in if hard < cpu_slots (demand t1)
                then (s, [], Inl (err_cpu_budget (task_id t) (cpu_slots (demand t1)) hard))
                else (case ensure_token s t1 of
                        (s1, t2) \<Rightarrow>
                          if creates_cycle (successors s1) (task_id t2) (deps t2)
                          then (s1, [], Inl (err_cycle (task_id t2)))
                          else (case link_deps s1 (task_id t2) (deps t2) 0 of
                                  (s2, lr) \<Rightarrow> insert_linked now s2 t2 sg lr))))"

section \<open>cancel, pause, resume, tick\<close>

definition clear_pause :: "node \<Rightarrow> node" where
  "clear_pause n = n\<lparr>pause_requested := False, pause_deadline := None\<rparr>"

definition cancel_error :: "task_descriptor \<Rightarrow> task_descriptor" where
  "cancel_error t = (if terror t = None then t\<lparr>terror := Some TaskError_Canceled\<rparr> else t)"

definition pool_cancel :: "int \<Rightarrow> pool \<Rightarrow> string \<Rightarrow> pool sched_result" where
  "pool_cancel now s i =
     (case nodes s i of
        None \<Rightarrow> (s, [], Inl (err_not_found i))
      | Some n \<Rightarrow>
          (let s1 = s\<lparr>pool_heap := cancel_opt (pool_heap s) (cancel_token (ntask n))\<rparr>
           in if nstate n = Canceled then (put_node i (clear_pause n) s1, [], Ok)
              else
                (let s2 = s1\<lparr>ready_set := (if nstate n = Ready then remove1 i (ready_set s1)
                                           else ready_set s1)\<rparr>
                 in if is_terminal (nstate n) then (put_node i (clear_pause n) s2, [], Ok)
                    else (case transition_to now (ntask n) Canceled of
                            Inl e \<Rightarrow> (put_node i (clear_pause n) s2, [], Inl e)
                          | Inr t1 \<Rightarrow>
                              (let t2 = cancel_error t1
                               in case propagate now i (put_node i ((clear_pause n)\<lparr>ntask := t2\<rparr>) s2) of
                                    (s3, evs) \<Rightarrow> (s3, StateEvent i Canceled (progress t2) # evs, Ok))))))"

datatype pause_outcome = Pause_done void_result | Pause_waiting int

definition err_pause_state :: task_error where
  "err_pause_state =
     TaskError_Internal ''pause() only supports Queued/Ready/Running/Paused task states''"

definition err_pause_timeout :: "string \<Rightarrow> task_error" where
  "err_pause_timeout i = TaskError6 Cat_Timeout 3003 False ''Pause timed out and task was canceled''
     ''Pause checkpoint timeout, auto-canceled task'' [''task_id'' \<mapsto> i]"

definition pause_begin :: "int \<Rightarrow> pool \<Rightarrow> string \<Rightarrow> pool \<times> state_event list \<times> pause_outcome" where
  "pause_begin now s i =
     (case nodes s i of
        None \<Rightarrow> (s, [], Pause_done (Inl (err_not_found i)))
      | Some n \<Rightarrow>
          if nstate n = Paused then (s, [], Pause_done Ok)
          else if nstate n = Queued \<or> nstate n = Ready
          then (let s1 = s\<lparr>ready_set := (if nstate n = Ready then remove1 i (ready_set s)
                                         else ready_set s)\<rparr>
                in case transition_to now (ntask n) Paused of
                     Inl e \<Rightarrow> (s1, [], Pause_done (Inl e))
                   | Inr t1 \<Rightarrow> (put_node i (n\<lparr>ntask := t1\<rparr>) s1,
                                 [StateEvent i Paused (progress t1)], Pause_done Ok))
          else if nstate n = Running
          then (let timeout = max 1 (checkpoint_timeout_ms (pause_policy (config s)));
                    deadline = now + timeout * 1000000
                in (put_node i (n\<lparr>pause_requested := True, pause_deadline := Some deadline\<rparr>) s,
                    [], Pause_waiting deadline))
          else (s, [], Pause_done (Inl err_pause_state)))"

text \<open>The predicate of the wait, and what happens when the deadline passes with it false.\<close>

definition pause_reached :: "pool \<Rightarrow> string \<Rightarrow> bool" where
  "pause_reached s i =
     (case nodes s i of
        None \<Rightarrow> True
      | Some n \<Rightarrow> nstate n = Paused \<or> nstate n = Canceled \<or> nstate n = Failed \<or> nstate n = Succeeded)"

definition pause_timeout :: "int \<Rightarrow> pool \<Rightarrow> string \<Rightarrow> pool sched_result" where
  "pause_timeout now s i =
     (case pool_cancel now s i of (s1, evs, r) \<Rightarrow> (s1, evs, Inl (err_pause_timeout i)))"

definition err_not_paused :: "string \<Rightarrow> task_error" where
  "err_not_paused i = TaskError_Internal (''Task is not paused: '' @ i)"

definition pool_resume :: "int \<Rightarrow> pool \<Rightarrow> string \<Rightarrow> pool sched_result" where
  "pool_resume now s i =
     (case nodes s i of
        None \<Rightarrow> (s, [], Inl (err_not_found i))
      | Some n \<Rightarrow>
          if nstate n \<noteq> Paused then (s, [], Inl (err_not_paused i))
          else (let target = resume_target (ntask n)
                in case transition_to now (ntask n) target of
                     Inl e \<Rightarrow> (s, [], Inl e)
                   | Inr t1 \<Rightarrow>
                       (let n1 = (clear_pause n)\<lparr>ntask := t1\<rparr>;
                            n2 = (if target = Ready then n1\<lparr>ready_since := now\<rparr> else n1);
                            s1 = s\<lparr>ready_set := (if target = Ready then set_insert i (ready_set s)
                                                 else ready_set s)\<rparr>
                        in (put_node i n2 s1, [StateEvent i target (progress t1)], Ok))))"

definition pause_expired :: "int \<Rightarrow> pool \<Rightarrow> string \<Rightarrow> bool" where
  "pause_expired now s i =
     (case nodes s i of
        None \<Rightarrow> False
      | Some n \<Rightarrow> nstate n = Running \<and> pause_requested n \<and>
          (case pause_deadline n of None \<Rightarrow> False | Some d \<Rightarrow> d \<le> now))"

fun cancel_each :: "int \<Rightarrow> pool \<Rightarrow> string list \<Rightarrow> pool \<times> state_event list" where
  "cancel_each now s [] = (s, [])"
| "cancel_each now s (i # is) =
     (case pool_cancel now s i of
        (s1, ev1, r) \<Rightarrow> (case cancel_each now s1 is of (s2, ev2) \<Rightarrow> (s2, ev1 @ ev2)))"

definition pool_tick :: "int \<Rightarrow> pool \<Rightarrow> pool \<times> state_event list" where
  "pool_tick now s = cancel_each now s (filter (pause_expired now s) (node_order s))"

definition pool_has_pending :: "pool \<Rightarrow> bool" where
  "pool_has_pending s =
     list_ex (\<lambda>i. case nodes s i of None \<Rightarrow> False | Some n \<Rightarrow> \<not> is_terminal (nstate n)) (node_order s)"

section \<open>Workers\<close>

fun collect_outputs :: "(string \<rightharpoonup> node) \<Rightarrow> string list \<Rightarrow> any_map \<Rightarrow> any_map" where
  "collect_outputs ns [] m = m"
| "collect_outputs ns (d # ds) m =
     (case ns d of
        None \<Rightarrow> collect_outputs ns ds m
      | Some dn \<Rightarrow> collect_outputs ns ds (m ++ last_outputs dn))"

text \<open>One iteration of \<open>worker_loop\<close> after the wait, up to the release of the lock.\<close>

definition worker_begin :: "int \<Rightarrow> pool \<Rightarrow> pool \<times> state_event list \<times> dispatch option" where
  "worker_begin now s =
     (case pick_candidate now s True of
        None \<Rightarrow> (s, [], None)
      | Some c \<Rightarrow>
          (let i = cand_id c
           in case nodes s i of
                None \<Rightarrow> (s, [], None)
              | Some n \<Rightarrow>
                  (let s1 = s\<lparr>ready_set := remove1 i (ready_set s)\<rparr>
                   in case transition_to now (ntask n) Running of
                        Inl e \<Rightarrow>
                          (let t1 = (ntask n)\<lparr>terror := Some e\<rparr>
                           in case transition_to now t1 Failed of
                                Inl e2 \<Rightarrow> (put_node i (n\<lparr>ntask := t1\<rparr>) s1, [], None)
                              | Inr t2 \<Rightarrow> (put_node i (n\<lparr>ntask := t2\<rparr>) s1,
                                            [StateEvent i Failed (progress t2)], None))
                      | Inr t1 \<Rightarrow>
                          (let n1 = (clear_pause n)\<lparr>ntask := t1, nrunning := True\<rparr>;
                               s2 = (put_node i n1 s1)
                                  \<lparr>in_use := reserve_resources (demand (ntask n)) (in_use s),
                                    running_set := set_insert i (running_set s)\<rparr>;
                               ctx = new_context\<lparr>ctx_trace_id := trace_id t1,
                                       ctx_cancel_token := cancel_token t1,
                                       ctx_inputs := collect_outputs (nodes s2) (deps t1) Map.empty,
                                       ctx_on_progress := True\<rparr>
                           in (s2, [StateEvent i Running (progress t1)],
                               Some \<lparr>dtask = i, dstage = nstage n, dctx = ctx\<rparr>)))))"

text \<open>\<open>handle_progress_callback\<close>: the checkpoint, the wait condition, and what follows the wait.\<close>

definition progress_checkpoint ::
  "int \<Rightarrow> pool \<Rightarrow> string \<Rightarrow> flt \<Rightarrow> pool \<times> state_event list \<times> bool" where
  "progress_checkpoint now s i p =
     (case nodes s i of
        None \<Rightarrow> (s, [], False)
      | Some n \<Rightarrow>
          (let t1 = set_progress (ntask n) p;
               evs = (if tstate t1 = Running then [StateEvent i Running (progress t1)] else []);
               s1 = put_node i (n\<lparr>ntask := t1\<rparr>) s
           in if pause_requested n \<and> tstate t1 = Running
              then (case transition_to now t1 Paused of
                      Inl e \<Rightarrow> (s1, evs, False)
                    | Inr t2 \<Rightarrow> (put_node i ((clear_pause n)\<lparr>ntask := t2\<rparr>) s,
                                  evs @ [StateEvent i Paused (progress t2)], True))
              else (s1, evs, False)))"

definition progress_waiting :: "pool \<Rightarrow> string \<Rightarrow> bool" where
  "progress_waiting s i \<longleftrightarrow> \<not> stopping s \<and>
     (case nodes s i of None \<Rightarrow> False | Some n \<Rightarrow> nstate n = Paused)"

definition progress_resumed :: "pool \<Rightarrow> string \<Rightarrow> state_event list" where
  "progress_resumed s i =
     (case nodes s i of
        None \<Rightarrow> []
      | Some n \<Rightarrow> (if nstate n = Running then [StateEvent i Running (progress (ntask n))] else []))"

fun wake_successors :: "int \<Rightarrow> string list \<Rightarrow> pool \<Rightarrow> pool \<times> state_event list" where
  "wake_successors now [] s = (s, [])"
| "wake_successors now (x # xs) s =
     (case nodes s x of
        None \<Rightarrow> wake_successors now xs s
      | Some n \<Rightarrow>
          if nstate n \<noteq> Queued \<or> unmet_deps n = 0 then wake_successors now xs s
          else
            (let n1 = n\<lparr>unmet_deps := unmet_deps n - 1\<rparr>
             in if unmet_deps n1 = 0
                then (case transition_to now (ntask n1) Ready of
                        Inl e \<Rightarrow> wake_successors now xs (put_node x n1 s)
                      | Inr t1 \<Rightarrow>
                          (case wake_successors now xs
                                  ((put_node x (n1\<lparr>ntask := t1, ready_since := now\<rparr>) s)
                                     \<lparr>ready_set := set_insert x (ready_set s)\<rparr>) of
                             (s2, evs) \<Rightarrow> (s2, StateEvent x Ready (progress t1) # evs)))
                else wake_successors now xs (put_node x n1 s)))"

definition stop_running :: "string \<Rightarrow> node \<Rightarrow> pool \<Rightarrow> pool \<times> node" where
  "stop_running i n s =
     (if nrunning n
      then (s\<lparr>running_set := remove1 i (running_set s),
              in_use := release_resources (demand (ntask n)) (in_use s)\<rparr>, n\<lparr>nrunning := False\<rparr>)
      else (s, n))"

definition finish_ok ::
  "int \<Rightarrow> string \<Rightarrow> node \<Rightarrow> any_map \<Rightarrow> pool \<Rightarrow> pool \<times> state_event list" where
  "finish_ok now i n outs s =
     (case transition_to now (ntask n) Succeeded of
        Inr t1 \<Rightarrow>
          (let n1 = n\<lparr>ntask := set_progress t1 flt_one, last_outputs := outs\<rparr>
           in case wake_successors now (succs (successors s) i) (put_node i n1 s) of
                (s1, evs) \<Rightarrow> (s1, StateEvent i Succeeded flt_one # evs))
      | Inl e \<Rightarrow>
          (let t1 = (ntask n)\<lparr>terror := Some e\<rparr>
           in case transition_to now t1 Failed of
                Inl e2 \<Rightarrow> propagate now i (put_node i (n\<lparr>ntask := t1\<rparr>) s)
              | Inr t2 \<Rightarrow>
                  (case propagate now i (put_node i (n\<lparr>ntask := t2\<rparr>) s) of
                     (s1, evs) \<Rightarrow> (s1, StateEvent i Failed (progress t2) # evs))))"

definition finish_err ::
  "int \<Rightarrow> string \<Rightarrow> node \<Rightarrow> task_error \<Rightarrow> pool \<Rightarrow> pool \<times> state_event list" where
  "finish_err now i n err s =
     (let t1 = (ntask n)\<lparr>terror := Some err\<rparr>;
          target = (if category err = Cat_Canceled \<or> canceled_opt (pool_heap s) (cancel_token t1)
                    then Canceled else Failed)
      in case transition_to now t1 target of
           Inl e \<Rightarrow> propagate now i (put_node i (n\<lparr>ntask := t1\<rparr>) s)
         | Inr t2 \<Rightarrow>
             (case propagate now i (put_node i (n\<lparr>ntask := t2\<rparr>) s) of
                (s1, evs) \<Rightarrow> (s1, StateEvent i target (progress t2) # evs)))"

definition finalize_execution ::
  "int \<Rightarrow> pool \<Rightarrow> string \<Rightarrow> any_map \<Rightarrow> void_result \<Rightarrow> pool \<times> state_event list" where
  "finalize_execution now s i outs res =
     (case nodes s i of
        None \<Rightarrow> (s, [])
      | Some n \<Rightarrow>
          (case stop_running i n s of
             (s1, n1) \<Rightarrow>
               if nstate n1 = Canceled then propagate now i (put_node i n1 s1)
               else (case res of
                       Inr u \<Rightarrow> finish_ok now i n1 outs s1
                     | Inl err \<Rightarrow> finish_err now i n1 err s1)))"

definition pool_state_of :: "pool \<Rightarrow> string \<Rightarrow> task_state option" where
  "pool_state_of s i = map_option nstate (nodes s i)"

end
