(* ===== verification/Pool_Graph.thy ===== *)
theory Pool_Graph
  imports Pool_Scheduler
begin

text \<open>
  The successor graph of the thread-pool scheduler: what recording an edge does, what the
  cycle guard decides, and what failure propagation does to the nodes it reaches.
\<close>

section \<open>Edges\<close>

definition edges :: "graph \<Rightarrow> (string \<times> string) set" where
  "edges g = {(a, b). b \<in> set (succs g a)}"

lemma succs_add_edge: "succs (add_edge k x g) j = succs g j @ (if j = k then [x] else [])"
  by (induction k x g rule: add_edge.induct) (auto simp: succs_def)

lemma edges_iff: "(a, b) \<in> edges g \<longleftrightarrow> b \<in> set (succs g a)"
  by (simp add: edges_def)

section \<open>The cycle guard decides reachability\<close>

lemma cycle_dfs_sound: "cycle_dfs g target vis stack \<Longrightarrow> \<exists>c \<in> set stack. (c, target) \<in> (edges g)\<^sup>*"
proof (induction g target vis stack rule: cycle_dfs.induct)
  case (1 g target vis)
  then show ?case by simp
next
  case (2 g target vis c stack)
  show ?case
  proof (cases "c = target \<or> c \<in> set vis")
    case True
    with 2 show ?thesis by (auto split: if_splits)
  next
    case False
    show ?thesis
    proof (cases "map_of g c")
      case None
      with False 2 show ?thesis by auto
    next
      case (Some ns)
      with False 2 obtain d where d: "d \<in> set (rev ns @ stack)" "(d, target) \<in> (edges g)\<^sup>*" by auto
      show ?thesis
      proof (cases "d \<in> set ns")
        case True
        with Some have "(c, d) \<in> edges g" by (simp add: edges_iff succs_def)
        with d(2) show ?thesis by (auto intro: converse_rtrancl_into_rtrancl)
      next
        case False
        with d show ?thesis by auto
      qed
    qed
  qed
qed

lemma cycle_dfs_complete:
  assumes "\<not> cycle_dfs g target vis stack" and "target \<notin> set vis"
    and "\<And>v y. v \<in> set vis \<Longrightarrow> (v, y) \<in> edges g \<Longrightarrow> y \<in> set vis \<union> set stack"
  shows "\<forall>c \<in> set vis \<union> set stack. (c, target) \<notin> (edges g)\<^sup>*"
  using assms
proof (induction g target vis stack rule: cycle_dfs.induct)
  case (1 g target vis)
  have closed: "y \<in> set vis" if "(x, y) \<in> (edges g)\<^sup>*" "x \<in> set vis" for x y
    using that 1(3) by (induction rule: rtrancl_induct) auto
  then show ?case using 1(2) by auto
next
  case (2 g target vis c stack)
  from 2(4) have ct: "c \<noteq> target" by auto
  show ?case
  proof (cases "c \<in> set vis")
    case True
    with 2(4) ct have "\<not> cycle_dfs g target vis stack" by simp
    with 2(1) [OF ct True this 2(5)] 2(6) True show ?thesis by auto
  next
    case False
    show ?thesis
    proof (cases "map_of g c")
      case None
      with 2(4) ct False have n: "\<not> cycle_dfs g target (c # vis) stack" by simp
      have "y \<in> set (c # vis) \<union> set stack" if "v \<in> set (c # vis)" "(v, y) \<in> edges g" for v y
        using that 2(6) None by (auto simp: edges_iff succs_def)
      with 2(2) [OF ct False None n] 2(5) ct show ?thesis by auto
    next
      case (Some ns)
      with 2(4) ct False have n: "\<not> cycle_dfs g target (c # vis) (rev ns @ stack)" by simp
      have "y \<in> set (c # vis) \<union> set (rev ns @ stack)" if "v \<in> set (c # vis)" "(v, y) \<in> edges g" for v y
        using that 2(6) Some by (auto simp: edges_iff succs_def)
      with 2(3) [OF ct False Some n] 2(5) ct show ?thesis by auto
    qed
  qed
qed

lemma creates_cycle_reach:
  "creates_cycle g i ds \<longleftrightarrow> (\<exists>d \<in> set ds. (d, i) \<in> (edges g)\<^sup>*)"
  using cycle_dfs_sound [of g i "[]" "rev ds"] cycle_dfs_complete [of g i "[]" "rev ds"]
  by (auto simp: creates_cycle_def)

section \<open>What propagation changes\<close>

text \<open>
  A node that propagation reaches alive is canceled in place; everything else keeps its node. The
  relation is reflexive and transitive, so it describes one visit, a loop and the whole search.
\<close>

definition dep_canceled :: "int \<Rightarrow> node \<Rightarrow> node \<Rightarrow> bool" where
  "dep_canceled now n n' \<longleftrightarrow> \<not> is_terminal (nstate n) \<and>
     (\<exists>cur. n' = n\<lparr>ntask := apply_transition now ((ntask n)\<lparr>terror := Some (err_ancestor cur)\<rparr>) Canceled\<rparr>)"

definition prop_rel :: "int \<Rightarrow> pool \<Rightarrow> pool \<Rightarrow> bool" where
  "prop_rel now s s' \<longleftrightarrow>
     config s' = config s \<and> stopping s' = stopping s \<and> node_order s' = node_order s \<and>
     successors s' = successors s \<and> running_set s' = running_set s \<and> in_use s' = in_use s \<and>
     pool_callbacks s' = pool_callbacks s \<and>
     (\<forall>i. nodes s' i = nodes s i \<or>
          (\<exists>n n'. nodes s i = Some n \<and> nodes s' i = Some n' \<and> dep_canceled now n n')) \<and>
     (distinct (ready_set s) \<longrightarrow> distinct (ready_set s') \<and>
        (\<forall>i. i \<in> set (ready_set s') \<longleftrightarrow>
              i \<in> set (ready_set s) \<and>
              (nodes s' i = nodes s i \<or> (\<forall>n. nodes s i = Some n \<longrightarrow> nstate n \<noteq> Ready))))"

lemma dep_canceled_fields:
  assumes "dep_canceled now n n'"
  shows "nstate n' = Canceled" "task_id (ntask n') = task_id (ntask n)"
    "demand (ntask n') = demand (ntask n)" "deps (ntask n') = deps (ntask n)"
    "nrunning n' = nrunning n" "unmet_deps n' = unmet_deps n" "last_outputs n' = last_outputs n"
    "\<not> is_terminal (nstate n)" "cancel_token (ntask n') = cancel_token (ntask n)" "n' \<noteq> n"
    "task_wf (ntask n) \<Longrightarrow> task_wf (ntask n')" "terror (ntask n') \<noteq> None"
proof -
  from assms obtain cur where live: "\<not> is_terminal (nstate n)"
    and n': "n' = n\<lparr>ntask := apply_transition now ((ntask n)\<lparr>terror := Some (err_ancestor cur)\<rparr>) Canceled\<rparr>"
    by (auto simp: dep_canceled_def)
  let ?t = "(ntask n)\<lparr>terror := Some (err_ancestor cur)\<rparr>"
  have "tstate ?t \<noteq> Failed" using live by auto
  then show "nstate n' = Canceled" "task_id (ntask n') = task_id (ntask n)"
    "demand (ntask n') = demand (ntask n)" "deps (ntask n') = deps (ntask n)"
    "nrunning n' = nrunning n" "unmet_deps n' = unmet_deps n" "last_outputs n' = last_outputs n"
    "\<not> is_terminal (nstate n)" "cancel_token (ntask n') = cancel_token (ntask n)"
    "terror (ntask n') \<noteq> None"
    using live by (simp_all add: n')
  show "n' \<noteq> n" using live \<open>nstate n' = Canceled\<close> by auto
  assume "task_wf (ntask n)"
  then have "task_wf ?t" by (simp add: task_wf_def)
  then show "task_wf (ntask n')" using live by (simp add: n' task_wf_apply legal_cancel)
qed

lemma prop_rel_refl [simp]: "prop_rel now s s"
  by (simp add: prop_rel_def)

lemma prop_rel_nodes:
  "prop_rel now s s' \<Longrightarrow> nodes s' i = nodes s i \<or>
     (\<exists>n n'. nodes s i = Some n \<and> nodes s' i = Some n' \<and> dep_canceled now n n')"
  by (simp add: prop_rel_def)

lemma prop_rel_None: "prop_rel now s s' \<Longrightarrow> nodes s' i = None \<longleftrightarrow> nodes s i = None"
  using prop_rel_nodes [of now s s' i] by auto

lemma prop_rel_terminal:
  "prop_rel now s s' \<Longrightarrow> nodes s i = Some n \<Longrightarrow> is_terminal (nstate n) \<Longrightarrow> nodes s' i = Some n"
  using prop_rel_nodes [of now s s' i] by (auto simp: dep_canceled_def)

lemma prop_rel_trans:
  assumes ab: "prop_rel now a b" and bc: "prop_rel now b c"
  shows "prop_rel now a c"
proof -
  have nodes: "nodes c i = nodes a i \<or>
      (\<exists>n n'. nodes a i = Some n \<and> nodes c i = Some n' \<and> dep_canceled now n n')" for i
  proof (cases "nodes b i = nodes a i")
    case True
    with prop_rel_nodes [OF bc, of i] show ?thesis by simp
  next
    case False
    with prop_rel_nodes [OF ab, of i] obtain n n' where n: "nodes a i = Some n" "nodes b i = Some n'"
      "dep_canceled now n n'" by auto
    with dep_canceled_fields(1) [OF n(3)] prop_rel_terminal [OF bc n(2)] show ?thesis by auto
  qed
  have ready: "distinct (ready_set c) \<and> (\<forall>i. i \<in> set (ready_set c) \<longleftrightarrow> i \<in> set (ready_set a) \<and>
      (nodes c i = nodes a i \<or> (\<forall>n. nodes a i = Some n \<longrightarrow> nstate n \<noteq> Ready)))"
    if d: "distinct (ready_set a)"
  proof -
    have db: "distinct (ready_set b)" and rb: "\<And>i. i \<in> set (ready_set b) \<longleftrightarrow> i \<in> set (ready_set a) \<and>
        (nodes b i = nodes a i \<or> (\<forall>n. nodes a i = Some n \<longrightarrow> nstate n \<noteq> Ready))"
      using ab d by (auto simp: prop_rel_def)
    have dc: "distinct (ready_set c)" and rc: "\<And>i. i \<in> set (ready_set c) \<longleftrightarrow> i \<in> set (ready_set b) \<and>
        (nodes c i = nodes b i \<or> (\<forall>n. nodes b i = Some n \<longrightarrow> nstate n \<noteq> Ready))"
      using bc db by (auto simp: prop_rel_def)
    have "i \<in> set (ready_set c) \<longleftrightarrow> i \<in> set (ready_set a) \<and>
        (nodes c i = nodes a i \<or> (\<forall>n. nodes a i = Some n \<longrightarrow> nstate n \<noteq> Ready))" for i
    proof (cases "nodes b i = nodes a i")
      case True
      then show ?thesis by (simp add: rc rb)
    next
      case False
      with prop_rel_nodes [OF ab, of i] obtain n n' where n: "nodes a i = Some n" "nodes b i = Some n'"
        "dep_canceled now n n'" by auto
      then have "nodes c i = Some n'" "n' \<noteq> n" "nstate n' \<noteq> Ready"
        using prop_rel_terminal [OF bc n(2)] dep_canceled_fields [OF n(3)] by auto
      with n show ?thesis by (simp add: rc rb)
    qed
    with dc show ?thesis by blast
  qed
  show ?thesis
    using ab bc nodes ready by (simp add: prop_rel_def)
qed

lemma prop_rel_touch:
  assumes n: "nodes s x = Some n" and t: "touch_dependent now cur x n s = (s', evs)"
  shows "prop_rel now s s'"
proof (cases "is_terminal (nstate n)")
  case True
  with t show ?thesis by (simp add: touch_dependent_def)
next
  case False
  let ?t = "(ntask n)\<lparr>terror := Some (err_ancestor cur)\<rparr>"
  let ?n' = "n\<lparr>ntask := apply_transition now ?t Canceled\<rparr>"
  from False t have s': "s' = put_node x ?n' (s\<lparr>pool_heap := cancel_opt (pool_heap s) (cancel_token (ntask n)),
      ready_set := (if nstate n = Ready then remove1 x (ready_set s) else ready_set s)\<rparr>)"
    by (auto simp: touch_dependent_def cancel_dependent_def Let_def transition_to_def legal_cancel)
  have dc: "dep_canceled now n ?n'"
    using False by (auto simp: dep_canceled_def)
  then have "?n' \<noteq> n" by (rule dep_canceled_fields(10))
  with dc show ?thesis
    using n unfolding s' prop_rel_def put_node_def by auto
qed

lemma prop_rel_visit:
  "visit_succs now cur xs s vis = (s', vis', push, evs) \<Longrightarrow> prop_rel now s s'"
  by (induction rule: visit_succs_induct) (auto intro: prop_rel_touch prop_rel_trans)

lemma propagate_loop_induct [consumes 1, case_names Nil Leaf Node]:
  assumes "propagate_loop now s vis stack = (s', evs)"
    and "\<And>s vis. P s vis [] s []"
    and "\<And>s vis c stack s' evs. map_of (successors s) c = None \<Longrightarrow> P s vis stack s' evs \<Longrightarrow>
           P s vis (c # stack) s' evs"
    and "\<And>s vis c stack xs s1 vis1 push ev1 s' ev2. map_of (successors s) c = Some xs \<Longrightarrow>
           visit_succs now c xs s vis = (s1, vis1, push, ev1) \<Longrightarrow>
           P s1 vis1 (rev push @ stack) s' ev2 \<Longrightarrow> P s vis (c # stack) s' (ev1 @ ev2)"
  shows "P s vis stack s' evs"
  using assms
proof (induction now s vis stack arbitrary: s' evs rule: propagate_loop.induct)
  case (1 now s vis)
  then show ?case by simp
next
  case (2 now s vis c stack)
  note prems = 2(3) and rules = 2(4,5,6)
  show ?case
  proof (cases "map_of (successors s) c")
    case None
    with prems have "propagate_loop now s vis stack = (s', evs)" by simp
    from 2(1) [OF None this rules] show ?thesis by (rule rules(2) [OF None])
  next
    case (Some xs)
    obtain s1 vis1 push ev1 where v: "visit_succs now c xs s vis = (s1, vis1, push, ev1)"
      by (metis prod_cases4)
    obtain s2 ev2 where l: "propagate_loop now s1 vis1 (rev push @ stack) = (s2, ev2)" by fastforce
    from 2(2) [OF Some v [symmetric] refl refl l rules]
    have "P s1 vis1 (rev push @ stack) s2 ev2" .
    from rules(3) [OF Some v this] have "P s vis (c # stack) s2 (ev1 @ ev2)" .
    moreover have "s' = s2" "evs = ev1 @ ev2" using prems Some v l by simp_all
    ultimately show ?thesis by simp
  qed
qed

lemma prop_rel_propagate_loop:
  "propagate_loop now s vis stack = (s', evs) \<Longrightarrow> prop_rel now s s'"
  by (induction rule: propagate_loop_induct) (auto intro: prop_rel_visit prop_rel_trans)

lemma prop_rel_propagate: "propagate now i s = (s', evs) \<Longrightarrow> prop_rel now s s'"
  unfolding propagate_def by (rule prop_rel_propagate_loop)

section \<open>Propagation is complete\<close>

text \<open>The nodes that hang on \<open>a\<close>: reached by edges through tasks the scheduler knows.\<close>

inductive descends :: "pool \<Rightarrow> string \<Rightarrow> string \<Rightarrow> bool" for s a where
  child: "b \<in> set (succs (successors s) a) \<Longrightarrow> nodes s b \<noteq> None \<Longrightarrow> descends s a b"
| further: "descends s a b \<Longrightarrow> c \<in> set (succs (successors s) b) \<Longrightarrow> nodes s c \<noteq> None \<Longrightarrow> descends s a c"

definition node_terminal :: "pool \<Rightarrow> string \<Rightarrow> bool" where
  "node_terminal s i \<longleftrightarrow> (\<forall>n. nodes s i = Some n \<longrightarrow> is_terminal (nstate n))"

lemma prop_rel_node_terminal:
  "prop_rel now s s' \<Longrightarrow> node_terminal s i \<Longrightarrow> node_terminal s' i"
  using prop_rel_nodes [of now s s' i] by (auto simp: node_terminal_def dest: dep_canceled_fields)

lemma touch_node_terminal:
  assumes "nodes s x = Some n" "touch_dependent now cur x n s = (s', evs)"
  shows "node_terminal s' x"
proof (cases "is_terminal (nstate n)")
  case True
  with assms show ?thesis by (simp add: touch_dependent_def node_terminal_def)
next
  case False
  with assms show ?thesis
    by (auto simp: touch_dependent_def cancel_dependent_def Let_def transition_to_def legal_cancel
        node_terminal_def put_node_def)
qed

lemma visit_succs_marks:
  "visit_succs now cur xs s vis = (s', vis', push, evs) \<Longrightarrow>
     prop_rel now s s' \<and>
     (\<forall>x \<in> set xs - set vis. node_terminal s' x \<and> (nodes s x \<noteq> None \<longrightarrow> x \<in> set push))"
proof (induction rule: visit_succs_induct)
  case (Nil s vis)
  then show ?case by simp
next
  case (Visited x xs s vis s' vis' push evs)
  then show ?case by auto
next
  case (Dangling x xs s vis s' vis' push evs)
  then have "node_terminal s' x" using prop_rel_None [of now s s' x] by (simp add: node_terminal_def)
  with Dangling show ?case by auto
next
  case (Node x n xs s vis s1 ev1 s' vis' push evs)
  have r1: "prop_rel now s s1" using Node(2,3) by (rule prop_rel_touch)
  with Node(4) have r: "prop_rel now s s'" by (blast intro: prop_rel_trans)
  have "node_terminal s' x"
    using touch_node_terminal [OF Node(2,3)] Node(4) prop_rel_node_terminal by blast
  with Node(4) r prop_rel_None [OF r1] show ?case by auto
qed

lemma propagate_loop_closed:
  "propagate_loop now s vis stack = (s', evs) \<Longrightarrow>
     (\<forall>x \<in> set vis. node_terminal s x \<and>
        (nodes s x \<noteq> None \<longrightarrow> x \<in> set stack \<or> set (succs (successors s) x) \<subseteq> set vis)) \<longrightarrow>
     (\<exists>V. set vis \<subseteq> V \<and>
        (\<forall>x \<in> V. node_terminal s' x \<and> (nodes s x \<noteq> None \<longrightarrow> set (succs (successors s) x) \<subseteq> V)) \<and>
        (\<forall>c \<in> set stack. set (succs (successors s) c) \<subseteq> V))"
proof (induction rule: propagate_loop_induct)
  case (Nil s vis)
  then show ?case by (intro impI exI [of _ "set vis"]) auto
next
  case (Leaf s vis c stack s' evs)
  then have c: "succs (successors s) c = []" by (simp add: succs_def)
  show ?case
  proof
    assume "\<forall>x \<in> set vis. node_terminal s x \<and>
      (nodes s x \<noteq> None \<longrightarrow> x \<in> set (c # stack) \<or> set (succs (successors s) x) \<subseteq> set vis)"
    with c have "\<forall>x \<in> set vis. node_terminal s x \<and>
      (nodes s x \<noteq> None \<longrightarrow> x \<in> set stack \<or> set (succs (successors s) x) \<subseteq> set vis)" by auto
    with Leaf(2) obtain V where "set vis \<subseteq> V"
      "\<forall>x \<in> V. node_terminal s' x \<and> (nodes s x \<noteq> None \<longrightarrow> set (succs (successors s) x) \<subseteq> V)"
      "\<forall>d \<in> set stack. set (succs (successors s) d) \<subseteq> V" by blast
    with c show "\<exists>V. set vis \<subseteq> V \<and>
        (\<forall>x \<in> V. node_terminal s' x \<and> (nodes s x \<noteq> None \<longrightarrow> set (succs (successors s) x) \<subseteq> V)) \<and>
        (\<forall>d \<in> set (c # stack). set (succs (successors s) d) \<subseteq> V)"
      by (intro exI [of _ V]) simp
  qed
next
  case (Node s vis c stack xs s1 vis1 push ev1 s' ev2)
  have c: "succs (successors s) c = xs" using Node(1) by (simp add: succs_def)
  have fr: "successors s1 = successors s" "set vis1 = set vis \<union> set xs"
    using visit_succs_frame [OF Node(2)] by auto
  have mk: "prop_rel now s s1"
    "\<And>x. x \<in> set xs - set vis \<Longrightarrow> node_terminal s1 x \<and> (nodes s x \<noteq> None \<longrightarrow> x \<in> set push)"
    using visit_succs_marks [OF Node(2)] by auto
  have known: "nodes s1 x = None \<longleftrightarrow> nodes s x = None" for x by (rule prop_rel_None [OF mk(1)])
  show ?case
  proof
    assume inv: "\<forall>x \<in> set vis. node_terminal s x \<and>
      (nodes s x \<noteq> None \<longrightarrow> x \<in> set (c # stack) \<or> set (succs (successors s) x) \<subseteq> set vis)"
    have "node_terminal s1 x \<and> (nodes s1 x \<noteq> None \<longrightarrow>
        x \<in> set (rev push @ stack) \<or> set (succs (successors s1) x) \<subseteq> set vis1)"
      if "x \<in> set vis1" for x
    proof (cases "x \<in> set vis")
      case True
      with inv c fr known prop_rel_node_terminal [OF mk(1)] show ?thesis by auto
    next
      case False
      with that fr have "x \<in> set xs - set vis" by simp
      with mk(2) known show ?thesis by auto
    qed
    with Node(3) obtain V where V: "set vis1 \<subseteq> V"
      "\<forall>x \<in> V. node_terminal s' x \<and> (nodes s1 x \<noteq> None \<longrightarrow> set (succs (successors s1) x) \<subseteq> V)"
      "\<forall>d \<in> set (rev push @ stack). set (succs (successors s1) d) \<subseteq> V" by blast
    with c fr known
    show "\<exists>V. set vis \<subseteq> V \<and>
        (\<forall>x \<in> V. node_terminal s' x \<and> (nodes s x \<noteq> None \<longrightarrow> set (succs (successors s) x) \<subseteq> V)) \<and>
        (\<forall>d \<in> set (c # stack). set (succs (successors s) d) \<subseteq> V)"
      by (intro exI [of _ V]) auto
  qed
qed

lemma propagate_terminal:
  assumes p: "propagate now i s = (s', evs)" and d: "descends s i j"
  shows "\<exists>n. nodes s' j = Some n \<and> is_terminal (nstate n)"
proof -
  have "propagate_loop now s [] [i] = (s', evs)" using p by (simp only: propagate_def)
  from propagate_loop_closed [OF this] obtain V where
    V: "\<forall>x \<in> V. node_terminal s' x \<and> (nodes s x \<noteq> None \<longrightarrow> set (succs (successors s) x) \<subseteq> V)"
      "set (succs (successors s) i) \<subseteq> V" by auto
  from d have "j \<in> V \<and> nodes s j \<noteq> None"
    by (induction rule: descends.induct) (use V in auto)
  with V(1) prop_rel_None [OF prop_rel_propagate [OF p], of j] show ?thesis
    by (auto simp: node_terminal_def)
qed

text \<open>The events of a propagation are the cancellations it made, each task once.\<close>

definition cancel_events :: "pool \<Rightarrow> pool \<Rightarrow> state_event list \<Rightarrow> bool" where
  "cancel_events s s' evs \<longleftrightarrow> distinct (map ev_task evs) \<and>
     (\<forall>ev \<in> set evs. ev_state ev = Canceled) \<and>
     ev_task ` set evs = {i. nodes s' i \<noteq> nodes s i}"

lemma cancel_events_refl [simp]: "cancel_events s s []"
  by (simp add: cancel_events_def)

lemma cancel_events_trans:
  assumes ab: "prop_rel now a b" "cancel_events a b e1" and bc: "prop_rel now b c" "cancel_events b c e2"
  shows "cancel_events a c (e1 @ e2)"
proof -
  have once: "nodes c i = nodes b i" if "nodes b i \<noteq> nodes a i" for i
  proof -
    from prop_rel_nodes [OF ab(1), of i] that obtain n n' where "nodes b i = Some n'"
      "dep_canceled now n n'" by auto
    with dep_canceled_fields(1) prop_rel_terminal [OF bc(1)] show ?thesis by fastforce
  qed
  have later: "nodes c i \<noteq> nodes a i" if ch: "nodes c i \<noteq> nodes b i" for i
  proof -
    from once ch have "nodes b i = nodes a i" by blast
    with ch show ?thesis by simp
  qed
  have sets: "{i. nodes c i \<noteq> nodes a i} = {i. nodes b i \<noteq> nodes a i} \<union> {i. nodes c i \<noteq> nodes b i}"
    using once later by auto
  have "{i. nodes b i \<noteq> nodes a i} \<inter> {i. nodes c i \<noteq> nodes b i} = {}"
    using once by auto
  with ab(2) bc(2) have "set (map ev_task e1) \<inter> set (map ev_task e2) = {}"
    by (simp add: cancel_events_def)
  with ab(2) bc(2) sets show ?thesis
    by (auto simp: cancel_events_def)
qed

lemma cancel_events_touch:
  assumes n: "nodes s x = Some n" and t: "touch_dependent now cur x n s = (s', evs)"
  shows "cancel_events s s' evs"
proof (cases "is_terminal (nstate n)")
  case True
  with t show ?thesis by (simp add: touch_dependent_def)
next
  case False
  let ?t = "(ntask n)\<lparr>terror := Some (err_ancestor cur)\<rparr>"
  let ?n' = "n\<lparr>ntask := apply_transition now ?t Canceled\<rparr>"
  have "dep_canceled now n ?n'" using False by (auto simp: dep_canceled_def)
  then have "?n' \<noteq> n" by (rule dep_canceled_fields(10))
  with False t n show ?thesis
    by (auto simp: touch_dependent_def cancel_dependent_def Let_def transition_to_def legal_cancel
        cancel_events_def put_node_def split: if_splits)
qed

lemma cancel_events_visit:
  "visit_succs now cur xs s vis = (s', vis', push, evs) \<Longrightarrow>
     prop_rel now s s' \<and> cancel_events s s' evs"
  by (induction rule: visit_succs_induct)
     (auto intro: prop_rel_touch prop_rel_trans cancel_events_touch cancel_events_trans)

lemma cancel_events_propagate_loop:
  "propagate_loop now s vis stack = (s', evs) \<Longrightarrow> prop_rel now s s' \<and> cancel_events s s' evs"
proof (induction rule: propagate_loop_induct)
  case (Node s vis c stack xs s1 vis1 push ev1 s' ev2)
  from cancel_events_visit [OF Node(2)] Node(3) show ?case
    by (blast intro: prop_rel_trans cancel_events_trans)
qed auto

lemma propagate_events: "propagate now i s = (s', evs) \<Longrightarrow> cancel_events s s' evs"
  unfolding propagate_def using cancel_events_propagate_loop by blast

end
