(* ===== verification/Pool_Select.thy ===== *)
theory Pool_Select
  imports Pool_Graph
begin

text \<open>
  Candidate selection of the thread-pool scheduler: \<open>pick_candidate\<close> is two selections over the
  eligible candidates, among those that fit the soft budget and among those that do not. The
  comparison is a strict weak order that is total on the candidates of one state, so the choice
  does not depend on the iteration order of the hash set.
\<close>

section \<open>The eligible candidates\<close>

definition eligible :: "int \<Rightarrow> pool \<Rightarrow> string \<Rightarrow> candidate option" where
  "eligible now s i =
     (case nodes s i of
        None \<Rightarrow> None
      | Some n \<Rightarrow> if nstate n = Ready \<and> fits_cpu_hard s (demand (ntask n))
                  then Some (mk_candidate now s i n) else None)"

definition candidates :: "int \<Rightarrow> pool \<Rightarrow> string list \<Rightarrow> candidate list" where
  "candidates now s is = List.map_filter (eligible now s) is"

lemma eligible_Some:
  "eligible now s i = Some c \<longleftrightarrow>
     (\<exists>n. nodes s i = Some n \<and> nstate n = Ready \<and> fits_cpu_hard s (demand (ntask n)) \<and>
          c = mk_candidate now s i n)"
  by (auto simp: eligible_def split: option.splits if_splits)

lemma eligible_id: "eligible now s i = Some c \<Longrightarrow> cand_id c = i"
  by (auto simp: eligible_Some mk_candidate_def)

lemma set_candidates: "c \<in> set (candidates now s is) \<longleftrightarrow> (\<exists>i \<in> set is. eligible now s i = Some c)"
  by (force simp: candidates_def List.map_filter_def)

lemma improves_fold:
  "fold_best better_than (if improves c b then Some c else b) xs = fold_best better_than b (c # xs)"
  by (cases b) auto

lemma pick_loop_fold:
  "pick_loop now s is bf bo =
     (fold_best better_than bf (filter soft_fit (candidates now s is)),
      fold_best better_than bo (filter (\<lambda>c. \<not> soft_fit c) (candidates now s is)))"
proof (induction "is" arbitrary: bf bo)
  case Nil
  then show ?case by (simp add: candidates_def map_filter_simps)
next
  case (Cons i "is")
  show ?case
  proof (cases "eligible now s i")
    case None
    then have "pick_loop now s (i # is) bf bo = pick_loop now s is bf bo"
      by (auto simp: eligible_def split: option.splits if_splits)
    with None Cons.IH show ?thesis by (simp add: candidates_def map_filter_simps)
  next
    case (Some c)
    then obtain n where n: "nodes s i = Some n" "nstate n = Ready" "fits_cpu_hard s (demand (ntask n))"
      "c = mk_candidate now s i n" by (auto simp: eligible_Some)
    have cs: "candidates now s (i # is) = c # candidates now s is"
      using Some by (simp add: candidates_def map_filter_simps)
    show ?thesis
      using n Cons.IH improves_fold by (simp add: cs Let_def)
  qed
qed

interpretation candidate_order: strict_weak better_than
  by unfold_locales (auto simp: better_than_def split: if_splits)

lemma candidates_total:
  assumes "a \<in> set (candidates now s is)" "b \<in> set (candidates now s is)"
    and "\<not> better_than a b" "\<not> better_than b a"
  shows "a = b"
proof -
  have "cand_id a = cand_id b" using assms(3,4) by (auto simp: better_than_def split: if_splits)
  with assms(1,2) show ?thesis by (metis eligible_id option.inject set_candidates)
qed

section \<open>What is picked\<close>

definition pick_fit :: "int \<Rightarrow> pool \<Rightarrow> candidate option" where
  "pick_fit now s = fold_best better_than None (filter soft_fit (candidates now s (ready_set s)))"

definition pick_over :: "int \<Rightarrow> pool \<Rightarrow> candidate option" where
  "pick_over now s = fold_best better_than None
     (filter (\<lambda>c. \<not> soft_fit c) (candidates now s (ready_set s)))"

lemma pick_candidate_eq:
  "pick_candidate now s esc =
     (if pick_fit now s \<noteq> None then pick_fit now s
      else if esc \<and> running_set s = [] then pick_over now s else None)"
  by (auto simp: pick_candidate_def pick_loop_fold pick_fit_def pick_over_def split: option.splits)

lemma pick_candidate_Some:
  assumes "pick_candidate now s esc = Some c"
  shows "cand_id c \<in> set (ready_set s)" "eligible now s (cand_id c) = Some c"
    "soft_fit c \<or> (esc \<and> running_set s = [])"
    "i \<in> set (ready_set s) \<Longrightarrow> eligible now s i = Some d \<Longrightarrow> soft_fit d \<Longrightarrow>
       soft_fit c \<and> \<not> better_than d c"
    "i \<in> set (ready_set s) \<Longrightarrow> eligible now s i = Some d \<Longrightarrow> soft_fit d = soft_fit c \<Longrightarrow>
       \<not> better_than d c"
proof -
  let ?cs = "candidates now s (ready_set s)"
  consider (fit) "pick_fit now s = Some c"
    | (over) "pick_fit now s = None" "pick_over now s = Some c" "esc" "running_set s = []"
    using assms by (auto simp: pick_candidate_eq split: if_splits)
  then have "c \<in> set ?cs \<and> (soft_fit c \<or> (esc \<and> running_set s = [])) \<and>
      (\<forall>d \<in> set ?cs. (soft_fit d \<longrightarrow> soft_fit c \<and> \<not> better_than d c) \<and>
                     (soft_fit d = soft_fit c \<longrightarrow> \<not> better_than d c))"
  proof cases
    case fit
    then have f: "fold_best better_than None (filter soft_fit ?cs) = Some c" by (simp add: pick_fit_def)
    from candidate_order.fold_best_in [OF f] candidate_order.fold_best_max [OF f]
    show ?thesis by auto
  next
    case over
    then have f: "fold_best better_than None (filter (\<lambda>c. \<not> soft_fit c) ?cs) = Some c"
      and none: "filter soft_fit ?cs = []" by (simp_all add: pick_over_def pick_fit_def)
    from candidate_order.fold_best_in [OF f] candidate_order.fold_best_max [OF f] none over(3,4)
    show ?thesis by (auto simp: filter_empty_conv)
  qed
  then have c: "c \<in> set ?cs" "soft_fit c \<or> (esc \<and> running_set s = [])"
    "\<And>d. d \<in> set ?cs \<Longrightarrow> (soft_fit d \<longrightarrow> soft_fit c \<and> \<not> better_than d c) \<and>
                     (soft_fit d = soft_fit c \<longrightarrow> \<not> better_than d c)" by auto
  then obtain j where "j \<in> set (ready_set s)" "eligible now s j = Some c" by (auto simp: set_candidates)
  then show "cand_id c \<in> set (ready_set s)" "eligible now s (cand_id c) = Some c"
    using eligible_id by auto
  show "soft_fit c \<or> (esc \<and> running_set s = [])" by (rule c(2))
  show "soft_fit c \<and> \<not> better_than d c"
    if "i \<in> set (ready_set s)" "eligible now s i = Some d" "soft_fit d"
    using c(3) that by (auto simp: set_candidates)
  show "\<not> better_than d c"
    if "i \<in> set (ready_set s)" "eligible now s i = Some d" "soft_fit d = soft_fit c"
    using c(3) that by (auto simp: set_candidates)
qed

lemma pick_candidate_None:
  assumes "pick_candidate now s True = None" and "i \<in> set (ready_set s)" "eligible now s i = Some c"
  shows "\<not> soft_fit c \<and> running_set s \<noteq> []"
proof -
  have "c \<in> set (candidates now s (ready_set s))" using assms(2,3) by (auto simp: set_candidates)
  with assms(1) show ?thesis
    by (auto simp: pick_candidate_eq pick_fit_def pick_over_def filter_empty_conv split: if_splits)
qed

text \<open>The order in which the hash set is walked does not matter.\<close>

lemma candidates_frame:
  "candidates now (s\<lparr>ready_set := r\<rparr>) is = candidates now s is"
proof -
  have "eligible now (s\<lparr>ready_set := r\<rparr>) = eligible now s"
    by (intro ext) (simp add: eligible_def mk_candidate_def fits_cpu_hard_def fits_soft_def
        split: option.splits)
  then show ?thesis by (simp add: candidates_def)
qed

lemma pick_order_independent:
  assumes "set r1 = set r2"
  shows "pick_candidate now (s\<lparr>ready_set := r1\<rparr>) esc = pick_candidate now (s\<lparr>ready_set := r2\<rparr>) esc"
proof -
  have sets: "set (candidates now s r1) = set (candidates now s r2)"
    using assms by (auto simp: set_candidates)
  have "fold_best better_than None (filter P (candidates now s r1)) =
        fold_best better_than None (filter P (candidates now s r2))" for P
    using sets candidates_total
    by (intro candidate_order.fold_best_order_independent) auto
  then show ?thesis
    by (simp add: pick_candidate_eq pick_fit_def pick_over_def candidates_frame)
qed

section \<open>The aging score\<close>

text \<open>
  The score is computed in 64 bits. As long as the boost stays below \<open>2 ^ 62\<close> it is exact, and
  it grows with the waiting time.
\<close>

lemma aging_score_exact:
  assumes "since \<le> now" "0 < interval_ms a" "0 \<le> boost_per_interval a"
    and "\<bar>prio\<bar> \<le> INT_MAX" "((now - since) div 1000000 div interval_ms a) * boost_per_interval a \<le> 2 ^ 62"
  shows "aging_score a now since prio =
    prio + ((now - since) div 1000000 div interval_ms a) * boost_per_interval a"
proof -
  have q: "(now - since) sdiv 1000000 sdiv max 1 (interval_ms a) = (now - since) div 1000000 div interval_ms a"
    using assms(1,2) by (simp add: signed_divide_int_def sgn_if max_def pos_imp_zdiv_nonneg_iff)
  have nn: "0 \<le> ((now - since) div 1000000 div interval_ms a) * boost_per_interval a"
    using assms(1-3) by (simp add: pos_imp_zdiv_nonneg_iff)
  show ?thesis
    unfolding aging_score_def Let_def q
    using nn assms(4,5) by (simp add: i64_id INT_MAX_def)
qed

lemma aging_score_mono_wait:
  assumes "since \<le> now" "now \<le> later" "0 < interval_ms a" "0 \<le> boost_per_interval a"
    and "\<bar>prio\<bar> \<le> INT_MAX" "((later - since) div 1000000 div interval_ms a) * boost_per_interval a \<le> 2 ^ 62"
  shows "aging_score a now since prio \<le> aging_score a later since prio"
proof -
  have "((now - since) div 1000000 div interval_ms a) * boost_per_interval a
      \<le> ((later - since) div 1000000 div interval_ms a) * boost_per_interval a"
    using assms(1-4) by (intro mult_right_mono zdiv_mono1) auto
  with assms aging_score_exact [of since now a prio] aging_score_exact [of since later a prio]
  show ?thesis by simp
qed

end
