(* ===== verification/Pool_Invariant.thy ===== *)
theory Pool_Invariant
  imports Pool_Select
begin

text \<open>
  The invariants of \<open>ThreadPoolScheduler\<close>: the index of tasks, what the ready and running sets
  contain, the resource accounting, and the counting of unmet dependencies. Most operations change
  one node at a time without starting or finishing an execution; they are \<open>calm\<close>, and one lemma
  per invariant covers them all.
\<close>

section \<open>The parts of the invariant\<close>

definition demand_ok :: "scheduler_config \<Rightarrow> resource_demand \<Rightarrow> bool" where
  "demand_ok c d \<longleftrightarrow> 1 \<le> cpu_slots d \<and> cpu_slots d \<le> cpu_slots_hard (resource_budget c) \<and>
     0 \<le> ram_mb d \<and> ram_mb d * worker_count c \<le> INT_MAX \<and>
     0 \<le> vram_mb d \<and> vram_mb d * worker_count c \<le> INT_MAX"

definition config_ok :: "scheduler_config \<Rightarrow> bool" where
  "config_ok c \<longleftrightarrow> 0 < worker_count c \<and> 0 < cpu_slots_hard (resource_budget c) \<and>
     2 * cpu_slots_hard (resource_budget c) \<le> INT_MAX \<and>
     0 \<le> ram_soft_mb (resource_budget c) \<and> 0 \<le> vram_soft_mb (resource_budget c)"

definition wf_index :: "pool \<Rightarrow> bool" where
  "wf_index s \<longleftrightarrow> distinct (node_order s) \<and> set (node_order s) = dom (nodes s) \<and>
     (\<forall>i n. nodes s i = Some n \<longrightarrow> task_id (ntask n) = i)"

text \<open>A node is in \<open>running_set\<close> from its dispatch to the end of the stage, canceled or not.\<close>

definition exec_ok :: "node \<Rightarrow> bool" where
  "exec_ok n \<longleftrightarrow>
     (nstate n = Running \<longrightarrow> nrunning n) \<and>
     (nrunning n \<longrightarrow> nstate n = Running \<or> nstate n = Paused \<or> nstate n = Canceled) \<and>
     (nstate n = Paused \<longrightarrow> (nrunning n \<longleftrightarrow> paused_from (ntask n) = Some Running))"

definition node_ok :: "scheduler_config \<Rightarrow> node \<Rightarrow> bool" where
  "node_ok c n \<longleftrightarrow> task_wf (ntask n) \<and> exec_ok n \<and> demand_ok c (demand (ntask n))"

definition wf_nodes :: "pool \<Rightarrow> bool" where
  "wf_nodes s \<longleftrightarrow> (\<forall>i n. nodes s i = Some n \<longrightarrow> node_ok (config s) n)"

definition wf_ready :: "pool \<Rightarrow> bool" where
  "wf_ready s \<longleftrightarrow> distinct (ready_set s) \<and>
     (\<forall>i. i \<in> set (ready_set s) \<longleftrightarrow> (\<exists>n. nodes s i = Some n \<and> nstate n = Ready))"

definition wf_running :: "pool \<Rightarrow> bool" where
  "wf_running s \<longleftrightarrow> distinct (running_set s) \<and>
     (\<forall>i. i \<in> set (running_set s) \<longleftrightarrow> (\<exists>n. nodes s i = Some n \<and> nrunning n))"

definition node_demand :: "pool \<Rightarrow> string \<Rightarrow> resource_demand" where
  "node_demand s i = (case nodes s i of None \<Rightarrow> default_demand | Some n \<Rightarrow> demand (ntask n))"

definition wf_usage :: "pool \<Rightarrow> bool" where
  "wf_usage s \<longleftrightarrow>
     used_cpu (in_use s) = sum_list (map (\<lambda>i. cpu_slots (node_demand s i)) (running_set s)) \<and>
     used_ram (in_use s) = sum_list (map (\<lambda>i. ram_mb (node_demand s i)) (running_set s)) \<and>
     used_vram (in_use s) = sum_list (map (\<lambda>i. vram_mb (node_demand s i)) (running_set s))"

definition within_budget :: "pool \<Rightarrow> bool" where
  "within_budget s \<longleftrightarrow>
     used_cpu (in_use s) \<le> cpu_slots_hard (budget s) \<and>
     int (length (running_set s)) \<le> worker_count (config s) \<and>
     (1 < length (running_set s) \<longrightarrow>
        (ram_soft_mb (budget s) = 0 \<or> used_ram (in_use s) \<le> ram_soft_mb (budget s)) \<and>
        (vram_soft_mb (budget s) = 0 \<or> used_vram (in_use s) \<le> vram_soft_mb (budget s)))"

text \<open>
  Dependencies. A task waits when it is queued, or paused while it was queued; \<open>slack\<close> are the
  wake-ups that \<open>wake_successors\<close> still has to deliver.
\<close>

definition waiting :: "task_descriptor \<Rightarrow> bool" where
  "waiting t \<longleftrightarrow> tstate t = Queued \<or> (tstate t = Paused \<and> paused_from t = Some Queued)"

definition done_in :: "pool \<Rightarrow> string \<Rightarrow> bool" where
  "done_in s d \<longleftrightarrow> (\<exists>n. nodes s d = Some n \<and> nstate n = Succeeded)"

definition unmet_count :: "pool \<Rightarrow> string list \<Rightarrow> nat" where
  "unmet_count s ds = length (filter (\<lambda>d. \<not> done_in s d) ds)"

definition wf_deps :: "string list \<Rightarrow> pool \<Rightarrow> bool" where
  "wf_deps slack s \<longleftrightarrow>
     (\<forall>i n. nodes s i = Some n \<longrightarrow>
        (started (ntask n) \<longrightarrow> (\<forall>d \<in> set (deps (ntask n)). done_in s d)) \<and>
        (waiting (ntask n) \<longrightarrow> unmet_count s (deps (ntask n)) + count_list slack i \<le> unmet_deps n))"

definition wf_edges :: "pool \<Rightarrow> bool" where
  "wf_edges s \<longleftrightarrow>
     (\<forall>d i n. nodes s i = Some n \<longrightarrow>
        count_list (succs (successors s) d) i \<le> count_list (deps (ntask n)) d)"

text \<open>No edge leads to an unknown task of this id. A refused submission can leave such edges.\<close>

definition unleaked :: "pool \<Rightarrow> string \<Rightarrow> bool" where
  "unleaked s i \<longleftrightarrow> (nodes s i = None \<longrightarrow> (\<forall>d. i \<notin> set (succs (successors s) d)))"

text \<open>No submission was refused after it had recorded edges.\<close>

definition tidy :: "pool \<Rightarrow> bool" where
  "tidy s \<longleftrightarrow> (\<forall>d i. i \<in> set (succs (successors s) d) \<longrightarrow> nodes s i \<noteq> None)"

lemma tidy_unleaked: "tidy s \<Longrightarrow> unleaked s i"
  unfolding tidy_def unleaked_def by blast

lemma unleaked_listed: "list_all (\<lambda>(d, ks). i \<notin> set ks) (successors s) \<Longrightarrow> unleaked s i"
  unfolding unleaked_def succs_def list_all_iff
  by (intro impI allI) (fastforce split: option.splits dest: map_of_SomeD)

definition pool_core :: "pool \<Rightarrow> bool" where
  "pool_core s \<longleftrightarrow> config_ok (config s) \<and> wf_index s \<and> wf_nodes s \<and> wf_ready s \<and> wf_running s \<and>
     wf_usage s \<and> within_budget s \<and> wf_edges s"

definition pool_inv :: "pool \<Rightarrow> bool" where
  "pool_inv s \<longleftrightarrow> pool_core s \<and> wf_deps [] s"

lemmas pool_parts = config_ok_def wf_index_def wf_nodes_def wf_ready_def wf_running_def
  wf_usage_def within_budget_def wf_edges_def wf_deps_def

section \<open>Changes of nodes in place\<close>

text \<open>
  A change of a node in place keeps its identity, dependencies, demand and running flag. It is
  calm when it also starts no waiting task and leaves a terminal task in its state.
\<close>

definition core_node :: "node \<Rightarrow> node \<Rightarrow> bool" where
  "core_node n n' \<longleftrightarrow>
     task_id (ntask n') = task_id (ntask n) \<and> deps (ntask n') = deps (ntask n) \<and>
     demand (ntask n') = demand (ntask n) \<and> nrunning n' = nrunning n \<and>
     (task_wf (ntask n) \<longrightarrow> task_wf (ntask n')) \<and>
     (task_wf (ntask n) \<and> exec_ok n \<longrightarrow> exec_ok n')"

definition calm_node :: "node \<Rightarrow> node \<Rightarrow> bool" where
  "calm_node n n' \<longleftrightarrow> core_node n n' \<and> unmet_deps n' = unmet_deps n \<and>
     (started (ntask n') \<longrightarrow> started (ntask n)) \<and> (waiting (ntask n') \<longrightarrow> waiting (ntask n)) \<and>
     (is_terminal (nstate n) \<longrightarrow> nstate n' = nstate n) \<and>
     (nstate n' = Succeeded \<longrightarrow> nstate n = Succeeded)"

lemma core_node_refl [simp]: "core_node n n"
  by (simp add: core_node_def)

lemma calm_node_refl [simp]: "calm_node n n"
  by (simp add: calm_node_def)

lemma core_nodeD:
  assumes "core_node n n'"
  shows "task_id (ntask n') = task_id (ntask n)" "deps (ntask n') = deps (ntask n)"
    "demand (ntask n') = demand (ntask n)" "nrunning n' = nrunning n"
    "task_wf (ntask n) \<Longrightarrow> task_wf (ntask n')"
    "task_wf (ntask n) \<Longrightarrow> exec_ok n \<Longrightarrow> exec_ok n'"
  using assms unfolding core_node_def by auto

lemma calm_nodeD:
  assumes "calm_node n n'"
  shows "core_node n n'" "unmet_deps n' = unmet_deps n"
    "started (ntask n') \<Longrightarrow> started (ntask n)" "waiting (ntask n') \<Longrightarrow> waiting (ntask n)"
    "is_terminal (nstate n) \<Longrightarrow> nstate n' = nstate n"
    "nstate n' = Succeeded \<longleftrightarrow> nstate n = Succeeded"
  using assms unfolding calm_node_def by auto

lemma core_node_trans:
  assumes ab: "core_node a b" and bc: "core_node b c"
  shows "core_node a c"
  unfolding core_node_def
proof (intro conjI impI)
  show "task_wf (ntask c)" if "task_wf (ntask a)"
    using core_nodeD(5) [OF bc core_nodeD(5) [OF ab that]] .
  show "exec_ok c" if "task_wf (ntask a) \<and> exec_ok a"
    using that core_nodeD(5,6) [OF ab] core_nodeD(6) [OF bc] by blast
qed (simp_all add: core_nodeD(1-4) [OF ab] core_nodeD(1-4) [OF bc])

lemma calm_node_trans:
  assumes ab: "calm_node a b" and bc: "calm_node b c"
  shows "calm_node a c"
  unfolding calm_node_def
proof (intro conjI impI)
  show "core_node a c" using core_node_trans [OF calm_nodeD(1) [OF ab] calm_nodeD(1) [OF bc]] .
  show "started (ntask a)" if "started (ntask c)"
    using calm_nodeD(3) [OF ab calm_nodeD(3) [OF bc that]] .
  show "waiting (ntask a)" if "waiting (ntask c)"
    using calm_nodeD(4) [OF ab calm_nodeD(4) [OF bc that]] .
  show "nstate c = nstate a" if "is_terminal (nstate a)"
    using that calm_nodeD(5) [OF ab] calm_nodeD(5) [OF bc] by simp
qed (simp_all add: calm_nodeD(2,6) [OF ab] calm_nodeD(2,6) [OF bc])

definition changes :: "(node \<Rightarrow> node \<Rightarrow> bool) \<Rightarrow> pool \<Rightarrow> pool \<Rightarrow> bool" where
  "changes R s s' \<longleftrightarrow>
     config s' = config s \<and> stopping s' = stopping s \<and> node_order s' = node_order s \<and>
     successors s' = successors s \<and> running_set s' = running_set s \<and> in_use s' = in_use s \<and>
     (\<forall>i. rel_option R (nodes s i) (nodes s' i)) \<and> (wf_ready s \<longrightarrow> wf_ready s')"

abbreviation calm :: "pool \<Rightarrow> pool \<Rightarrow> bool" where
  "calm \<equiv> changes calm_node"

lemma changes_refl: "(\<And>n. R n n) \<Longrightarrow> changes R s s"
  by (simp add: changes_def option.rel_refl)

lemma calm_refl [simp]: "calm s s"
  by (simp add: changes_refl)

lemma calm_core_changes: "calm s s' \<Longrightarrow> changes core_node s s'"
  using calm_nodeD(1) option.rel_mono_strong unfolding changes_def by metis

lemma calm_trans:
  assumes "calm a b" "calm b c"
  shows "calm a c"
proof -
  have "rel_option calm_node (nodes a i) (nodes c i)" for i
  proof -
    have "rel_option calm_node (nodes a i) (nodes b i)" "rel_option calm_node (nodes b i) (nodes c i)"
      using assms by (auto simp: changes_def)
    then show ?thesis
      by (cases "nodes a i"; cases "nodes b i"; cases "nodes c i") (auto intro: calm_node_trans)
  qed
  with assms show ?thesis by (simp add: changes_def)
qed

lemma changes_at: "changes R s s' \<Longrightarrow> rel_option R (nodes s i) (nodes s' i)"
  by (simp add: changes_def)

lemma changes_Some:
  "changes R s s' \<Longrightarrow> nodes s' i = Some n' \<Longrightarrow> \<exists>n. nodes s i = Some n \<and> R n n'"
  using changes_at [of R s s' i] by (simp add: option_rel_Some2)

lemma changes_Some_fwd:
  "changes R s s' \<Longrightarrow> nodes s i = Some n \<Longrightarrow> \<exists>n'. nodes s' i = Some n' \<and> R n n'"
  using changes_at [of R s s' i] by (simp add: option_rel_Some1)

lemma changes_None: "changes R s s' \<Longrightarrow> nodes s' i = None \<longleftrightarrow> nodes s i = None"
  using changes_at [of R s s' i] by (cases "nodes s i"; cases "nodes s' i") simp_all

lemma core_demand:
  assumes c: "changes core_node s s'"
  shows "node_demand s' i = node_demand s i"
proof (cases "nodes s i")
  case None
  with changes_None [OF c, of i] show ?thesis by (simp add: node_demand_def)
next
  case (Some n)
  from changes_Some_fwd [OF c this] Some core_nodeD(3) show ?thesis by (fastforce simp: node_demand_def)
qed

lemma core_wf_index:
  assumes c: "changes core_node s s'" and w: "wf_index s"
  shows "wf_index s'"
proof -
  have "dom (nodes s') = dom (nodes s)" using changes_None [OF c] by (auto simp: dom_def)
  moreover have "node_order s' = node_order s" using c by (simp add: changes_def)
  moreover have "task_id (ntask n') = i" if "nodes s' i = Some n'" for i n'
    using changes_Some [OF c that] w core_nodeD(1) by (fastforce simp: wf_index_def)
  ultimately show ?thesis using w by (simp add: wf_index_def)
qed

lemma core_wf_nodes:
  assumes c: "changes core_node s s'" and w: "wf_nodes s"
  shows "wf_nodes s'"
proof -
  have "node_ok (config s') n'" if "nodes s' i = Some n'" for i n'
  proof -
    from changes_Some [OF c that] obtain n where n: "nodes s i = Some n" "core_node n n'" by blast
    with w have "node_ok (config s) n" by (simp add: wf_nodes_def)
    moreover have "config s' = config s" using c by (simp add: changes_def)
    ultimately show ?thesis
      using core_nodeD(3,5,6) [OF n(2)] by (simp add: node_ok_def)
  qed
  then show ?thesis by (simp add: wf_nodes_def)
qed

lemma core_wf_running:
  assumes c: "changes core_node s s'" and w: "wf_running s"
  shows "wf_running s'"
proof -
  have "(\<exists>n. nodes s' i = Some n \<and> nrunning n) \<longleftrightarrow> (\<exists>n. nodes s i = Some n \<and> nrunning n)" for i
  proof (cases "nodes s i")
    case None
    with changes_None [OF c, of i] show ?thesis by simp
  next
    case (Some n)
    from changes_Some_fwd [OF c this] Some core_nodeD(4) show ?thesis by fastforce
  qed
  moreover have "running_set s' = running_set s" using c by (simp add: changes_def)
  ultimately show ?thesis using w by (simp add: wf_running_def)
qed

lemma core_wf_usage:
  assumes c: "changes core_node s s'" and w: "wf_usage s"
  shows "wf_usage s'"
proof -
  have "running_set s' = running_set s" "in_use s' = in_use s" using c by (simp_all add: changes_def)
  with w show ?thesis unfolding wf_usage_def by (simp only: core_demand [OF c])
qed

lemma core_within_budget: "changes core_node s s' \<Longrightarrow> within_budget s \<Longrightarrow> within_budget s'"
  by (simp add: within_budget_def changes_def)

lemma core_wf_edges:
  assumes c: "changes core_node s s'" and w: "wf_edges s"
  shows "wf_edges s'"
  unfolding wf_edges_def
proof (intro allI impI)
  fix d i n'
  assume "nodes s' i = Some n'"
  from changes_Some [OF c this] obtain n where n: "nodes s i = Some n" "core_node n n'" by blast
  have "successors s' = successors s" using c by (simp add: changes_def)
  with w n core_nodeD(2) show "count_list (succs (successors s') d) i \<le> count_list (deps (ntask n')) d"
    by (fastforce simp: wf_edges_def)
qed

lemma calm_done:
  assumes c: "calm s s'"
  shows "done_in s' d = done_in s d"
proof (cases "nodes s d")
  case None
  with changes_None [OF c, of d] show ?thesis by (simp add: done_in_def)
next
  case (Some n)
  from changes_Some_fwd [OF c this] Some calm_nodeD(6) show ?thesis by (fastforce simp: done_in_def)
qed

lemma calm_wf_deps:
  assumes c: "calm s s'" and w: "wf_deps slack s"
  shows "wf_deps slack s'"
  unfolding wf_deps_def
proof (intro allI impI)
  fix i n'
  assume "nodes s' i = Some n'"
  from changes_Some [OF c this] obtain n where n: "nodes s i = Some n" "calm_node n n'" by blast
  from w n(1) have
    "started (ntask n) \<longrightarrow> (\<forall>d \<in> set (deps (ntask n)). done_in s d)"
    "waiting (ntask n) \<longrightarrow> unmet_count s (deps (ntask n)) + count_list slack i \<le> unmet_deps n"
    by (simp_all add: wf_deps_def)
  with calm_nodeD(2,3,4) [OF n(2)] core_nodeD(2) [OF calm_nodeD(1) [OF n(2)]]
  show "(started (ntask n') \<longrightarrow> (\<forall>d \<in> set (deps (ntask n')). done_in s' d)) \<and>
    (waiting (ntask n') \<longrightarrow> unmet_count s' (deps (ntask n')) + count_list slack i \<le> unmet_deps n')"
    by (auto simp: calm_done [OF c] unmet_count_def)
qed

lemma core_pool_core:
  assumes c: "changes core_node s s'" and "pool_core s"
  shows "pool_core s'"
proof -
  have "wf_ready s'" "config s' = config s" using assms by (simp_all add: changes_def pool_core_def)
  with assms show ?thesis
    by (simp add: pool_core_def core_wf_index [OF c] core_wf_nodes [OF c] core_wf_running [OF c]
        core_wf_usage [OF c] core_within_budget [OF c] core_wf_edges [OF c])
qed

lemma calm_inv: "calm s s' \<Longrightarrow> pool_inv s \<Longrightarrow> pool_inv s'"
  using core_pool_core [OF calm_core_changes] calm_wf_deps by (auto simp: pool_inv_def)

end
