(* ===== verification/Pool_Calm.thy ===== *)
theory Pool_Calm
  imports Pool_Invariant
begin

text \<open>
  The operations of the thread-pool scheduler that neither start nor finish an execution are calm:
  \<open>cancel\<close> with its propagation, the three sections of \<open>pause\<close>, \<open>resume\<close>, \<open>tick\<close>, the progress
  checkpoint and the registration of a callback.
\<close>

section \<open>Changing one node\<close>

lemma changes_local:
  assumes n: "nodes s i = Some n" and cn: "R n n'" and rr: "\<And>n. R n n"
    and eqs: "nodes s' = (nodes s)(i \<mapsto> n')" "config s' = config s" "stopping s' = stopping s"
      "node_order s' = node_order s" "successors s' = successors s" "running_set s' = running_set s"
      "in_use s' = in_use s"
    and ready: "wf_ready s \<Longrightarrow> distinct (ready_set s') \<and>
      (\<forall>j. j \<in> set (ready_set s') \<longleftrightarrow> (if j = i then nstate n' = Ready else j \<in> set (ready_set s)))"
  shows "changes R s s'"
proof -
  have "rel_option R (nodes s j) (nodes s' j)" for j
    using n cn rr by (cases "nodes s j") (auto simp: eqs)
  moreover have "wf_ready s'" if w: "wf_ready s"
    using ready [OF w] w by (auto simp: wf_ready_def eqs)
  ultimately show ?thesis by (simp add: changes_def eqs)
qed

lemmas calm_local = changes_local [where R = calm_node, OF _ _ calm_node_refl]

text \<open>The ready set follows the node out, and back in.\<close>

lemma ready_leave:
  assumes "wf_ready s" "nodes s i = Some n" "nstate n' \<noteq> Ready"
    and "r = (if nstate n = Ready then remove1 i (ready_set s) else ready_set s)"
  shows "distinct r \<and> (\<forall>j. j \<in> set r \<longleftrightarrow> (if j = i then nstate n' = Ready else j \<in> set (ready_set s)))"
  using assms by (auto simp: wf_ready_def)

lemma ready_enter:
  assumes "wf_ready s" "nstate n' = Ready" and "r = set_insert i (ready_set s)"
  shows "distinct r \<and> (\<forall>j. j \<in> set r \<longleftrightarrow> (if j = i then nstate n' = Ready else j \<in> set (ready_set s)))"
  using assms by (auto simp: wf_ready_def set_insert_def)

lemma ready_stay:
  assumes "wf_ready s" "nodes s i = Some n" "nstate n' = Ready \<longleftrightarrow> nstate n = Ready"
    and "r = ready_set s"
  shows "distinct r \<and> (\<forall>j. j \<in> set r \<longleftrightarrow> (if j = i then nstate n' = Ready else j \<in> set (ready_set s)))"
  using assms by (auto simp: wf_ready_def)

lemma calm_stay:
  assumes n: "nodes s i = Some n" and cn: "calm_node n n'"
    and "nstate n' = Ready \<longleftrightarrow> nstate n = Ready"
    and eqs: "nodes s' = (nodes s)(i \<mapsto> n')" "config s' = config s" "stopping s' = stopping s"
      "node_order s' = node_order s" "successors s' = successors s" "running_set s' = running_set s"
      "in_use s' = in_use s" and "ready_set s' = ready_set s"
  shows "calm s s'"
  using ready_stay [OF _ n assms(3) assms(11)] by (rule calm_local [OF n cn eqs])

section \<open>Calm transitions of a node\<close>

lemma calm_node_same_state:
  assumes "task_id t = task_id (ntask n)" "deps t = deps (ntask n)" "demand t = demand (ntask n)"
    "tstate t = nstate n" "paused_from t = paused_from (ntask n)"
    "started_at t = started_at (ntask n)" "finished_at t = finished_at (ntask n)"
    and "ntask n' = t" "nrunning n' = nrunning n" "unmet_deps n' = unmet_deps n"
  shows "calm_node n n'"
proof -
  have "task_wf (ntask n') = task_wf (ntask n)" "exec_ok n' = exec_ok n"
    "started (ntask n') = started (ntask n)" "waiting (ntask n') = waiting (ntask n)"
    by (simp_all add: assms exec_ok_def started_def waiting_def task_wf_def)
  then show ?thesis by (simp add: calm_node_def core_node_def assms)
qed

lemma calm_node_cancel:
  assumes live: "\<not> is_terminal (tstate t)" and t: "tstate t = nstate n" "task_id t = task_id (ntask n)"
      "deps t = deps (ntask n)" "demand t = demand (ntask n)" "task_wf (ntask n) \<Longrightarrow> task_wf t"
    and n': "nstate n' = Canceled" "task_id (ntask n') = task_id t" "deps (ntask n') = deps t"
      "demand (ntask n') = demand t" "task_wf t \<Longrightarrow> task_wf (ntask n')"
      "nrunning n' = nrunning n" "unmet_deps n' = unmet_deps n"
  shows "calm_node n n'"
  unfolding calm_node_def core_node_def
proof (intro conjI impI)
  show "task_wf (ntask n')" if "task_wf (ntask n)" using n'(5) [OF t(5) [OF that]] .
qed (use live t(1-4) n'(1-4,6,7) in \<open>simp_all add: exec_ok_def started_def waiting_def\<close>)

lemma calm_node_pause:
  assumes live: "nstate n = Queued \<or> nstate n = Ready \<or> nstate n = Running"
    and t: "tstate t = nstate n" "task_id t = task_id (ntask n)" "deps t = deps (ntask n)"
      "demand t = demand (ntask n)" "task_wf t = task_wf (ntask n)"
    and n': "ntask n' = apply_transition now t Paused" "nrunning n' = nrunning n"
      "unmet_deps n' = unmet_deps n"
  shows "calm_node n n'"
proof -
  have lg: "legal (tstate t) Paused" and nf: "tstate t \<noteq> Failed" using live t(1) by auto
  have pf: "paused_from (ntask n') = Some (nstate n)"
    using nf t(1) by (simp add: n' apply_transition_paused_from)
  have ps: "nstate n' = Paused" by (simp add: n')
  have wf: "task_wf (ntask n')" if "task_wf (ntask n)"
    using task_wf_apply [OF _ lg, of now] that t(5) by (simp add: n')
  have ex: "exec_ok n'" if "exec_ok n"
    using that live by (auto simp: exec_ok_def ps pf n'(2))
  show ?thesis
    unfolding calm_node_def core_node_def
  proof (intro conjI impI)
    show "task_wf (ntask n')" if "task_wf (ntask n)" by (rule wf [OF that])
    show "exec_ok n'" if "task_wf (ntask n) \<and> exec_ok n" using that ex by blast
  qed (use live ps pf in \<open>auto simp: n' t started_def waiting_def\<close>)
qed

lemma calm_node_resume:
  assumes p: "nstate n = Paused" and tgt: "target = resume_target (ntask n)"
    and wf: "task_wf (ntask n)"
    and n': "ntask n' = apply_transition now (ntask n) target" "nrunning n' = nrunning n"
      "unmet_deps n' = unmet_deps n"
  shows "legal Paused target" "calm_node n n'"
proof -
  obtain st where st: "paused_from (ntask n) = Some st" "st = Queued \<or> st = Ready \<or> st = Running"
    using wf p by (auto simp: task_wf_def)
  then have tg: "target = st" by (simp add: tgt resume_target_def)
  with st(2) show lg: "legal Paused target" by auto
  have pf: "paused_from (ntask n') = None"
    using p st tg by (auto simp: n' apply_transition_paused_from)
  have ns: "nstate n' = st" by (simp add: n' tg)
  have wf': "task_wf (ntask n')" using task_wf_apply [OF wf, of target now] lg p by (simp add: n')
  have ex: "exec_ok n'" if "exec_ok n"
    using that st p by (auto simp: exec_ok_def ns n'(2))
  show "calm_node n n'"
    unfolding calm_node_def core_node_def
  proof (intro conjI impI)
    show "task_wf (ntask n')" by (rule wf')
    show "exec_ok n'" if "task_wf (ntask n) \<and> exec_ok n" using that ex by blast
  qed (use p st ns pf in \<open>auto simp: n' started_def waiting_def\<close>)
qed

section \<open>The operations\<close>

lemma calm_prop:
  assumes p: "prop_rel now s s'"
  shows "calm s s'"
proof -
  have nd: "rel_option calm_node (nodes s i) (nodes s' i)" for i
  proof -
    consider (same) "nodes s' i = nodes s i"
      | (changed) n n' where "nodes s i = Some n" "nodes s' i = Some n'" "dep_canceled now n n'"
      using prop_rel_nodes [OF p] by blast
    then show ?thesis
    proof cases
      case same
      then show ?thesis by (simp add: option.rel_refl)
    next
      case changed
      note f = dep_canceled_fields [OF changed(3)]
      have "calm_node n n'"
        by (rule calm_node_cancel [where t = "ntask n"]) (simp_all add: f)
      with changed show ?thesis by simp
    qed
  qed
  have "wf_ready s'" if w: "wf_ready s"
  proof -
    have d: "distinct (ready_set s')" and r: "\<And>i. i \<in> set (ready_set s') \<longleftrightarrow> i \<in> set (ready_set s) \<and>
        (nodes s' i = nodes s i \<or> (\<forall>n. nodes s i = Some n \<longrightarrow> nstate n \<noteq> Ready))"
      using p w by (auto simp: prop_rel_def wf_ready_def)
    have "i \<in> set (ready_set s') \<longleftrightarrow> (\<exists>n. nodes s' i = Some n \<and> nstate n = Ready)" for i
      using prop_rel_nodes [OF p, of i] r [of i] w
      by (auto simp: wf_ready_def dest: dep_canceled_fields(1,10))
    with d show ?thesis by (simp add: wf_ready_def)
  qed
  with nd p show ?thesis by (simp add: changes_def prop_rel_def)
qed

lemma calm_propagate: "propagate now i s = (s', evs) \<Longrightarrow> calm s s'"
  by (rule calm_prop [OF prop_rel_propagate])

lemma calm_heap [simp]: "calm s (s\<lparr>pool_heap := h\<rparr>)"
  by (simp add: changes_def option.rel_refl wf_ready_def)

lemma calm_callback [simp]: "calm s (pool_on_state_change s cb)"
  by (simp add: changes_def option.rel_refl wf_ready_def pool_on_state_change_def)

lemma put_node_simps [simp]:
  "nodes (put_node i n s) = (nodes s)(i \<mapsto> n)" "config (put_node i n s) = config s"
  "stopping (put_node i n s) = stopping s" "node_order (put_node i n s) = node_order s"
  "successors (put_node i n s) = successors s" "ready_set (put_node i n s) = ready_set s"
  "running_set (put_node i n s) = running_set s" "in_use (put_node i n s) = in_use s"
  "pool_callbacks (put_node i n s) = pool_callbacks s" "pool_heap (put_node i n s) = pool_heap s"
  by (simp_all add: put_node_def)

lemma clear_pause_simps [simp]:
  "ntask (clear_pause n) = ntask n" "nrunning (clear_pause n) = nrunning n"
  "unmet_deps (clear_pause n) = unmet_deps n" "nstage (clear_pause n) = nstage n"
  "last_outputs (clear_pause n) = last_outputs n"
  by (simp_all add: clear_pause_def)

lemma cancel_error_simps [simp]:
  "tstate (cancel_error t) = tstate t" "task_id (cancel_error t) = task_id t"
  "deps (cancel_error t) = deps t" "demand (cancel_error t) = demand t"
  "progress (cancel_error t) = progress t" "cancel_token (cancel_error t) = cancel_token t"
  "task_wf (cancel_error t) = task_wf t"
  by (simp_all add: cancel_error_def task_wf_def)

text \<open>\<open>pool_cancel\<close> by cases: unknown, already terminal, or canceled now and propagated.\<close>

definition canceled_node :: "int \<Rightarrow> node \<Rightarrow> node" where
  "canceled_node now n =
     (clear_pause n)\<lparr>ntask := cancel_error (apply_transition now (ntask n) Canceled)\<rparr>"

definition cancel_self :: "int \<Rightarrow> pool \<Rightarrow> string \<Rightarrow> node \<Rightarrow> pool" where
  "cancel_self now s i n = put_node i (canceled_node now n)
     (s\<lparr>pool_heap := cancel_opt (pool_heap s) (cancel_token (ntask n)),
        ready_set := (if nstate n = Ready then remove1 i (ready_set s) else ready_set s)\<rparr>)"

lemma pool_cancel_unknown:
  "nodes s i = None \<Longrightarrow> pool_cancel now s i = (s, [], Inl (err_not_found i))"
  by (simp add: pool_cancel_def)

lemma pool_cancel_terminal:
  "nodes s i = Some n \<Longrightarrow> is_terminal (nstate n) \<Longrightarrow> pool_cancel now s i =
     (put_node i (clear_pause n) (s\<lparr>pool_heap := cancel_opt (pool_heap s) (cancel_token (ntask n))\<rparr>), [], Ok)"
  by (auto simp: pool_cancel_def put_node_def Let_def)

lemma pool_cancel_live:
  assumes "nodes s i = Some n" "\<not> is_terminal (nstate n)"
    and "propagate now i (cancel_self now s i n) = (s', evs)"
  shows "pool_cancel now s i = (s', StateEvent i Canceled (progress (ntask n)) # evs, Ok)"
proof -
  have "nstate n \<noteq> Canceled" "nstate n \<noteq> Failed" using assms(2) by auto
  with assms show ?thesis
    by (cases "nstate n = Ready")
       (simp_all add: pool_cancel_def cancel_self_def canceled_node_def Let_def legal_cancel)
qed

lemma calm_cancel_self:
  assumes n: "nodes s i = Some n" and live: "\<not> is_terminal (nstate n)"
  shows "calm s (cancel_self now s i n)"
proof (rule calm_local [where n' = "canceled_node now n", OF n])
  have "task_wf (apply_transition now (ntask n) Canceled)" if "task_wf (ntask n)"
    using that live by (simp add: task_wf_apply legal_cancel)
  then show "calm_node n (canceled_node now n)"
    by (intro calm_node_cancel [where t = "ntask n"] live) (simp_all add: canceled_node_def)
  show "distinct (ready_set (cancel_self now s i n)) \<and> (\<forall>j. j \<in> set (ready_set (cancel_self now s i n)) \<longleftrightarrow>
      (if j = i then nstate (canceled_node now n) = Ready else j \<in> set (ready_set s)))" if "wf_ready s"
    by (rule ready_leave [OF that n]) (simp_all add: cancel_self_def canceled_node_def)
qed (simp_all add: cancel_self_def)

lemma pool_cancel_cases:
  assumes c: "pool_cancel now s i = (s', evs, r)"
  obtains (unknown) "nodes s i = None" "s' = s" "evs = []"
  | (ended) n where "nodes s i = Some n" "is_terminal (nstate n)" "evs = []"
      "s' = put_node i (clear_pause n) (s\<lparr>pool_heap := cancel_opt (pool_heap s) (cancel_token (ntask n))\<rparr>)"
  | (live) n evs2 where "nodes s i = Some n" "\<not> is_terminal (nstate n)"
      "propagate now i (cancel_self now s i n) = (s', evs2)"
      "evs = StateEvent i Canceled (progress (ntask n)) # evs2"
proof (cases "nodes s i")
  case None
  with c show thesis by (intro unknown) (simp_all add: pool_cancel_unknown)
next
  case (Some n)
  show thesis
  proof (cases "is_terminal (nstate n)")
    case True
    with c Some show thesis by (intro ended [OF Some]) (simp_all add: pool_cancel_terminal)
  next
    case False
    obtain s2 evs2 where p: "propagate now i (cancel_self now s i n) = (s2, evs2)" by fastforce
    with c Some False show thesis by (intro live [OF Some False, of evs2]) (simp_all add: pool_cancel_live)
  qed
qed

lemma calm_cancel:
  assumes c: "pool_cancel now s i = (s', evs, r)"
  shows "calm s s'"
  using c
proof (cases rule: pool_cancel_cases)
  case unknown
  then show ?thesis by simp
next
  case (ended n)
  then show ?thesis by (intro calm_stay [OF ended(1) calm_node_same_state, where n' = "clear_pause n"]) simp_all
next
  case (live n evs2)
  from calm_trans [OF calm_cancel_self [OF live(1,2)] calm_propagate [OF live(3)]] show ?thesis .
qed

lemma calm_pause_timeout: "pause_timeout now s i = (s', evs, r) \<Longrightarrow> calm s s'"
  by (auto simp: pause_timeout_def calm_cancel split: prod.splits)

lemma calm_cancel_each: "cancel_each now s is = (s', evs) \<Longrightarrow> calm s s'"
proof (induction "is" arbitrary: s evs)
  case Nil
  then show ?case by simp
next
  case (Cons i "is")
  obtain s1 ev1 r where c: "pool_cancel now s i = (s1, ev1, r)" using prod_cases3 by blast
  obtain s2 ev2 where e: "cancel_each now s1 is = (s2, ev2)" by fastforce
  from Cons.prems c e have "s' = s2" by simp
  with calm_trans [OF calm_cancel [OF c] Cons.IH [of s1 ev2]] e show ?case by simp
qed

lemma calm_tick: "pool_tick now s = (s', evs) \<Longrightarrow> calm s s'"
  by (simp add: pool_tick_def calm_cancel_each)

lemma pause_begin_cases:
  assumes c: "pause_begin now s i = (s', evs, r)"
  obtains (none) "s' = s" "evs = []"
  | (held) n where "nodes s i = Some n" "nstate n = Queued \<or> nstate n = Ready"
      "s' = put_node i (n\<lparr>ntask := apply_transition now (ntask n) Paused\<rparr>)
        (s\<lparr>ready_set := (if nstate n = Ready then remove1 i (ready_set s) else ready_set s)\<rparr>)"
      "evs = [StateEvent i Paused (progress (apply_transition now (ntask n) Paused))]"
  | (asked) n deadline where "nodes s i = Some n" "nstate n = Running" "evs = []"
      "s' = put_node i (n\<lparr>pause_requested := True, pause_deadline := deadline\<rparr>) s"
proof (cases "nodes s i")
  case None
  with c show thesis by (intro none) (simp_all add: pause_begin_def)
next
  case (Some n)
  consider (quiet) "nstate n = Queued \<or> nstate n = Ready" | (run) "nstate n = Running"
    | (other) "nstate n = Paused \<or> is_terminal (nstate n)"
    by (cases "nstate n") auto
  then show thesis
  proof cases
    case quiet
    with Some c show thesis by (intro held [OF Some quiet]) (auto simp: pause_begin_def Let_def)
  next
    case run
    with Some c show thesis
      by (intro asked [OF Some run, of "Some (now + max 1 (checkpoint_timeout_ms (pause_policy (config s))) * 1000000)"])
         (auto simp: pause_begin_def Let_def)
  next
    case other
    with Some c show thesis by (intro none) (auto simp: pause_begin_def split: if_splits)
  qed
qed

lemma calm_pause_begin:
  assumes c: "pause_begin now s i = (s', evs, r)"
  shows "calm s s'"
  using c
proof (cases rule: pause_begin_cases)
  case none
  then show ?thesis by simp
next
  case (held n)
  let ?n' = "n\<lparr>ntask := apply_transition now (ntask n) Paused\<rparr>"
  show ?thesis
  proof (rule calm_local [where n' = ?n', OF held(1)])
    show "calm_node n ?n'"
      by (rule calm_node_pause [where t = "ntask n" and now = now]) (use held(2) in auto)
    show "distinct (ready_set s') \<and> (\<forall>j. j \<in> set (ready_set s') \<longleftrightarrow>
        (if j = i then nstate ?n' = Ready else j \<in> set (ready_set s)))" if "wf_ready s"
      by (rule ready_leave [OF that held(1)]) (simp_all add: held(3))
  qed (simp_all add: held(3))
next
  case (asked n deadline)
  then show ?thesis
    by (intro calm_stay [OF asked(1) calm_node_same_state,
          where n' = "n\<lparr>pause_requested := True, pause_deadline := deadline\<rparr>"]) simp_all
qed

text \<open>What a resumed node becomes.\<close>

definition resumed_node :: "int \<Rightarrow> node \<Rightarrow> node" where
  "resumed_node now n =
     (let n1 = (clear_pause n)\<lparr>ntask := apply_transition now (ntask n) (resume_target (ntask n))\<rparr>
      in if resume_target (ntask n) = Ready then n1\<lparr>ready_since := now\<rparr> else n1)"

lemma pool_resume_cases:
  assumes c: "pool_resume now s i = (s', evs, r)" and w: "wf_nodes s"
  obtains (none) "s' = s" "evs = []" "\<And>n. nodes s i = Some n \<Longrightarrow> nstate n \<noteq> Paused"
  | (back_to) n st where "nodes s i = Some n" "nstate n = Paused" "paused_from (ntask n) = Some st"
      "st = Queued \<or> st = Ready \<or> st = Running" "resume_target (ntask n) = st"
      "s' = put_node i (resumed_node now n)
        (s\<lparr>ready_set := (if st = Ready then set_insert i (ready_set s) else ready_set s)\<rparr>)"
      "evs = [StateEvent i st (progress (ntask (resumed_node now n)))]"
proof (cases "\<exists>n. nodes s i = Some n \<and> nstate n = Paused")
  case False
  with c show thesis by (intro none) (auto simp: pool_resume_def split: option.splits)
next
  case True
  then obtain n where n: "nodes s i = Some n" "nstate n = Paused" by blast
  with w obtain st where st: "paused_from (ntask n) = Some st" "st = Queued \<or> st = Ready \<or> st = Running"
    by (auto simp: wf_nodes_def node_ok_def task_wf_def)
  then have tg: "resume_target (ntask n) = st" by (simp add: resume_target_def)
  with c n st show thesis
    by (intro back_to [OF n st tg]) (auto simp: pool_resume_def resumed_node_def Let_def)
qed

lemma calm_resume:
  assumes c: "pool_resume now s i = (s', evs, r)" and w: "wf_nodes s"
  shows "calm s s'"
  using c w
proof (cases rule: pool_resume_cases)
  case none
  then show ?thesis by simp
next
  case (back_to n st)
  let ?n' = "resumed_node now n"
  from w back_to(1) have wf: "task_wf (ntask n)" by (simp add: wf_nodes_def node_ok_def)
  have cn: "calm_node n ?n'"
    by (rule calm_node_resume(2) [OF back_to(2) refl wf, where now = now]) (simp_all add: resumed_node_def Let_def)
  have st': "nstate ?n' = st" using back_to(2,4,5) by (auto simp: resumed_node_def Let_def)
  show ?thesis
  proof (rule calm_local [OF back_to(1) cn])
    show "distinct (ready_set s') \<and> (\<forall>j. j \<in> set (ready_set s') \<longleftrightarrow>
        (if j = i then nstate ?n' = Ready else j \<in> set (ready_set s)))" if w: "wf_ready s"
    proof (cases "st = Ready")
      case True
      then show ?thesis using st' by (intro ready_enter [OF w]) (simp_all add: back_to(6))
    next
      case False
      then show ?thesis using st' back_to(2) by (intro ready_stay [OF w back_to(1)]) (simp_all add: back_to(6))
    qed
  qed (simp_all add: back_to(6))
qed

text \<open>A checkpoint stores the progress, and enters a pause when one is requested.\<close>

lemma checkpoint_cases:
  assumes c: "progress_checkpoint now s i p = (s', evs, b)"
  obtains (unknown) "nodes s i = None" "s' = s" "evs = []"
  | (stored) n where "nodes s i = Some n" "\<not> (pause_requested n \<and> nstate n = Running)"
      "s' = put_node i (n\<lparr>ntask := set_progress (ntask n) p\<rparr>) s"
      "evs = (if nstate n = Running then [StateEvent i Running (progress (set_progress (ntask n) p))] else [])"
  | (held) n where "nodes s i = Some n" "pause_requested n" "nstate n = Running"
      "s' = put_node i ((clear_pause n)\<lparr>ntask := apply_transition now (set_progress (ntask n) p) Paused\<rparr>) s"
      "evs = [StateEvent i Running (progress (set_progress (ntask n) p)),
              StateEvent i Paused (progress (apply_transition now (set_progress (ntask n) p) Paused))]"
proof (cases "nodes s i")
  case None
  with c show thesis by (intro unknown) (simp_all add: progress_checkpoint_def)
next
  case (Some n)
  show thesis
  proof (cases "pause_requested n \<and> nstate n = Running")
    case True
    with c Some show thesis by (intro held [OF Some]) (auto simp: progress_checkpoint_def Let_def)
  next
    case False
    with c Some show thesis
      by (intro stored [OF Some False]) (auto simp: progress_checkpoint_def Let_def split: if_splits)
  qed
qed

lemma calm_checkpoint:
  assumes c: "progress_checkpoint now s i p = (s', evs, b)"
  shows "calm s s'"
  using c
proof (cases rule: checkpoint_cases)
  case unknown
  then show ?thesis by simp
next
  case (stored n)
  then show ?thesis
    by (intro calm_stay [OF stored(1) calm_node_same_state, where n' = "n\<lparr>ntask := set_progress (ntask n) p\<rparr>"])
       simp_all
next
  case (held n)
  let ?n' = "(clear_pause n)\<lparr>ntask := apply_transition now (set_progress (ntask n) p) Paused\<rparr>"
  have "calm_node n ?n'"
    by (rule calm_node_pause [where t = "set_progress (ntask n) p" and now = now]) (use held(3) in auto)
  with held show ?thesis by (intro calm_stay [OF held(1), where n' = ?n']) simp_all
qed

end
