(* ===== verification/Pool_Exec.thy ===== *)
theory Pool_Exec
  imports Pool_Calm
begin

text \<open>
  The operations that change what waits or runs: a submission, the dispatch
  of a candidate by a worker, the end of an execution, and the wake-up of its successors. Each
  keeps the invariant of the pool.
\<close>

section \<open>Submission\<close>

lemma link_deps_frame:
  "link_deps s i ds u = (s', lr) \<Longrightarrow> \<exists>g. s' = s\<lparr>successors := g\<rparr>"
proof (induction s i ds u arbitrary: s' lr rule: link_deps.induct)
  case (1 s i unmet)
  then show ?case by (auto intro: exI [of _ "successors s"])
next
  case (2 s i d ds unmet)
  show ?case
  proof (cases "d = i \<or> nodes s d = None")
    case True
    with 2(3) have "s' = s" by (auto split: option.splits if_splits)
    then show ?thesis by (auto intro: exI [of _ "successors s"])
  next
    case False
    then obtain dn where di: "d \<noteq> i" and dn: "nodes s d = Some dn" by auto
    note IH = 2(1,2) [OF di dn refl]
    show ?thesis
      using 2(3) di dn
      by (auto simp: Let_def split: if_splits dest!: IH)
  qed
qed

lemma count_list_replicate [simp]: "count_list (replicate c x) x = c"
  by (induction c) auto

lemma extend_edges:
  assumes "\<forall>e. \<exists>c \<le> count_list ds e. succs g e = succs (add_edge d i g0) e @ replicate c i"
  shows "\<forall>e. \<exists>c \<le> count_list (d # ds) e. succs g e = succs g0 e @ replicate c i"
proof
  fix e
  let ?b = "if e = d then 1 else 0"
  from assms obtain c where c: "c \<le> count_list ds e" "succs g e = succs (add_edge d i g0) e @ replicate c i" by blast
  have "succs g e = succs g0 e @ replicate (?b + c) i"
    unfolding c(2) by (simp only: succs_add_edge) (simp add: replicate_add)
  moreover have "?b + c \<le> count_list (d # ds) e" using c(1) by auto
  ultimately show "\<exists>c \<le> count_list (d # ds) e. succs g e = succs g0 e @ replicate c i" by blast
qed

lemma link_deps_known:
  assumes "link_deps s i ds u = (s', lr)"
  shows "(\<forall>e. lr = Link_error e \<longrightarrow> \<not> set ds \<subseteq> dom (nodes s) \<or> i \<in> set ds) \<and>
     (\<forall>v. lr = Linked v \<longrightarrow> v = u + unmet_count s ds \<and> set ds \<subseteq> dom (nodes s)) \<and>
     (\<forall>d. \<exists>c \<le> count_list ds d. succs (successors s') d = succs (successors s) d @ replicate c i)"
  using assms
proof (induction s i ds u arbitrary: s' lr rule: link_deps.induct)
  case (1 s i unmet)
  then have "s' = s" "lr = Linked unmet" by simp_all
  then show ?case by (auto simp: unmet_count_def)
next
  case (2 s i d ds unmet)
  show ?case
  proof (cases "d = i \<or> nodes s d = None")
    case True
    with 2(3) have "s' = s" "\<exists>e. lr = Link_error e" by (auto split: option.splits if_splits)
    with True show ?thesis by auto
  next
    case False
    then obtain dn where di: "d \<noteq> i" and dn: "nodes s d = Some dn" by auto
    let ?s1 = "s\<lparr>successors := add_edge d i (successors s)\<rparr>"
    have done_d: "done_in s d \<longleftrightarrow> nstate dn = Succeeded" by (simp add: done_in_def dn)
    have cnt: "unmet_count ?s1 ds = unmet_count s ds" by (simp add: unmet_count_def done_in_def)
    have extend: "\<forall>e. \<exists>c \<le> count_list (d # ds) e. succs (successors s') e = succs (successors s) e @ replicate c i"
      if h: "\<forall>e. \<exists>c \<le> count_list ds e. succs (successors s') e = succs (successors ?s1) e @ replicate c i"
      using h by (intro extend_edges) simp
    consider (ok) "nstate dn = Succeeded" | (bad) "nstate dn = Failed \<or> nstate dn = Canceled"
      | (live) "nstate dn \<noteq> Succeeded" "\<not> (nstate dn = Failed \<or> nstate dn = Canceled)" by blast
    then show ?thesis
    proof cases
      case ok
      with 2(3) dn di have l: "link_deps ?s1 i ds unmet = (s', lr)" by simp
      from 2(1) [OF di dn refl ok l] extend ok done_d dn di
      show ?thesis by (auto simp: cnt unmet_count_def done_in_def)
    next
      case bad
      with 2(3) dn di have l: "s' = ?s1" "lr = Link_blocked d unmet" by auto
      have "\<forall>e. \<exists>c \<le> count_list ds e. succs (successors s') e = succs (successors ?s1) e @ replicate c i"
        unfolding l(1) by (intro allI exI [of _ 0]) simp
      from extend [OF this] l(2) show ?thesis by simp
    next
      case live
      with 2(3) dn di have l: "link_deps ?s1 i ds (Suc unmet) = (s', lr)" by simp
      from 2(2) [OF di dn refl live l] extend live(1) done_d dn di
      show ?thesis by (auto simp: cnt unmet_count_def done_in_def)
    qed
  qed
qed

text \<open>New edges to a new task, one per mention, keep the edges in bounds.\<close>

lemma edges_insert:
  assumes w: "wf_edges s" and new: "nodes s i = None" "unleaked s i" and s': "nodes s' = (nodes s)(i \<mapsto> n)"
    and edges: "\<forall>d. \<exists>c \<le> count_list (deps (ntask n)) d.
      succs (successors s') d = succs (successors s) d @ replicate c i"
  shows "wf_edges s'"
  unfolding wf_edges_def
proof (intro allI impI)
  fix d j m
  assume m: "nodes s' j = Some m"
  from edges obtain c where c: "c \<le> count_list (deps (ntask n)) d"
    "succs (successors s') d = succs (successors s) d @ replicate c i" by blast
  show "count_list (succs (successors s') d) j \<le> count_list (deps (ntask m)) d"
  proof (cases "j = i")
    case True
    have "count_list (succs (successors s) d) i = 0" using new by (simp add: unleaked_def count_list_0_iff)
    then have "count_list (succs (successors s') d) i = c" unfolding c(2) by simp
    with True c(1) m show ?thesis by (simp add: s')
  next
    case False
    then have "count_list (replicate c i) j = 0" by (simp add: count_list_0_iff)
    with False m c(2) w show ?thesis by (simp add: wf_edges_def s')
  qed
qed

text \<open>A new node, ready, waiting or canceled, with edges from its dependencies only.\<close>

lemma inv_insert:
  assumes inv: "pool_inv s" and new: "nodes s i = None" "unleaked s i"
    and n: "node_ok (config s) n" "task_id (ntask n) = i" "\<not> nrunning n"
      "nstate n = Queued \<or> nstate n = Ready \<or> nstate n = Canceled"
    and dep: "nstate n = Ready \<Longrightarrow> \<forall>d \<in> set (deps (ntask n)). done_in s d"
      "nstate n = Queued \<Longrightarrow> unmet_count s (deps (ntask n)) \<le> unmet_deps n"
    and s': "nodes s' = (nodes s)(i \<mapsto> n)" "node_order s' = node_order s @ [i]" "config s' = config s"
      "running_set s' = running_set s" "in_use s' = in_use s"
      "ready_set s' = (if nstate n = Ready then set_insert i (ready_set s) else ready_set s)"
    and edges: "\<forall>d. \<exists>c \<le> count_list (deps (ntask n)) d.
      succs (successors s') d = succs (successors s) d @ replicate c i"
  shows "pool_inv s'"
proof -
  from inv have p: "config_ok (config s)" "wf_index s" "wf_nodes s" "wf_ready s" "wf_running s"
    "wf_usage s" "within_budget s" "wf_edges s" "wf_deps [] s" by (simp_all add: pool_inv_def pool_core_def)
  have done_same: "done_in s' d = done_in s d" for d
    using new n(4) by (auto simp: done_in_def s'(1))
  have um: "unmet_count s' = unmet_count s" by (intro ext) (simp add: unmet_count_def done_same)
  have nr: "i \<notin> set (running_set s)" "i \<notin> set (ready_set s)" "i \<notin> set (node_order s)"
    using p(2,4,5) new by (auto simp: wf_running_def wf_ready_def wf_index_def dom_def)
  have dm: "node_demand s' j = node_demand s j" if "j \<in> set (running_set s)" for j
    using that nr(1) by (auto simp: node_demand_def s'(1))
  have idx: "wf_index s'" using p(2) n(2) nr(3) by (auto simp: wf_index_def s'(1,2))
  have nds: "wf_nodes s'" using p(3) n(1) by (simp add: wf_nodes_def s'(1,3))
  have rdy: "wf_ready s'" using p(4) nr(2) new by (auto simp: wf_ready_def set_insert_def s'(1,6))
  have run: "wf_running s'" using p(5) nr(1) n(3) by (auto simp: wf_running_def s'(1,4))
  have use: "wf_usage s'" using p(6) dm by (simp add: wf_usage_def s'(4,5) cong: map_cong)
  have bud: "within_budget s'" using p(7) by (simp add: within_budget_def s'(3,4,5))
  have "wf_deps [] s'"
    using p(9) n(4) dep by (auto simp: wf_deps_def s'(1) done_same um started_def waiting_def)
  with p(1) idx nds rdy run use bud edges_insert [OF p(8) new s'(1) edges] show ?thesis
    by (simp add: pool_inv_def pool_core_def s'(3))
qed

text \<open>
  The demand a client may ask for: none of the counts overflows when every worker runs such a
  task.
\<close>

definition sane_demand :: "scheduler_config \<Rightarrow> resource_demand \<Rightarrow> bool" where
  "sane_demand c d \<longleftrightarrow> ram_mb d * worker_count c \<le> INT_MAX \<and> vram_mb d * worker_count c \<le> INT_MAX"

lemma normalize_demand_ok:
  assumes "sane_demand c d" "config_ok c" "cpu_slots (normalize_demand d) \<le> cpu_slots_hard (resource_budget c)"
  shows "demand_ok c (normalize_demand d)"
proof -
  have "max 0 x * w \<le> INT_MAX" if "x * w \<le> INT_MAX" "0 < w" for x w :: int
    using that by (auto simp: max_def INT_MAX_def)
  with assms show ?thesis
    by (auto simp: demand_ok_def sane_demand_def normalize_demand_def config_ok_def split: if_splits)
qed

text \<open>\<open>pool_submit\<close> by cases: rejected before the dependencies are linked, or linked.\<close>

lemma ensure_token_frame:
  assumes "ensure_token s t = (s1, t2)"
  shows "(\<exists>h. s1 = s\<lparr>pool_heap := h\<rparr>) \<and> (\<exists>tk. t2 = t\<lparr>cancel_token := tk\<rparr>)"
proof (cases "cancel_token t")
  case None
  obtain h a where c: "create_token (pool_heap s) = (h, a)" by fastforce
  with None assms have "s1 = s\<lparr>pool_heap := h\<rparr>" "t2 = t\<lparr>cancel_token := Some a\<rparr>"
    by (simp_all add: ensure_token_def)
  then show ?thesis by blast
next
  case (Some a)
  with assms have "s1 = s" "t2 = t" by (simp_all add: ensure_token_def)
  then have "s1 = s\<lparr>pool_heap := pool_heap s\<rparr>" "t2 = t\<lparr>cancel_token := cancel_token t\<rparr>" by simp_all
  then show ?thesis by (intro conjI exI)
qed

lemma pool_submit_cases:
  assumes "pool_submit now s t stg = (s', evs, r)"
  obtains (rejected) h e where "s' = s\<lparr>pool_heap := h\<rparr>" "evs = []" "r = Inl e"
  | (linked) sg h tk t2 s2 lr where
      "stg = Some sg" "task_id t \<noteq> []" "nodes s (task_id t) = None"
      "cpu_slots (normalize_demand (demand t)) \<le> cpu_slots_hard (budget s)"
      "t2 = t\<lparr>demand := normalize_demand (demand t), cancel_token := tk\<rparr>"
      "\<not> creates_cycle (successors s) (task_id t) (deps t)"
      "link_deps (s\<lparr>pool_heap := h\<rparr>) (task_id t) (deps t) 0 = (s2, lr)"
      "insert_linked now s2 t2 sg lr = (s', evs, r)"
proof -
  let ?t1 = "t\<lparr>demand := normalize_demand (demand t)\<rparr>"
  have keep: "s = s\<lparr>pool_heap := pool_heap s\<rparr>" by simp
  show thesis
  proof (cases "\<exists>sg. stg = Some sg \<and> task_id t \<noteq> [] \<and> nodes s (task_id t) = None \<and>
      cpu_slots (normalize_demand (demand t)) \<le> cpu_slots_hard (budget s)")
    case False
    with assms have "s' = s" "evs = []" "\<exists>e. r = Inl e"
      by (auto simp: pool_submit_def Let_def not_le split: option.splits if_splits)
    with rejected [of "pool_heap s"] show thesis by auto
  next
    case True
    then obtain sg where ok: "stg = Some sg" "task_id t \<noteq> []" "nodes s (task_id t) = None"
      "cpu_slots (normalize_demand (demand t)) \<le> cpu_slots_hard (budget s)" by blast
    obtain s1 t2 where tok: "ensure_token s ?t1 = (s1, t2)" by fastforce
    from ensure_token_frame [OF tok] obtain h tk where
      s1: "s1 = s\<lparr>pool_heap := h\<rparr>" and t2: "t2 = ?t1\<lparr>cancel_token := tk\<rparr>" by blast
    obtain s2 lr where l: "link_deps s1 (task_id t) (deps t) 0 = (s2, lr)" by fastforce
    show thesis
    proof (cases "creates_cycle (successors s) (task_id t) (deps t)")
      case True
      with assms ok tok s1 t2 have "s' = s1" "evs = []" "r = Inl (err_cycle (task_id t))"
        by (simp_all add: pool_submit_def Let_def)
      with s1 show thesis by (intro rejected) auto
    next
      case False
      with assms ok tok s1 t2 l have "insert_linked now s2 t2 sg lr = (s', evs, r)"
        by (simp add: pool_submit_def Let_def)
      with ok s1 t2 l False show thesis by (intro linked) auto
    qed
  qed
qed

text \<open>
  What a submission with the initial state does: refused before or while its dependencies are
  recorded, or a node is inserted that is ready, waiting for dependencies, or canceled because one
  of them ended without success.
\<close>

lemma insert_linked_node:
  assumes "insert_linked now s t sg lr = (s', evs, r)" and q: "tstate t = Queued" and e: "\<And>e. lr \<noteq> Link_error e"
  obtains n where "r = Ok" "nstage n = sg" "\<not> nrunning n" "\<not> pause_requested n"
    "s' = emplace_node n (s\<lparr>ready_set := (if nstate n = Ready then set_insert (task_id t) (ready_set s) else ready_set s)\<rparr>)"
    "evs = (if nstate n = Queued then [] else [StateEvent (task_id t) (nstate n) (progress (ntask n))])"
    "nstate n = Queued \<and> lr = Linked (unmet_deps n) \<and> 0 < unmet_deps n \<and> ntask n = t \<or>
     nstate n = Ready \<and> lr = Linked 0 \<and> unmet_deps n = 0 \<and> ntask n = apply_transition now t Ready \<or>
     nstate n = Canceled \<and> (\<exists>d. lr = Link_blocked d (unmet_deps n) \<and>
       ntask n = apply_transition now (t\<lparr>terror := Some (err_dep_failed d)\<rparr>) Canceled)"
proof (cases lr)
  case (Linked v)
  let ?n = "mk_node now (if v = 0 then apply_transition now t Ready else t) sg v"
  show thesis
    by (rule that [of ?n]) (use assms(1) Linked q in \<open>auto simp: insert_linked_def mk_node_def split: if_splits\<close>)
next
  case (Link_blocked d v)
  let ?n = "mk_node now (apply_transition now (t\<lparr>terror := Some (err_dep_failed d)\<rparr>) Canceled) sg v"
  have "(s', evs, r) = (emplace_node ?n s, [StateEvent (task_id t) Canceled (progress (ntask ?n))], Ok)"
    using assms(1) Link_blocked q by (simp add: insert_linked_def mk_node_def)
  then show thesis
    by (intro that [of ?n]) (simp_all add: mk_node_def Link_blocked)
qed (use e in simp)

lemma pool_submit_outcome:
  assumes sub: "pool_submit now s t stg = (s', evs, r)" and q: "tstate t = Queued"
  obtains (refused) h g e where "s' = s\<lparr>pool_heap := h, successors := g\<rparr>" "evs = []" "r = Inl e"
      "nodes s (task_id t) = None \<or> g = successors s"
      "\<forall>d. \<exists>c \<le> count_list (deps t) d. succs g d = succs (successors s) d @ replicate c (task_id t)"
      "set (deps t) \<subseteq> dom (nodes s) \<Longrightarrow> g = successors s"
  | (inserted) sg h g lr n where
      "stg = Some sg" "nodes s (task_id t) = None" "r = Ok"
      "cpu_slots (normalize_demand (demand t)) \<le> cpu_slots_hard (budget s)"
      "link_deps (s\<lparr>pool_heap := h\<rparr>) (task_id t) (deps t) 0 = (s\<lparr>pool_heap := h, successors := g\<rparr>, lr)"
      "s' = emplace_node n (s\<lparr>pool_heap := h, successors := g,
         ready_set := (if nstate n = Ready then set_insert (task_id t) (ready_set s) else ready_set s)\<rparr>)"
      "evs = (if nstate n = Queued then [] else [StateEvent (task_id t) (nstate n) (progress (ntask n))])"
      "nstage n = sg" "\<not> nrunning n" "\<not> pause_requested n"
      "task_id (ntask n) = task_id t" "deps (ntask n) = deps t" "ttype (ntask n) = ttype t"
      "demand (ntask n) = normalize_demand (demand t)" "task_wf t \<Longrightarrow> task_wf (ntask n)"
      "nstate n = Queued \<and> lr = Linked (unmet_deps n) \<and> 0 < unmet_deps n \<or>
       nstate n = Ready \<and> lr = Linked 0 \<and> unmet_deps n = 0 \<or>
       nstate n = Canceled \<and> terror (ntask n) \<noteq> None \<and> (\<exists>d. lr = Link_blocked d (unmet_deps n))"
      "\<forall>d. \<exists>c \<le> count_list (deps t) d. succs g d = succs (successors s) d @ replicate c (task_id t)"
      "nstate n \<noteq> Canceled \<Longrightarrow> unmet_deps n = unmet_count s (deps t) \<and> set (deps t) \<subseteq> dom (nodes s)"
  using sub
proof (cases rule: pool_submit_cases)
  case (rejected h e)
  show thesis by (rule that(1) [where h = h and g = "successors s" and e = e]) (auto simp: rejected intro: exI [of _ "0::nat"])
next
  case (linked sg h tk t2 s2 lr)
  from link_deps_frame [OF linked(7)] obtain g where s2: "s2 = s\<lparr>pool_heap := h, successors := g\<rparr>" by auto
  show thesis
  proof (cases "\<exists>e. lr = Link_error e")
    case True
    then obtain e where e: "lr = Link_error e" by blast
    have "\<not> set (deps t) \<subseteq> dom (nodes s)"
    proof
      assume d: "set (deps t) \<subseteq> dom (nodes s)"
      then have "task_id t \<notin> set (deps t)" using linked(3) by auto
      with link_deps_known [OF linked(7)] d e show False by simp
    qed
    with linked(3,8) e s2 link_deps_known [OF linked(7)] show thesis
      by (intro that(1) [where h = h and g = g]) (auto simp: insert_linked_def)
  next
    case False
    have t2: "tstate t2 = Queued" "task_id t2 = task_id t" using q by (simp_all add: linked(5))
    have wf: "task_wf t2" "task_wf (t2\<lparr>terror := x\<rparr>)" if "task_wf t" for x
      using that q by (simp_all add: linked(5) task_wf_def)
    from False have "\<And>e. lr \<noteq> Link_error e" by blast
    with linked(8) t2(1) show thesis
    proof (rule insert_linked_node)
      fix n
      assume n: "r = Ok" "nstage n = sg" "\<not> nrunning n" "\<not> pause_requested n"
        "s' = emplace_node n (s2\<lparr>ready_set := (if nstate n = Ready then set_insert (task_id t2) (ready_set s2) else ready_set s2)\<rparr>)"
        "evs = (if nstate n = Queued then [] else [StateEvent (task_id t2) (nstate n) (progress (ntask n))])"
        "nstate n = Queued \<and> lr = Linked (unmet_deps n) \<and> 0 < unmet_deps n \<and> ntask n = t2 \<or>
         nstate n = Ready \<and> lr = Linked 0 \<and> unmet_deps n = 0 \<and> ntask n = apply_transition now t2 Ready \<or>
         nstate n = Canceled \<and> (\<exists>d. lr = Link_blocked d (unmet_deps n) \<and>
           ntask n = apply_transition now (t2\<lparr>terror := Some (err_dep_failed d)\<rparr>) Canceled)"
      from n(7) have f: "task_id (ntask n) = task_id t" "deps (ntask n) = deps t" "ttype (ntask n) = ttype t"
        "demand (ntask n) = normalize_demand (demand t)" by (auto simp: linked(5))
      have w: "task_wf (ntask n)" if "task_wf t"
        using n(7) wf [OF that] t2(1) by (auto intro!: task_wf_apply)
      show thesis
        by (rule that(2) [OF linked(1,3) n(1) linked(4) linked(7) [unfolded s2] _ _ n(2-4) f w])
           (use n(5-7) t2 link_deps_known [OF linked(7)] in \<open>auto simp: s2 unmet_count_def done_in_def\<close>)
    qed
  qed
qed

text \<open>Submissions whose dependencies are known leave no edges when they are refused.\<close>

lemma submit_tidy:
  assumes sub: "pool_submit now s t stg = (s', evs, r)" and q: "tstate t = Queued"
    and known: "set (deps t) \<subseteq> dom (nodes s)" and t: "tidy s"
  shows "tidy s'"
  using sub q
proof (cases rule: pool_submit_outcome)
  case (refused h g e)
  with known t show ?thesis by (simp add: tidy_def)
next
  case (inserted sg h g lr n)
  have "i = task_id t \<or> nodes s i \<noteq> None" if i: "i \<in> set (succs g d)" for d i
  proof -
    from inserted(17) obtain c where "succs g d = succs (successors s) d @ replicate c (task_id t)" by blast
    with i t show ?thesis by (auto simp: tidy_def)
  qed
  with inserted(11) show ?thesis by (auto simp: inserted(6) tidy_def emplace_node_def)
qed

lemma leak_inv:
  assumes inv: "pool_inv s" and new: "nodes s i = None \<or> g = successors s"
    and edges: "\<forall>d. \<exists>c \<le> count_list ds d. succs g d = succs (successors s) d @ replicate c i"
  shows "pool_inv (s\<lparr>pool_heap := h, successors := g\<rparr>)"
proof -
  have "count_list (succs g d) j = count_list (succs (successors s) d) j" if "nodes s j = Some m" for d j m
  proof -
    from edges obtain c where c: "succs g d = succs (successors s) d @ replicate c i" by blast
    from new that have "j \<noteq> i \<or> g = successors s" by auto
    then show ?thesis
    proof
      assume "j \<noteq> i"
      then have "count_list (replicate c i) j = 0" by (simp add: count_list_0_iff)
      with c show ?thesis by simp
    qed simp
  qed
  with inv show ?thesis
    by (auto simp: pool_inv_def pool_core_def wf_index_def wf_nodes_def wf_ready_def wf_running_def wf_usage_def
        within_budget_def wf_edges_def wf_deps_def node_demand_def done_in_def unmet_count_def cong: map_cong)
qed

lemma pool_submit_inv:
  assumes inv: "pool_inv s" and t: "fresh_task t" "sane_demand (config s) (demand t)" "unleaked s (task_id t)"
    and sub: "pool_submit now s t stg = (s', evs, r)"
  shows "pool_inv s'"
proof -
  have q: "tstate t = Queued" "task_wf t" using t(1) by (simp_all add: fresh_task_def)
  from sub q(1) show ?thesis
  proof (cases rule: pool_submit_outcome)
    case (refused h g e)
    with leak_inv [OF inv refused(4,5)] show ?thesis by simp
  next
    case (inserted sg h g lr n)
    have "config_ok (config s)" using inv by (simp add: pool_inv_def pool_core_def)
    from normalize_demand_ok [OF t(2) this inserted(4)] have dm: "demand_ok (config s) (demand (ntask n))"
      by (simp add: inserted(14))
    have none: "\<forall>d \<in> set (deps t). done_in s d" if "unmet_count s (deps t) = 0"
      using that by (auto simp: unmet_count_def filter_empty_conv)
    show ?thesis
      by (rule inv_insert [OF inv inserted(2) t(3), of n])
         (use inserted(9-18) q dm none in
           \<open>auto simp: inserted(6) emplace_node_def node_ok_def exec_ok_def\<close>)
  qed
qed

section \<open>Dispatch\<close>

lemma capped_sum:
  fixes xs :: "int list"
  assumes x: "\<And>x. x \<in> set xs \<Longrightarrow> 0 \<le> x \<and> x * w \<le> INT_MAX" and w: "int (length xs) \<le> w" "0 < w"
  shows "0 \<le> sum_list xs" "sum_list xs \<le> INT_MAX"
proof -
  show "0 \<le> sum_list xs" using x by (induction xs) auto
  have "sum_list ys * w \<le> int (length ys) * INT_MAX" if "set ys \<subseteq> set xs" for ys
    using that by (induction ys) (auto simp: algebra_simps dest: x)
  then have "sum_list xs * w \<le> int (length xs) * INT_MAX" by simp
  also have "\<dots> \<le> w * INT_MAX" using w by (intro mult_right_mono) (auto simp: INT_MAX_def)
  finally show "sum_list xs \<le> INT_MAX" using w(2) by (simp add: mult.commute)
qed

lemma running_demand_ok:
  assumes "pool_core s" "j \<in> set (running_set s)"
  shows "demand_ok (config s) (node_demand s j)"
  using assms by (auto simp: pool_core_def wf_running_def wf_nodes_def node_ok_def node_demand_def)

lemma usage_bound:
  assumes core: "pool_core s" and n: "nodes s i = Some n"
    and free: "length (running_set s) < nat (worker_count (config s))"
  shows "0 \<le> used_ram (in_use s)" "used_ram (in_use s) + ram_mb (demand (ntask n)) \<le> INT_MAX"
    "0 \<le> used_vram (in_use s)" "used_vram (in_use s) + vram_mb (demand (ntask n)) \<le> INT_MAX"
proof -
  have u: "wf_usage s" and w: "0 < worker_count (config s)" and di: "demand_ok (config s) (demand (ntask n))"
    using core n by (simp_all add: pool_core_def config_ok_def wf_nodes_def node_ok_def)
  have len: "int (length (x # map f (running_set s))) \<le> worker_count (config s)" for x :: int and f
    using free by simp
  have dm: "0 \<le> ram_mb d \<and> ram_mb d * worker_count (config s) \<le> INT_MAX \<and>
      0 \<le> vram_mb d \<and> vram_mb d * worker_count (config s) \<le> INT_MAX"
    if "d = demand (ntask n) \<or> (\<exists>j \<in> set (running_set s). d = node_demand s j)" for d
    using that di running_demand_ok [OF core] by (auto simp: demand_ok_def)
  have "0 \<le> sum_list (ram_mb (demand (ntask n)) # map (\<lambda>j. ram_mb (node_demand s j)) (running_set s)) \<and>
      sum_list (ram_mb (demand (ntask n)) # map (\<lambda>j. ram_mb (node_demand s j)) (running_set s)) \<le> INT_MAX"
    by (intro conjI capped_sum [OF _ len w]) (use dm in auto)
  then show "used_ram (in_use s) + ram_mb (demand (ntask n)) \<le> INT_MAX"
    using u by (simp add: wf_usage_def)
  have "0 \<le> sum_list (vram_mb (demand (ntask n)) # map (\<lambda>j. vram_mb (node_demand s j)) (running_set s)) \<and>
      sum_list (vram_mb (demand (ntask n)) # map (\<lambda>j. vram_mb (node_demand s j)) (running_set s)) \<le> INT_MAX"
    by (intro conjI capped_sum [OF _ len w]) (use dm in auto)
  then show "used_vram (in_use s) + vram_mb (demand (ntask n)) \<le> INT_MAX"
    using u by (simp add: wf_usage_def)
  show "0 \<le> used_ram (in_use s)" "0 \<le> used_vram (in_use s)"
    using u dm by (auto simp: wf_usage_def intro!: sum_list_nonneg_int)
qed

lemma usage_range:
  assumes core: "pool_core s"
  shows "used_cpu (in_use s) \<le> INT_MAX" "used_ram (in_use s) \<le> INT_MAX" "used_vram (in_use s) \<le> INT_MAX"
proof -
  have u: "wf_usage s" and b: "within_budget s" and c: "config_ok (config s)"
    using core by (simp_all add: pool_core_def)
  have w: "0 < worker_count (config s)" using c by (simp add: config_ok_def)
  have len: "int (length (map f (running_set s))) \<le> worker_count (config s)" for f :: "string \<Rightarrow> int"
    using b by (simp add: within_budget_def)
  show "used_cpu (in_use s) \<le> INT_MAX" using b c by (simp add: within_budget_def config_ok_def)
  have "sum_list (map (\<lambda>j. ram_mb (node_demand s j)) (running_set s)) \<le> INT_MAX"
    "sum_list (map (\<lambda>j. vram_mb (node_demand s j)) (running_set s)) \<le> INT_MAX"
    by (rule capped_sum(2) [OF _ len w], use running_demand_ok [OF core] in \<open>auto simp: demand_ok_def\<close>)+
  with u show "used_ram (in_use s) \<le> INT_MAX" "used_vram (in_use s) \<le> INT_MAX"
    by (simp_all add: wf_usage_def)
qed

lemma cpu_bound:
  assumes "pool_core s" "nodes s i = Some n"
  shows "0 \<le> used_cpu (in_use s)" "used_cpu (in_use s) + cpu_slots (demand (ntask n)) \<le> INT_MAX"
proof -
  have u: "wf_usage s" and nd: "wf_nodes s" and rn: "wf_running s" and b: "within_budget s"
    and c: "config_ok (config s)" using assms(1) by (simp_all add: pool_core_def)
  have "0 \<le> cpu_slots (node_demand s j)" if "j \<in> set (running_set s)" for j
    using that nd rn by (fastforce simp: wf_running_def wf_nodes_def node_ok_def node_demand_def demand_ok_def)
  then show "0 \<le> used_cpu (in_use s)"
    using u by (auto simp: wf_usage_def intro: sum_list_nonneg_int)
  have "cpu_slots (demand (ntask n)) \<le> cpu_slots_hard (budget s)"
    using nd assms(2) by (simp add: wf_nodes_def node_ok_def demand_ok_def)
  with b c show "used_cpu (in_use s) + cpu_slots (demand (ntask n)) \<le> INT_MAX"
    by (simp add: within_budget_def config_ok_def)
qed

text \<open>What a dispatch does: always to the picked candidate, always from \<open>Ready\<close> to \<open>Running\<close>.\<close>

definition started_node :: "int \<Rightarrow> node \<Rightarrow> node" where
  "started_node now n = (clear_pause n)\<lparr>ntask := apply_transition now (ntask n) Running, nrunning := True\<rparr>"

definition dispatched :: "int \<Rightarrow> pool \<Rightarrow> string \<Rightarrow> node \<Rightarrow> pool" where
  "dispatched now s i n = (put_node i (started_node now n) (s\<lparr>ready_set := remove1 i (ready_set s)\<rparr>))
     \<lparr>in_use := reserve_resources (demand (ntask n)) (in_use s),
       running_set := set_insert i (running_set s)\<rparr>"

lemma worker_begin_idle:
  "pick_candidate now s True = None \<Longrightarrow> worker_begin now s = (s, [], None)"
  by (simp add: worker_begin_def)

lemma worker_begin_dispatch:
  assumes p: "pick_candidate now s True = Some c" and b: "worker_begin now s = (s', evs, dd)"
  shows "\<exists>n d. nodes s (cand_id c) = Some n \<and> nstate n = Ready \<and> s' = dispatched now s (cand_id c) n \<and>
    evs = [StateEvent (cand_id c) Running (progress (ntask n))] \<and> dd = Some d \<and>
    dtask d = cand_id c \<and> dstage d = nstage n \<and> ctx_cancel_token (dctx d) = cancel_token (ntask n) \<and>
    ctx_trace_id (dctx d) = trace_id (ntask n) \<and>
    ctx_inputs (dctx d) = collect_outputs (nodes s') (deps (ntask n)) Map.empty"
proof -
  from pick_candidate_Some(2) [OF p] obtain n where n: "nodes s (cand_id c) = Some n" "nstate n = Ready"
    by (auto simp: eligible_Some)
  with p b show ?thesis
    by (auto simp: worker_begin_def Let_def dispatched_def started_node_def put_node_def new_context_def)
qed

lemma begin_cases:
  assumes b: "worker_begin now s = (s', evs, dd)"
  obtains (idle) "s' = s" "evs = []" "dd = None"
  | (runs) c n d where "pick_candidate now s True = Some c" "nodes s (cand_id c) = Some n" "nstate n = Ready"
      "s' = dispatched now s (cand_id c) n" "evs = [StateEvent (cand_id c) Running (progress (ntask n))]"
      "dd = Some d" "dtask d = cand_id c"
proof (cases "pick_candidate now s True")
  case None
  with b show thesis by (intro idle) (simp_all add: worker_begin_idle)
next
  case (Some c)
  from worker_begin_dispatch [OF this b] show thesis using runs [OF Some] by blast
qed

lemma dispatched_simps [simp]:
  "nodes (dispatched now s i n) = (nodes s)(i \<mapsto> started_node now n)"
  "config (dispatched now s i n) = config s" "node_order (dispatched now s i n) = node_order s"
  "successors (dispatched now s i n) = successors s" "stopping (dispatched now s i n) = stopping s"
  "ready_set (dispatched now s i n) = remove1 i (ready_set s)"
  "running_set (dispatched now s i n) = set_insert i (running_set s)"
  "in_use (dispatched now s i n) = reserve_resources (demand (ntask n)) (in_use s)"
  by (simp_all add: dispatched_def)

lemma started_node_simps [simp]:
  "nstate (started_node now n) = Running" "nrunning (started_node now n)"
  "task_id (ntask (started_node now n)) = task_id (ntask n)"
  "demand (ntask (started_node now n)) = demand (ntask n)"
  "deps (ntask (started_node now n)) = deps (ntask n)"
  "unmet_deps (started_node now n) = unmet_deps n"
  by (simp_all add: started_node_def)

lemma deps_same:
  assumes w: "wf_deps slack s" and n: "nodes s i = Some n"
    and s': "nodes s' = (nodes s)(i \<mapsto> n')" "deps (ntask n') = deps (ntask n)"
      "nstate n' = Succeeded \<longleftrightarrow> nstate n = Succeeded" "started (ntask n)" "\<not> waiting (ntask n')"
  shows "wf_deps slack s'"
proof -
  have dn: "done_in s' = done_in s" using n s' by (intro ext) (auto simp: done_in_def)
  then have "unmet_count s' = unmet_count s" by (intro ext) (simp add: unmet_count_def)
  with w n s' dn show ?thesis by (auto simp: wf_deps_def)
qed

text \<open>A task that is picked fits.\<close>

lemma dispatched_budget:
  assumes core: "pool_core s" and free: "length (running_set s) < nat (worker_count (config s))"
    and p: "pick_candidate now s True = Some c" and n: "nodes s (cand_id c) = Some n"
    and fresh: "cand_id c \<notin> set (running_set s)"
    and use': "in_use (dispatched now s (cand_id c) n) =
      \<lparr>used_cpu = used_cpu (in_use s) + cpu_slots (demand (ntask n)),
       used_ram = used_ram (in_use s) + ram_mb (demand (ntask n)),
       used_vram = used_vram (in_use s) + vram_mb (demand (ntask n))\<rparr>"
  shows "within_budget (dispatched now s (cand_id c) n)"
proof -
  let ?s' = "dispatched now s (cand_id c) n"
  have q: "config_ok (config s)" and no: "node_ok (config s) n"
    using core n by (simp_all add: pool_core_def wf_nodes_def)
  from pick_candidate_Some(2) [OF p] n have fits: "fits_cpu_hard s (demand (ntask n))"
    and c: "c = mk_candidate now s (cand_id c) n" by (auto simp: eligible_Some)
  have "used_cpu (in_use s) + cpu_slots (demand (ntask n)) \<le> cpu_slots_hard (budget s)"
    using fits cpu_bound [OF core n] no
    by (simp add: fits_cpu_hard_def i32_id INT_MAX_def node_ok_def demand_ok_def)
  moreover have "int (length (running_set ?s')) \<le> worker_count (config s)"
    using free fresh by (simp add: set_insert_def)
  moreover have "(ram_soft_mb (budget s) = 0 \<or>
        used_ram (in_use s) + ram_mb (demand (ntask n)) \<le> ram_soft_mb (budget s)) \<and>
      (vram_soft_mb (budget s) = 0 \<or>
        used_vram (in_use s) + vram_mb (demand (ntask n)) \<le> vram_soft_mb (budget s))"
    if "running_set s \<noteq> []"
  proof -
    have "soft_fit c" using pick_candidate_Some(3) [OF p] that by simp
    then have "fits_soft s (demand (ntask n))" by (subst (asm) c) (simp add: mk_candidate_def)
    then show ?thesis
      using usage_bound [OF core n free] no q
      by (auto simp: fits_soft_def i32_id INT_MAX_def node_ok_def demand_ok_def config_ok_def)
  qed
  moreover have "1 < length (running_set ?s') \<longrightarrow> running_set s \<noteq> []"
    using fresh by (auto simp: set_insert_def)
  ultimately show ?thesis unfolding within_budget_def use' by simp
qed

lemma inv_dispatch:
  assumes inv: "pool_inv s" and free: "length (running_set s) < nat (worker_count (config s))"
    and p: "pick_candidate now s True = Some c" and n: "nodes s (cand_id c) = Some n" "nstate n = Ready"
  shows "pool_inv (dispatched now s (cand_id c) n)"
proof -
  let ?i = "cand_id c" and ?s' = "dispatched now s (cand_id c) n"
  have core: "pool_core s" and w: "wf_deps [] s" using inv by (simp_all add: pool_inv_def)
  then have q: "config_ok (config s)" "wf_index s" "wf_nodes s" "wf_ready s" "wf_running s"
    "wf_usage s" "within_budget s" "wf_edges s" by (simp_all add: pool_core_def)
  have no: "node_ok (config s) n" using q(3) n(1) by (simp add: wf_nodes_def)
  have nrun: "\<not> nrunning n" using no n(2) by (auto simp: node_ok_def exec_ok_def)
  then have fresh: "?i \<notin> set (running_set s)" using q(5) n(1) by (auto simp: wf_running_def)
  have use': "in_use ?s' = \<lparr>used_cpu = used_cpu (in_use s) + cpu_slots (demand (ntask n)),
      used_ram = used_ram (in_use s) + ram_mb (demand (ntask n)),
      used_vram = used_vram (in_use s) + vram_mb (demand (ntask n))\<rparr>"
    using usage_bound [OF core n(1) free] cpu_bound [OF core n(1)] no
    by (simp add: reserve_resources_def i32_id INT_MAX_def node_ok_def demand_ok_def)
  have idx: "wf_index ?s'" using q(2) n(1) by (auto simp: wf_index_def)
  have wf: "task_wf (ntask (started_node now n))"
    using task_wf_apply [of "ntask n" Running now] no n(2) by (simp add: node_ok_def started_node_def)
  have nds: "wf_nodes ?s'"
    using q(3) no wf by (auto simp: wf_nodes_def node_ok_def exec_ok_def)
  have rdy: "wf_ready ?s'" using q(4) n by (auto simp: wf_ready_def)
  have run: "wf_running ?s'" using q(5) fresh by (auto simp: wf_running_def set_insert_def)
  have dem: "node_demand ?s' j = (if j = ?i then demand (ntask n) else node_demand s j)" for j
    by (simp add: node_demand_def)
  have same: "map (\<lambda>j. f (node_demand ?s' j)) (running_set s) = map (\<lambda>j. f (node_demand s j)) (running_set s)"
    for f :: "resource_demand \<Rightarrow> int" using fresh dem by auto
  have usg: "wf_usage ?s'"
    using q(6) fresh unfolding wf_usage_def use' dispatched_simps(7) set_insert_def
    by (simp add: same) (simp add: dem)
  have bud: "within_budget ?s'" by (rule dispatched_budget [OF core free p n(1) fresh use'])
  have edg: "wf_edges ?s'"
    using q(8) n(1) unfolding wf_edges_def dispatched_simps by (metis (no_types, lifting)
      fun_upd_apply option.inject started_node_simps(5))
  have "started (ntask n)" using n(2) by (simp add: started_def)
  then have "wf_deps [] ?s'"
    by (intro deps_same [OF w n(1), of ?s' "started_node now n"]) (simp_all add: n(2) started_node_def waiting_def)
  with q(1) idx nds rdy run usg bud edg show ?thesis by (simp add: pool_inv_def pool_core_def)
qed

section \<open>The end of an execution\<close>

definition release_running :: "string \<Rightarrow> node \<Rightarrow> pool \<Rightarrow> pool" where
  "release_running i n s = s\<lparr>running_set := remove1 i (running_set s),
     in_use := release_resources (demand (ntask n)) (in_use s)\<rparr>"

lemma release_running_simps [simp]:
  "nodes (release_running i n s) = nodes s" "config (release_running i n s) = config s"
  "node_order (release_running i n s) = node_order s" "successors (release_running i n s) = successors s"
  "ready_set (release_running i n s) = ready_set s" "stopping (release_running i n s) = stopping s"
  "running_set (release_running i n s) = remove1 i (running_set s)"
  "in_use (release_running i n s) = release_resources (demand (ntask n)) (in_use s)"
  "pool_heap (release_running i n s) = pool_heap s"
  by (simp_all add: release_running_def)

lemma stop_running_eq:
  "nrunning n \<Longrightarrow> stop_running i n s = (release_running i n s, n\<lparr>nrunning := False\<rparr>)"
  by (simp add: stop_running_def release_running_def)

text \<open>
  The execution of \<open>i\<close> ends in a terminal state; a success leaves one wake-up per recorded edge
  still to be delivered.
\<close>

lemma unmet_count_step:
  assumes "\<not> done_in s i" "\<And>d. done_in s' d \<longleftrightarrow> d = i \<or> done_in s d"
  shows "unmet_count s ds = unmet_count s' ds + count_list ds i"
  using assms by (induction ds) (auto simp: unmet_count_def)

text \<open>What the end of a task gives back.\<close>

lemma released_usage:
  assumes core: "pool_core s" and n: "nodes s i = Some n" "nrunning n"
  shows "in_use (release_running i n s) =
      \<lparr>used_cpu = sum_list (map (\<lambda>i. cpu_slots (node_demand s i)) (remove1 i (running_set s))),
       used_ram = sum_list (map (\<lambda>i. ram_mb (node_demand s i)) (remove1 i (running_set s))),
       used_vram = sum_list (map (\<lambda>i. vram_mb (node_demand s i)) (remove1 i (running_set s)))\<rparr>" (is "?use = _")
    and "used_cpu (in_use (release_running i n s)) \<le> used_cpu (in_use s)"
      "used_ram (in_use (release_running i n s)) \<le> used_ram (in_use s)"
      "used_vram (in_use (release_running i n s)) \<le> used_vram (in_use s)"
proof -
  let ?rest = "\<lambda>f :: resource_demand \<Rightarrow> int. sum_list (map (\<lambda>i. f (node_demand s i)) (remove1 i (running_set s)))"
  have q: "wf_nodes s" "wf_running s" "wf_usage s" using core by (simp_all add: pool_core_def)
  have ir: "i \<in> set (running_set s)" using q(2) n by (auto simp: wf_running_def)
  have nn: "0 \<le> cpu_slots (node_demand s j) \<and> 0 \<le> ram_mb (node_demand s j) \<and> 0 \<le> vram_mb (node_demand s j)"
    if "j \<in> set (running_set s)" for j
    using that q(1,2) by (fastforce simp: wf_running_def wf_nodes_def node_ok_def node_demand_def demand_ok_def)
  have rem: "?rest f = sum_list (map (\<lambda>i. f (node_demand s i)) (running_set s)) - f (node_demand s i)" for f
    using ir by (simp add: sum_list_remove1_int)
  have rel: "max 0 (i32 (sum_list (map (\<lambda>i. f (node_demand s i)) (running_set s)) - f (node_demand s i))) = ?rest f"
    if "\<And>j. j \<in> set (running_set s) \<Longrightarrow> 0 \<le> f (node_demand s j)"
      "sum_list (map (\<lambda>i. f (node_demand s i)) (running_set s)) \<le> INT_MAX" for f
  proof -
    have "0 \<le> ?rest f" using that(1) by (intro sum_list_nonneg_int) (auto dest: notin_set_remove1)
    moreover have "0 \<le> f (node_demand s i)" by (rule that(1) [OF ir])
    ultimately show ?thesis using that(2) by (simp add: rem i32_id INT_MAX_def)
  qed
  have uses: "used_cpu (in_use s) = sum_list (map (\<lambda>i. cpu_slots (node_demand s i)) (running_set s))"
    "used_ram (in_use s) = sum_list (map (\<lambda>i. ram_mb (node_demand s i)) (running_set s))"
    "used_vram (in_use s) = sum_list (map (\<lambda>i. vram_mb (node_demand s i)) (running_set s))"
    using q(3) by (simp_all add: wf_usage_def)
  have di: "demand (ntask n) = node_demand s i" using n(1) by (simp add: node_demand_def)
  show use': "?use = \<lparr>used_cpu = ?rest cpu_slots, used_ram = ?rest ram_mb, used_vram = ?rest vram_mb\<rparr>"
    using rel [of cpu_slots] rel [of ram_mb] rel [of vram_mb] nn usage_range [OF core]
    by (simp add: release_resources_def uses di)
  show "used_cpu ?use \<le> used_cpu (in_use s)" "used_ram ?use \<le> used_ram (in_use s)"
    "used_vram ?use \<le> used_vram (in_use s)"
    using nn [OF ir] unfolding use' uses by (simp_all add: rem)
qed

text \<open>What the end of a task means for those that wait for it.\<close>

lemma deps_after_end:
  assumes w: "wf_deps [] s" and e: "wf_edges s" and n: "nodes s i = Some n" "nstate n \<noteq> Succeeded"
    and s': "nodes s' = (nodes s)(i \<mapsto> n')" "deps (ntask n') = deps (ntask n)" "is_terminal (nstate n')"
    and started: "started (ntask n') \<Longrightarrow> started (ntask n)"
  shows "wf_deps (if nstate n' = Succeeded then succs (successors s) i else []) s'"
  unfolding wf_deps_def
proof (intro allI impI)
  let ?slack = "if nstate n' = Succeeded then succs (successors s) i else []"
  fix j m
  assume m: "nodes s' j = Some m"
  have nd: "\<not> done_in s i" using n by (simp add: done_in_def)
  have dn: "done_in s' d \<longleftrightarrow> d = i \<and> nstate n' = Succeeded \<or> done_in s d" for d
    using nd by (auto simp: done_in_def s')
  show "(started (ntask m) \<longrightarrow> (\<forall>d \<in> set (deps (ntask m)). done_in s' d)) \<and>
    (waiting (ntask m) \<longrightarrow> unmet_count s' (deps (ntask m)) + count_list ?slack j \<le> unmet_deps m)"
  proof (cases "j = i")
    case True
    with m have me: "m = n'" by (simp add: s')
    from w n(1) started s'(2,3) show ?thesis
      unfolding me dn by (auto simp: wf_deps_def waiting_def)
  next
    case False
    with m have mj: "nodes s j = Some m" by (simp add: s')
    have "unmet_count s' (deps (ntask m)) + count_list ?slack j \<le> unmet_count s (deps (ntask m))"
    proof (cases "nstate n' = Succeeded")
      case True
      have "count_list (succs (successors s) i) j \<le> count_list (deps (ntask m)) i"
        using e mj by (simp add: wf_edges_def)
      with True unmet_count_step [OF nd, of s' "deps (ntask m)"] dn show ?thesis by simp
    next
      case False
      with dn have "done_in s' = done_in s" by (intro ext) simp
      with False show ?thesis by (simp add: unmet_count_def)
    qed
    with w mj show ?thesis unfolding dn by (fastforce simp: wf_deps_def)
  qed
qed

lemma inv_finish:
  assumes inv: "pool_inv s" and n: "nodes s i = Some n" "nrunning n"
    and n': "core_node (n\<lparr>nrunning := False\<rparr>) n'" "is_terminal (nstate n')" "task_wf (ntask n')"
    and started: "nstate n' \<noteq> Canceled \<Longrightarrow> nstate n = Running"
    and ready: "nstate n \<noteq> Ready"
  shows "pool_core (put_node i n' (release_running i n s))"
    "wf_deps (if nstate n' = Succeeded then succs (successors s) i else [])
       (put_node i n' (release_running i n s))"
proof -
  let ?s' = "put_node i n' (release_running i n s)"
  have core: "pool_core s" and w: "wf_deps [] s" using inv by (simp_all add: pool_inv_def)
  then have q: "config_ok (config s)" "wf_index s" "wf_nodes s" "wf_ready s" "wf_running s"
    "wf_usage s" "within_budget s" "wf_edges s" by (simp_all add: pool_core_def)
  note nc = core_nodeD [OF n'(1), simplified]
  have simps: "nodes ?s' = (nodes s)(i \<mapsto> n')" "config ?s' = config s" "node_order ?s' = node_order s"
    "successors ?s' = successors s" "ready_set ?s' = ready_set s"
    "running_set ?s' = remove1 i (running_set s)" "in_use ?s' = in_use (release_running i n s)"
    by simp_all
  note use' = released_usage [OF core n]
  have no: "node_ok (config s) n" using q(3) n(1) by (simp add: wf_nodes_def)
  have idx: "wf_index ?s'" using q(2) n(1) nc(1) unfolding wf_index_def simps by auto
  have nds: "wf_nodes ?s'"
    using q(3) no n'(2,3) nc(3,4) unfolding wf_nodes_def simps by (auto simp: node_ok_def exec_ok_def)
  have rdy: "wf_ready ?s'" using q(4) n(1) ready n'(2) unfolding wf_ready_def simps by auto
  have run: "wf_running ?s'" using q(5) nc(4) unfolding wf_running_def simps by auto
  have dem: "node_demand ?s' j = node_demand s j" for j
    using n(1) nc(3) by (simp add: node_demand_def simps del: put_node_simps)
  have usg: "wf_usage ?s'" unfolding wf_usage_def simps(6,7) use'(1) dem by simp
  have "length (running_set ?s') \<le> length (running_set s)" unfolding simps(6) by (simp add: length_remove1)
  then have bud: "within_budget ?s'"
    using q(7) use'(2-4) unfolding within_budget_def simps(2,7) by auto
  have edg: "wf_edges ?s'"
    using q(8) n(1) nc(2) unfolding wf_edges_def simps by (metis (no_types, lifting) fun_upd_apply option.inject)
  show "pool_core ?s'"
    using q(1) idx nds rdy run usg bud edg unfolding pool_core_def simps(2) by simp
  have "nstate n \<noteq> Succeeded" using n no by (auto simp: node_ok_def exec_ok_def)
  moreover have "started (ntask n)" if "started (ntask n')"
    using that started n'(2) by (auto simp: started_def)
  ultimately show "wf_deps (if nstate n' = Succeeded then succs (successors s) i else []) ?s'"
    using deps_after_end [OF w q(8) n(1) _ simps(1) nc(2) n'(2)] by blast
qed

section \<open>Waking the successors\<close>

text \<open>Delivering one wake-up: a queued successor counts down, and is ready at zero.\<close>

definition woken_node :: "int \<Rightarrow> node \<Rightarrow> node" where
  "woken_node now n =
     (if unmet_deps n = 1
      then n\<lparr>unmet_deps := 0, ntask := apply_transition now (ntask n) Ready, ready_since := now\<rparr>
      else n\<lparr>unmet_deps := unmet_deps n - 1\<rparr>)"

definition wake_one :: "int \<Rightarrow> string \<Rightarrow> node \<Rightarrow> pool \<Rightarrow> pool" where
  "wake_one now x n s = (put_node x (woken_node now n) s)
     \<lparr>ready_set := (if unmet_deps n = 1 then set_insert x (ready_set s) else ready_set s)\<rparr>"

lemma wake_successors_cons:
  "wake_successors now (x # xs) s =
     (case nodes s x of
        None \<Rightarrow> wake_successors now xs s
      | Some n \<Rightarrow>
          if nstate n = Queued \<and> unmet_deps n \<noteq> 0
          then (case wake_successors now xs (wake_one now x n s) of
                  (s', evs) \<Rightarrow>
                    (s', (if unmet_deps n = 1 then [StateEvent x Ready (progress (ntask n))] else []) @ evs))
          else wake_successors now xs s)"
  by (auto simp: wake_one_def woken_node_def put_node_def Let_def split: option.splits prod.splits)

lemma wake_successors_induct [consumes 1, case_names Nil Skip Wake]:
  assumes "wake_successors now xs s = (s', evs)"
    and "\<And>s. P [] s s []"
    and "\<And>x xs s s' evs. \<forall>n. nodes s x = Some n \<longrightarrow> nstate n = Queued \<longrightarrow> unmet_deps n = 0 \<Longrightarrow>
           P xs s s' evs \<Longrightarrow> P (x # xs) s s' evs"
    and "\<And>x n xs s s' evs. nodes s x = Some n \<Longrightarrow> nstate n = Queued \<Longrightarrow> unmet_deps n \<noteq> 0 \<Longrightarrow>
           P xs (wake_one now x n s) s' evs \<Longrightarrow>
           P (x # xs) s s' ((if unmet_deps n = 1 then [StateEvent x Ready (progress (ntask n))] else []) @ evs)"
  shows "P xs s s' evs"
  using assms(1)
proof (induction xs arbitrary: s s' evs)
  case Nil
  then show ?case by (simp add: assms(2))
next
  case (Cons x xs)
  show ?case
  proof (cases "\<exists>n. nodes s x = Some n \<and> nstate n = Queued \<and> unmet_deps n \<noteq> 0")
    case True
    then obtain n where n: "nodes s x = Some n" "nstate n = Queued" "unmet_deps n \<noteq> 0" by blast
    obtain s2 evs2 where w: "wake_successors now xs (wake_one now x n s) = (s2, evs2)" by fastforce
    have "s' = s2" "evs = (if unmet_deps n = 1 then [StateEvent x Ready (progress (ntask n))] else []) @ evs2"
      using Cons.prems n w by (simp_all add: wake_successors_cons del: wake_successors.simps)
    with assms(4) [OF n Cons.IH [OF w]] show ?thesis by simp
  next
    case False
    then have "wake_successors now xs s = (s', evs)"
      using Cons.prems
      by (auto simp: wake_successors_cons simp del: wake_successors.simps split: option.splits if_splits)
    with Cons.IH False show ?thesis by (intro assms(3)) auto
  qed
qed

lemma wake_one_core:
  assumes n: "nodes s x = Some n" "nstate n = Queued"
  shows "changes core_node s (wake_one now x n s)"
proof (rule changes_local [OF n(1)])
  have lg: "legal (tstate (ntask n)) Ready" by (simp add: n(2))
  show "core_node n (woken_node now n)"
    unfolding core_node_def
    using n(2) task_wf_apply [OF _ lg, of now] by (auto simp: woken_node_def exec_ok_def)
  show "distinct (ready_set (wake_one now x n s)) \<and> (\<forall>j. j \<in> set (ready_set (wake_one now x n s)) \<longleftrightarrow>
      (if j = x then nstate (woken_node now n) = Ready else j \<in> set (ready_set s)))" if "wf_ready s"
    using that n by (auto simp: wf_ready_def wake_one_def woken_node_def set_insert_def)
qed (simp_all add: wake_one_def)

lemma wf_deps_waiting:
  "wf_deps slack s \<Longrightarrow> nodes s i = Some n \<Longrightarrow> waiting (ntask n) \<Longrightarrow>
     unmet_count s (deps (ntask n)) + count_list slack i \<le> unmet_deps n"
  by (simp add: wf_deps_def)

lemma wf_deps_less:
  assumes "wf_deps slack s" "\<And>i. count_list fewer i \<le> count_list slack i"
  shows "wf_deps fewer s"
  using assms unfolding wf_deps_def by (meson add_left_mono order_trans)

lemma wake_one_deps:
  assumes n: "nodes s x = Some n" "nstate n = Queued" and w: "wf_deps (x # xs) s"
  shows "wf_deps xs (wake_one now x n s)"
  unfolding wf_deps_def
proof (intro allI impI)
  fix j m
  assume m: "nodes (wake_one now x n s) j = Some m"
  have dn: "done_in (wake_one now x n s) = done_in s"
    using n by (intro ext) (auto simp: done_in_def wake_one_def woken_node_def)
  then have um: "unmet_count (wake_one now x n s) = unmet_count s" by (intro ext) (simp add: unmet_count_def)
  show "(started (ntask m) \<longrightarrow> (\<forall>d \<in> set (deps (ntask m)). done_in (wake_one now x n s) d)) \<and>
    (waiting (ntask m) \<longrightarrow> unmet_count (wake_one now x n s) (deps (ntask m)) + count_list xs j \<le> unmet_deps m)"
  proof (cases "j = x")
    case True
    with m have me: "m = woken_node now n" by (simp add: wake_one_def)
    have "waiting (ntask n)" using n(2) by (simp add: waiting_def)
    from wf_deps_waiting [OF w n(1) this] have b: "unmet_count s (deps (ntask n)) + count_list (x # xs) x \<le> unmet_deps n" .
    have all: "\<forall>d \<in> set (deps (ntask n)). done_in s d" if "unmet_deps n = 1"
      using b that by (auto simp: unmet_count_def filter_empty_conv)
    show ?thesis
      unfolding me dn um
      using b all n(2) True by (auto simp: woken_node_def started_def waiting_def)
  next
    case False
    with m have "nodes s j = Some m" by (simp add: wake_one_def)
    with w wf_deps_waiting [OF w this] False show ?thesis
      unfolding dn um by (simp add: wf_deps_def)
  qed
qed

lemma wake_successors_inv:
  "wake_successors now xs s = (s', evs) \<Longrightarrow> pool_core s \<longrightarrow> wf_deps xs s \<longrightarrow> pool_inv s'"
proof (induction rule: wake_successors_induct)
  case (Nil s)
  then show ?case by (simp add: pool_inv_def)
next
  case (Skip x xs s s' evs)
  show ?case
  proof (intro impI)
    assume core: "pool_core s" and w: "wf_deps (x # xs) s"
    have "count_list xs i \<le> count_list (x # xs) i" for i by simp
    with w have "wf_deps xs s" by (rule wf_deps_less)
    with Skip(2) core show "pool_inv s'" by simp
  qed
next
  case (Wake x n xs s s' evs)
  show ?case
  proof (intro impI)
    assume "pool_core s" and w: "wf_deps (x # xs) s"
    then have "pool_core (wake_one now x n s)"
      using core_pool_core [OF wake_one_core [OF Wake(1,2)]] by simp
    with wake_one_deps [OF Wake(1,2) w] Wake(4) show "pool_inv s'" by simp
  qed
qed

section \<open>finalize\<close>

text \<open>The node a finished execution leaves, when the task is not paused.\<close>

definition finish_target :: "pool \<Rightarrow> node \<Rightarrow> void_result \<Rightarrow> task_state" where
  "finish_target s n res =
     (if nstate n = Canceled then Canceled
      else case res of
             Inr u \<Rightarrow> Succeeded
           | Inl err \<Rightarrow> if category err = Cat_Canceled \<or> canceled_opt (pool_heap s) (cancel_token (ntask n))
                        then Canceled else Failed)"

definition finished_node :: "int \<Rightarrow> pool \<Rightarrow> node \<Rightarrow> any_map \<Rightarrow> void_result \<Rightarrow> node" where
  "finished_node now s n outs res =
     (if nstate n = Canceled then n\<lparr>nrunning := False\<rparr>
      else case res of
             Inr u \<Rightarrow> n\<lparr>nrunning := False,
                        ntask := set_progress (apply_transition now (ntask n) Succeeded) flt_one,
                        last_outputs := outs\<rparr>
           | Inl err \<Rightarrow> n\<lparr>nrunning := False,
                        ntask := apply_transition now ((ntask n)\<lparr>terror := Some err\<rparr>) (finish_target s n res)\<rparr>)"

definition finished :: "int \<Rightarrow> pool \<Rightarrow> string \<Rightarrow> node \<Rightarrow> any_map \<Rightarrow> void_result \<Rightarrow> pool" where
  "finished now s i n outs res = put_node i (finished_node now s n outs res) (release_running i n s)"

lemma finalize_eq:
  assumes n: "nodes s i = Some n" "nrunning n" "nstate n = Running \<or> nstate n = Canceled"
  shows "finalize_execution now s i outs res =
    (case (if finish_target s n res = Succeeded
           then wake_successors now (succs (successors s) i) (finished now s i n outs res)
           else propagate now i (finished now s i n outs res)) of
       (s', evs) \<Rightarrow>
         (s', (if nstate n = Canceled then []
               else [StateEvent i (finish_target s n res) (progress (ntask (finished_node now s n outs res)))])
              @ evs))"
proof (cases "nstate n = Canceled")
  case True
  with n show ?thesis
    by (simp add: finalize_execution_def stop_running_eq finish_target_def finished_def finished_node_def
        split: prod.splits)
next
  case False
  with n(3) have r: "nstate n = Running" by simp
  show ?thesis
  proof (cases res)
    case (Inr u)
    have one: "clamp flt_one flt_zero flt_one = flt_one"
      by (simp add: clamp_def)
    show ?thesis
      using n r Inr
      by (simp add: finalize_execution_def stop_running_eq finish_ok_def finish_target_def finished_def
          finished_node_def release_running_def set_progress_def one Let_def)
  next
    case (Inl e)
    have tgt: "legal Running (if c then Canceled else Failed)" for c by simp
    show ?thesis
      using n r Inl
      by (simp add: finalize_execution_def stop_running_eq finish_err_def finish_target_def finished_def
          finished_node_def release_running_def Let_def)
  qed
qed

lemma finalize_inv:
  assumes inv: "pool_inv s" and n: "nodes s i = Some n" "nrunning n" "nstate n \<noteq> Paused"
    and f: "finalize_execution now s i outs res = (s', evs)"
  shows "pool_inv s'"
proof -
  let ?n' = "finished_node now s n outs res"
  have no: "node_ok (config s) n"
    using inv n(1) by (simp add: pool_inv_def pool_core_def wf_nodes_def)
  then have st: "nstate n = Running \<or> nstate n = Canceled" using n(2,3) by (auto simp: node_ok_def exec_ok_def)
  have wf: "task_wf (ntask n)" using no by (simp add: node_ok_def)
  have tgt: "nstate ?n' = finish_target s n res"
    by (auto simp: finished_node_def finish_target_def split: sum.splits)
  have trm: "is_terminal (finish_target s n res)"
    by (auto simp: finish_target_def split: sum.splits)
  have wf': "task_wf (ntask ?n')"
  proof (cases "nstate n = Canceled")
    case True
    with wf show ?thesis by (simp add: finished_node_def)
  next
    case False
    with st have r: "nstate n = Running" by simp
    have lg: "legal (nstate n) (finish_target s n res)" using r trm by (cases "finish_target s n res") auto
    have "task_wf ((ntask n)\<lparr>terror := e\<rparr>)" for e using wf by (simp add: task_wf_def)
    with lg wf r show ?thesis
      by (cases res) (simp_all add: finished_node_def task_wf_apply)
  qed
  have cn: "core_node (n\<lparr>nrunning := False\<rparr>) ?n'"
    using wf' trm tgt
    by (auto simp: core_node_def finished_node_def exec_ok_def split: sum.splits)
  have run: "nstate ?n' \<noteq> Canceled \<Longrightarrow> nstate n = Running"
    using st tgt by (auto simp: finish_target_def)
  have nr: "nstate n \<noteq> Ready" using st by auto
  note fin = inv_finish [OF inv n(1,2) cn, unfolded tgt, OF trm wf' run [unfolded tgt] nr,
      folded finished_def]
  show ?thesis
  proof (cases "finish_target s n res = Succeeded")
    case True
    obtain s2 ev2 where w: "wake_successors now (succs (successors s) i) (finished now s i n outs res) = (s2, ev2)"
      by fastforce
    with f True have "s' = s2" by (simp add: finalize_eq [OF n(1,2) st])
    moreover have "pool_inv s2" using wake_successors_inv [OF w] fin True by simp
    ultimately show ?thesis by simp
  next
    case False
    obtain s2 ev2 where p: "propagate now i (finished now s i n outs res) = (s2, ev2)" by fastforce
    with f False have "s' = s2" by (simp add: finalize_eq [OF n(1,2) st])
    moreover have "pool_inv s2" using calm_inv [OF calm_propagate [OF p]] fin False by (simp add: pool_inv_def)
    ultimately show ?thesis by simp
  qed
qed

end
