(* ===== verification/Pool_Steps.thy ===== *)
theory Pool_Steps
  imports Pool_Exec
begin

text \<open>
  The thread-pool scheduler as a transition system. A configuration is the shared state together
  with the workers, each idle or executing one task; a step is one locked section, run by a client
  or by a worker. The reachable configurations satisfy the invariant, and the events of a run
  report every terminal state exactly once.
\<close>

section \<open>Steps\<close>

type_synonym workers = "string option list"

definition busy :: "workers \<Rightarrow> string list" where
  "busy ws = List.map_filter (\<lambda>w. w) ws"

text \<open>
  A worker that reached a checkpoint with a pause pending stays inside the callback while its task
  is paused, so an execution does not end while its task is paused.
\<close>

inductive pool_step ::
  "pool \<Rightarrow> workers \<Rightarrow> state_event list \<Rightarrow> pool \<Rightarrow> workers \<Rightarrow> bool" where
  step_submit: "fresh_task t \<Longrightarrow> sane_demand (config s) (demand t) \<Longrightarrow> unleaked s (task_id t) \<Longrightarrow>
    pool_submit now s t stg = (s', evs, r) \<Longrightarrow> pool_step s ws evs s' ws"
| step_cancel: "pool_cancel now s i = (s', evs, r) \<Longrightarrow> pool_step s ws evs s' ws"
| step_pause: "pause_begin now s i = (s', evs, out) \<Longrightarrow> pool_step s ws evs s' ws"
| step_pause_timeout: "pause_timeout now s i = (s', evs, r) \<Longrightarrow> pool_step s ws evs s' ws"
| step_resume: "pool_resume now s i = (s', evs, r) \<Longrightarrow> pool_step s ws evs s' ws"
| step_tick: "pool_tick now s = (s', evs) \<Longrightarrow> pool_step s ws evs s' ws"
| step_register: "pool_step s ws [] (pool_on_state_change s cb) ws"
| step_token: "pool_step s ws [] (s\<lparr>pool_heap := h\<rparr>) ws"
| step_begin: "k < length ws \<Longrightarrow> ws ! k = None \<Longrightarrow> worker_begin now s = (s', evs, d) \<Longrightarrow>
    pool_step s ws evs s' (ws[k := map_option dtask d])"
| step_progress: "k < length ws \<Longrightarrow> ws ! k = Some i \<Longrightarrow> progress_checkpoint now s i p = (s', evs, b) \<Longrightarrow>
    pool_step s ws evs s' ws"
| step_resumed: "k < length ws \<Longrightarrow> ws ! k = Some i \<Longrightarrow> pool_step s ws (progress_resumed s i) s ws"
| step_finish: "k < length ws \<Longrightarrow> ws ! k = Some i \<Longrightarrow> pool_state_of s i \<noteq> Some Paused \<Longrightarrow>
    finalize_execution now s i outs res = (s', evs) \<Longrightarrow> pool_step s ws evs s' (ws[k := None])"

inductive_cases pool_stepE: "pool_step s ws evs s' ws'"

inductive pool_run ::
  "pool \<Rightarrow> workers \<Rightarrow> state_event list \<Rightarrow> pool \<Rightarrow> workers \<Rightarrow> bool" where
  run_here: "pool_run s ws [] s ws"
| run_next: "pool_run s ws evs s1 ws1 \<Longrightarrow> pool_step s1 ws1 evs1 s2 ws2 \<Longrightarrow>
    pool_run s ws (evs @ evs1) s2 ws2"

text \<open>From construction: the normalised configuration and all workers idle.\<close>

definition sane_config :: "scheduler_config \<Rightarrow> bool" where
  "sane_config c \<longleftrightarrow> 2 * worker_count c \<le> INT_MAX \<and> 2 * cpu_slots_hard (resource_budget c) \<le> INT_MAX"

definition pool_reach :: "int \<Rightarrow> scheduler_config \<Rightarrow> state_event list \<Rightarrow> pool \<Rightarrow> workers \<Rightarrow> bool" where
  "pool_reach hw c evs s ws \<longleftrightarrow>
     (\<exists>h. pool_run (create_pool hw c h) (replicate (nat (worker_count (normalize_config hw c))) None) evs s ws)"

section \<open>The invariant of a configuration\<close>

definition sys_inv :: "pool \<Rightarrow> workers \<Rightarrow> bool" where
  "sys_inv s ws \<longleftrightarrow> pool_inv s \<and> length ws = nat (worker_count (config s)) \<and>
     distinct (busy ws) \<and> set (busy ws) = set (running_set s)"

lemma busy_append [simp]: "busy (xs @ ys) = busy xs @ busy ys"
  by (simp add: busy_def List.map_filter_def)

lemma busy_cons [simp]: "busy (w # ws) = (case w of None \<Rightarrow> busy ws | Some i \<Rightarrow> i # busy ws)"
  by (simp add: busy_def split: option.splits)

lemma busy_nil [simp]: "busy [] = []"
  by (simp add: busy_def)

lemma busy_split:
  assumes "k < length ws"
  obtains us vs where "ws = us @ ws ! k # vs" "\<And>w. ws[k := w] = us @ w # vs"
  using that [of "take k ws" "drop (Suc k) ws"] assms
  by (simp add: id_take_nth_drop [symmetric] upd_conv_take_nth_drop)

lemma busy_replicate [simp]: "busy (replicate m None) = []"
  by (induction m) auto

lemma running_length:
  assumes "sys_inv s ws"
  shows "length (busy ws) = length (running_set s)"
proof -
  have "distinct (running_set s)" using assms by (simp add: sys_inv_def pool_inv_def pool_core_def wf_running_def)
  with assms show ?thesis by (metis distinct_card sys_inv_def)
qed

lemma busy_less:
  assumes "k < length ws" "ws ! k = None"
  shows "length (busy ws) < length ws"
proof -
  have le: "length (busy xs) \<le> length xs" for xs by (induction xs) (auto split: option.splits)
  from assms(1) obtain us vs where ws: "ws = us @ ws ! k # vs" by (rule busy_split)
  have "length (busy ws) = length (busy us) + length (busy vs)"
    by (subst ws) (simp add: assms(2))
  moreover have "length ws = length us + length vs + 1" by (subst ws) simp
  ultimately show ?thesis using le [of us] le [of vs] by linarith
qed

lemma normalize_config_ok:
  assumes "sane_config c"
  shows "config_ok (normalize_config hw c)"
  using assms
  by (auto simp: sane_config_def config_ok_def normalize_config_def normalize_budget_def Let_def
      clamp_auto_workers_def clamp_int_def INT_MAX_def)

lemma create_pool_inv:
  assumes "sane_config c"
  shows "pool_inv (create_pool hw c h)"
  using normalize_config_ok [OF assms, of hw]
  by (auto simp: pool_inv_def pool_core_def pool_parts create_pool_def succs_def)

lemma calm_step:
  assumes "sys_inv s ws" "calm s s'"
  shows "sys_inv s' ws"
  using assms calm_inv by (auto simp: sys_inv_def changes_def)

lemma submit_frame:
  assumes "pool_submit now s t stg = (s', evs, r)"
  shows "config s' = config s \<and> running_set s' = running_set s"
  using assms
proof (cases rule: pool_submit_cases)
  case (rejected h e)
  then show ?thesis by simp
next
  case (linked sg h tk t2 s2 lr)
  from link_deps_frame [OF linked(7)] obtain g where "s2 = s\<lparr>pool_heap := h, successors := g\<rparr>" by auto
  with linked(8) show ?thesis
    by (auto simp: insert_linked_def emplace_node_def put_node_def Let_def
        split: link_result.splits if_splits sum.splits)
qed

lemma cases_frame:
  assumes w: "wake_successors now xs s = (s', evs)"
  shows "config s' = config s \<and> running_set s' = running_set s"
  using w by (induction rule: wake_successors_induct) (auto simp: wake_one_def)

lemma finalize_frame:
  assumes "nodes s i = Some n" "nrunning n" "nstate n = Running \<or> nstate n = Canceled"
    and f: "finalize_execution now s i outs res = (s', evs)"
  shows "config s' = config s \<and> running_set s' = remove1 i (running_set s)"
proof -
  let ?f = "finished now s i n outs res"
  have fin: "config ?f = config s" "running_set ?f = remove1 i (running_set s)"
    by (simp_all add: finished_def)
  show ?thesis
  proof (cases "finish_target s n res = Succeeded")
    case True
    obtain s2 e2 where "wake_successors now (succs (successors s) i) ?f = (s2, e2)" by fastforce
    with f True cases_frame [OF this] fin show ?thesis by (simp add: finalize_eq [OF assms(1-3)])
  next
    case False
    obtain s2 e2 where p: "propagate now i ?f = (s2, e2)" by fastforce
    with f False prop_rel_propagate [OF p] fin show ?thesis
      by (simp add: finalize_eq [OF assms(1-3)] prop_rel_def)
  qed
qed

lemma executing_node:
  assumes "sys_inv s ws" "k < length ws" "ws ! k = Some i"
  obtains n where "nodes s i = Some n" "nrunning n" "node_ok (config s) n"
proof -
  from assms(2) obtain us vs where ws: "ws = us @ ws ! k # vs" by (rule busy_split)
  have "i \<in> set (busy ws)" by (subst ws) (simp add: assms(3))
  then have "i \<in> set (running_set s)" using assms(1) by (simp add: sys_inv_def)
  with assms(1) that show thesis
    by (auto simp: sys_inv_def pool_inv_def pool_core_def wf_running_def wf_nodes_def)
qed

text \<open>A worker that ends its execution finds its task running, or canceled meanwhile.\<close>

lemma finishing_node:
  assumes "sys_inv s ws" "k < length ws" "ws ! k = Some i" "pool_state_of s i \<noteq> Some Paused"
  obtains n where "nodes s i = Some n" "nrunning n" "nstate n = Running \<or> nstate n = Canceled"
proof -
  from executing_node [OF assms(1-3)] obtain n where
    n: "nodes s i = Some n" "nrunning n" "node_ok (config s) n" by blast
  moreover have "nstate n \<noteq> Paused" using assms(4) n(1) by (simp add: pool_state_of_def)
  with n(2,3) have "nstate n = Running \<or> nstate n = Canceled" by (auto simp: node_ok_def exec_ok_def)
  ultimately show thesis using that by blast
qed

lemma sys_inv_begin:
  assumes inv: "sys_inv s ws" and k: "k < length ws" "ws ! k = None"
    and p: "pick_candidate now s True = Some c" and n: "nodes s (cand_id c) = Some n" "nstate n = Ready"
  shows "sys_inv (dispatched now s (cand_id c) n) (ws[k := Some (cand_id c)])"
proof -
  let ?s' = "dispatched now s (cand_id c) n" and ?ws' = "ws[k := Some (cand_id c)]"
  have free: "length (running_set s) < nat (worker_count (config s))"
    using busy_less [OF k] running_length [OF inv] inv by (simp add: sys_inv_def)
  have "pool_inv ?s'" using inv by (intro inv_dispatch [OF _ free p n]) (simp add: sys_inv_def)
  moreover from k(1) obtain us vs where ws: "ws = us @ ws ! k # vs" "\<And>w. ws[k := w] = us @ w # vs"
    by (rule busy_split) blast
  have b: "busy ws = busy us @ busy vs" by (subst ws(1)) (simp add: k(2))
  have q: "wf_nodes s" "wf_running s" using inv by (simp_all add: sys_inv_def pool_inv_def pool_core_def)
  from q(1) n(1) have "exec_ok n" by (simp add: wf_nodes_def node_ok_def)
  with n(2) have "\<not> nrunning n" by (auto simp: exec_ok_def)
  with q(2) n(1) have "cand_id c \<notin> set (running_set s)" by (simp add: wf_running_def)
  with inv have "distinct (busy ?ws') \<and> set (busy ?ws') = set (running_set ?s')"
    by (auto simp: ws(2) sys_inv_def b set_insert_def)
  moreover have "length ?ws' = nat (worker_count (config ?s'))" using inv by (simp add: sys_inv_def)
  ultimately show ?thesis by (simp add: sys_inv_def)
qed

lemma sys_inv_finish:
  assumes inv: "sys_inv s ws" and k: "k < length ws" "ws ! k = Some i" "pool_state_of s i \<noteq> Some Paused"
    and f: "finalize_execution now s i outs res = (s', evs)"
  shows "sys_inv s' (ws[k := None])"
proof -
  obtain n where n: "nodes s i = Some n" "nrunning n" "nstate n = Running \<or> nstate n = Canceled"
    by (rule finishing_node [OF inv k])
  then have np: "nstate n \<noteq> Paused" by auto
  have "pool_inv s'" using finalize_inv [OF _ n(1,2) np f] inv by (simp add: sys_inv_def)
  moreover note fr = finalize_frame [OF n f]
  moreover from k(1) obtain us vs where ws: "ws = us @ ws ! k # vs" "\<And>w. ws[k := w] = us @ w # vs"
    by (rule busy_split) blast
  have b: "busy ws = busy us @ i # busy vs" by (subst ws(1)) (simp add: k(2))
  have dr: "distinct (running_set s)" using inv by (simp add: sys_inv_def pool_inv_def pool_core_def wf_running_def)
  have "length (ws[k := None]) = nat (worker_count (config s'))" using inv fr by (simp add: sys_inv_def)
  moreover have "distinct (busy (ws[k := None])) \<and> set (busy (ws[k := None])) = set (running_set s')"
    using inv fr dr by (auto simp: ws(2) sys_inv_def b)
  ultimately show ?thesis by (simp add: sys_inv_def)
qed

text \<open>
  The four kinds of steps: a calm one (of clients, or of a worker that reports progress), a
  submission, the dispatch of a task, and the end of an execution.
\<close>

lemma step_kinds:
  assumes "pool_step s ws evs s' ws'" and inv: "sys_inv s ws"
  obtains (calm) "calm s s'" "ws' = ws"
  | (submission) t now stg r where "fresh_task t" "sane_demand (config s) (demand t)" "unleaked s (task_id t)"
      "pool_submit now s t stg = (s', evs, r)" "ws' = ws"
  | (dispatch) k c now n d where "k < length ws" "ws ! k = None" "pick_candidate now s True = Some c"
      "nodes s (cand_id c) = Some n" "nstate n = Ready" "s' = dispatched now s (cand_id c) n"
      "evs = [StateEvent (cand_id c) Running (progress (ntask n))]" "ws' = ws[k := Some (cand_id c)]"
      "worker_begin now s = (s', evs, Some d)"
  | (ending) k i now outs res n where "k < length ws" "ws ! k = Some i" "pool_state_of s i \<noteq> Some Paused"
      "nodes s i = Some n" "nrunning n" "nstate n = Running \<or> nstate n = Canceled"
      "finalize_execution now s i outs res = (s', evs)" "ws' = ws[k := None]"
  using assms(1)
proof (cases rule: pool_step.cases)
  case (step_submit t now stg r)
  show thesis by (rule submission [OF step_submit(2-5,1)])
next
  case (step_resume now i r)
  have "wf_nodes s" using inv by (simp add: sys_inv_def pool_inv_def pool_core_def)
  from calm [OF calm_resume [OF step_resume(2) this] step_resume(1)] show thesis .
next
  case (step_begin k now d)
  from step_begin(4) show thesis
  proof (cases rule: begin_cases)
    case idle
    with step_begin(1,3) show thesis by (intro calm) (simp_all add: list_update_same_conv step_begin(2))
  next
    case (runs c n d')
    show thesis
      by (rule dispatch [OF step_begin(2,3) runs(1-5)]) (use step_begin(1,4) runs(6,7) in simp_all)
  qed
next
  case (step_finish k i now outs res)
  obtain n where n: "nodes s i = Some n" "nrunning n" "nstate n = Running \<or> nstate n = Canceled"
    by (rule finishing_node [OF inv step_finish(2-4)])
  show thesis by (rule ending [OF step_finish(2-4) n step_finish(5,1)])
qed (auto intro: calm calm_cancel calm_pause_begin calm_pause_timeout calm_tick calm_checkpoint)

lemma sys_inv_step:
  assumes "pool_step s ws evs s' ws'" and inv: "sys_inv s ws"
  shows "sys_inv s' ws'"
  using assms
proof (cases rule: step_kinds)
  case calm
  with calm_step [OF inv] show ?thesis by simp
next
  case (submission t now stg r)
  have "pool_inv s" using inv by (simp add: sys_inv_def)
  from pool_submit_inv [OF this submission(1-4)] submit_frame [OF submission(4)] inv submission(5)
  show ?thesis unfolding sys_inv_def by metis
next
  case (dispatch k c now n d)
  from sys_inv_begin [OF inv dispatch(1,2,3,4,5)] dispatch(6,8) show ?thesis by simp
next
  case (ending k i now outs res n)
  from sys_inv_finish [OF inv ending(1-3,7)] ending(8) show ?thesis by simp
qed

text \<open>Reachable configurations, as if they were defined inductively.\<close>

lemma reach_start:
  "pool_reach hw c [] (create_pool hw c h) (replicate (nat (worker_count (normalize_config hw c))) None)"
  by (auto simp: pool_reach_def intro: run_here)

lemma reach_next:
  "pool_reach hw c evs s ws \<Longrightarrow> pool_step s ws ev s' ws' \<Longrightarrow> pool_reach hw c (evs @ ev) s' ws'"
  unfolding pool_reach_def by (blast intro: run_next)

lemma pool_reach_inv:
  assumes "sane_config c" "pool_reach hw c evs s ws"
  shows "sys_inv s ws"
proof -
  from assms(2) obtain h where
    "pool_run (create_pool hw c h) (replicate (nat (worker_count (normalize_config hw c))) None) evs s ws"
    by (auto simp: pool_reach_def)
  moreover have "sys_inv (create_pool hw c h) (replicate (nat (worker_count (normalize_config hw c))) None)"
    using create_pool_inv [OF assms(1)] by (simp add: sys_inv_def) (simp add: create_pool_def)
  ultimately show ?thesis
    by (induction rule: pool_run.induct) (auto intro: sys_inv_step)
qed

lemma reach_induct [consumes 2, case_names start step]:
  assumes c: "sane_config c" and r: "pool_reach hw c evs s ws"
    and start: "\<And>h. P [] (create_pool hw c h) (replicate (nat (worker_count (normalize_config hw c))) None)"
    and step: "\<And>evs s ws ev s' ws'. pool_reach hw c evs s ws \<Longrightarrow> sys_inv s ws \<Longrightarrow> P evs s ws \<Longrightarrow>
      pool_step s ws ev s' ws' \<Longrightarrow> P (evs @ ev) s' ws'"
  shows "P evs s ws"
proof -
  from r obtain h where
    "pool_run (create_pool hw c h) (replicate (nat (worker_count (normalize_config hw c))) None) evs s ws"
    by (auto simp: pool_reach_def)
  then have "pool_reach hw c evs s ws \<and> P evs s ws"
  proof (induction "create_pool hw c h" "replicate (nat (worker_count (normalize_config hw c))) (None :: string option)"
      evs s ws rule: pool_run.induct)
    case run_here
    show ?case using reach_start start by blast
  next
    case (run_next evs s1 ws1 evs1 s2 ws2)
    then have r: "pool_reach hw c evs s1 ws1" by blast
    from step [OF r pool_reach_inv [OF c r] _ run_next(3)] reach_next [OF r run_next(3)] run_next(2)
    show ?case by blast
  qed
  then show ?thesis ..
qed

section \<open>Events report every terminal state once\<close>

text \<open>
  \<open>ended s i\<close> counts the terminal state of \<open>i\<close>, \<open>end_events i evs\<close> the terminal events for it. A
  step is \<open>reported\<close> when the events account for exactly what ended in it.
\<close>

definition ended :: "pool \<Rightarrow> string \<Rightarrow> nat" where
  "ended s i = (case nodes s i of None \<Rightarrow> 0 | Some n \<Rightarrow> if is_terminal (nstate n) then 1 else 0)"

definition end_events :: "string \<Rightarrow> state_event list \<Rightarrow> nat" where
  "end_events i evs = length (filter (\<lambda>ev. ev_task ev = i \<and> is_terminal (ev_state ev)) evs)"

definition reported :: "pool \<Rightarrow> state_event list \<Rightarrow> pool \<Rightarrow> bool" where
  "reported s evs s' \<longleftrightarrow> (\<forall>i. ended s' i = ended s i + end_events i evs)"

lemma end_events_append [simp]: "end_events i (xs @ ys) = end_events i xs + end_events i ys"
  by (simp add: end_events_def)

lemma end_events_simps [simp]:
  "end_events i [] = 0"
  "end_events i (StateEvent j st p # evs) = (if j = i \<and> is_terminal st then 1 else 0) + end_events i evs"
  by (simp_all add: end_events_def)

lemma reported_refl [simp]: "reported s [] s"
  by (simp add: reported_def)

lemma reported_trans: "reported a xs b \<Longrightarrow> reported b ys c \<Longrightarrow> reported a (xs @ ys) c"
  by (simp add: reported_def)

lemma reported_cong: "reported s evs s' \<Longrightarrow> nodes t = nodes s \<Longrightarrow> nodes t' = nodes s' \<Longrightarrow> reported t evs t'"
  by (simp add: reported_def ended_def)

lemma reported_put:
  assumes "nodes s' = (nodes s)(i \<mapsto> n')"
    and "(if is_terminal (nstate n') then 1 else 0) = ended s i + end_events i evs"
    and "\<And>j. j \<noteq> i \<Longrightarrow> end_events j evs = 0"
  shows "reported s evs s'"
  unfolding reported_def
proof
  fix j
  show "ended s' j = ended s j + end_events j evs"
    using assms by (cases "j = i") (simp_all add: ended_def)
qed

lemma end_events_distinct:
  assumes "distinct (map ev_task evs)" "\<forall>ev \<in> set evs. is_terminal (ev_state ev)"
  shows "end_events i evs = (if i \<in> ev_task ` set evs then 1 else 0)"
  using assms
proof (induction evs)
  case Nil
  then show ?case by simp
next
  case (Cons ev evs)
  then show ?case by (cases ev) auto
qed

lemma reported_propagate:
  assumes p: "propagate now i s = (s', evs)"
  shows "reported s evs s'"
  unfolding reported_def
proof
  fix j
  have ce: "distinct (map ev_task evs)" "\<forall>ev \<in> set evs. is_terminal (ev_state ev)"
    "ev_task ` set evs = {i. nodes s' i \<noteq> nodes s i}"
    using propagate_events [OF p] by (auto simp: cancel_events_def)
  from prop_rel_nodes [OF prop_rel_propagate [OF p], of j]
  show "ended s' j = ended s j + end_events j evs"
    unfolding end_events_distinct [OF ce(1,2)] ce(3)
    by (auto simp: ended_def dep_canceled_fields(1,8,10))
qed

lemma reported_wake:
  "wake_successors now xs s = (s', evs) \<Longrightarrow> reported s evs s'"
proof (induction rule: wake_successors_induct)
  case (Wake x n xs s s' evs)
  have "reported s (if unmet_deps n = 1 then [StateEvent x Ready (progress (ntask n))] else []) (wake_one now x n s)"
    by (rule reported_put [where n' = "woken_node now n" and i = x])
       (use Wake(1,2) in \<open>auto simp: wake_one_def woken_node_def ended_def\<close>)
  from reported_trans [OF this Wake(4)] show ?case .
qed auto

lemma reported_cancel:
  assumes c: "pool_cancel now s i = (s', evs, r)"
  shows "reported s evs s'"
  using c
proof (cases rule: pool_cancel_cases)
  case unknown
  then show ?thesis by simp
next
  case (ended n)
  then show ?thesis by (auto simp: ended_def intro!: reported_put [where i = i and n' = "clear_pause n"])
next
  case (live n evs2)
  have "reported s [StateEvent i Canceled (progress (ntask n))] (cancel_self now s i n)"
    by (rule reported_put [where i = i and n' = "canceled_node now n"])
       (use live(1,2) in \<open>auto simp: cancel_self_def canceled_node_def ended_def\<close>)
  from reported_trans [OF this reported_propagate [OF live(3)]] show ?thesis by (simp add: live(4))
qed

lemma reported_cancel_each: "cancel_each now s is = (s', evs) \<Longrightarrow> reported s evs s'"
proof (induction "is" arbitrary: s evs)
  case Nil
  then show ?case by simp
next
  case (Cons i "is")
  obtain s1 ev1 r where c: "pool_cancel now s i = (s1, ev1, r)" using prod_cases3 by blast
  obtain s2 ev2 where e: "cancel_each now s1 is = (s2, ev2)" by fastforce
  from Cons.prems c e have "s' = s2" "evs = ev1 @ ev2" by simp_all
  with reported_trans [OF reported_cancel [OF c] Cons.IH [of s1 ev2]] e show ?case by simp
qed

lemma reported_quiet:
  assumes "\<And>i. ended s' i = ended s i" "\<And>ev. ev \<in> set evs \<Longrightarrow> \<not> is_terminal (ev_state ev)"
  shows "reported s evs s'"
  using assms by (auto simp: reported_def end_events_def filter_empty_conv)

lemma reported_calm_quiet:
  assumes "nodes s' = (nodes s)(i \<mapsto> n')" "nodes s i = Some n" "\<not> is_terminal (nstate n)"
    "\<not> is_terminal (nstate n')" "\<And>ev. ev \<in> set evs \<Longrightarrow> \<not> is_terminal (ev_state ev)"
  shows "reported s evs s'"
  using assms by (intro reported_quiet) (auto simp: ended_def)

lemma reported_pause_begin:
  assumes c: "pause_begin now s i = (s', evs, r)"
  shows "reported s evs s'"
  using c
proof (cases rule: pause_begin_cases)
  case none
  then show ?thesis by simp
next
  case (held n)
  then show ?thesis
    by (intro reported_calm_quiet [OF _ held(1), where n' = "n\<lparr>ntask := apply_transition now (ntask n) Paused\<rparr>"]) auto
next
  case (asked n deadline)
  then show ?thesis by (intro reported_calm_quiet [OF _ asked(1)]) auto
qed

lemma reported_resume:
  assumes c: "pool_resume now s i = (s', evs, r)" and w: "wf_nodes s"
  shows "reported s evs s'"
  using c w
proof (cases rule: pool_resume_cases)
  case none
  then show ?thesis by simp
next
  case (back_to n st)
  then show ?thesis
    by (intro reported_calm_quiet [OF _ back_to(1), where n' = "resumed_node now n"])
       (auto simp: resumed_node_def Let_def)
qed

lemma reported_checkpoint:
  assumes c: "progress_checkpoint now s i p = (s', evs, b)"
  shows "reported s evs s'"
  using c
proof (cases rule: checkpoint_cases)
  case unknown
  then show ?thesis by simp
next
  case (stored n)
  then show ?thesis by (intro reported_quiet) (auto simp: ended_def)
next
  case (held n)
  then show ?thesis by (intro reported_calm_quiet [OF _ held(1)]) auto
qed

lemma reported_begin:
  assumes b: "worker_begin now s = (s', evs, d)"
  shows "reported s evs s'"
  using b
proof (cases rule: begin_cases)
  case (runs c n d)
  then show ?thesis by (intro reported_calm_quiet [OF _ runs(2), where n' = "started_node now n"]) auto
qed simp

lemma reported_submit:
  assumes sub: "pool_submit now s t stg = (s', evs, r)" and q: "tstate t = Queued"
  shows "reported s evs s'"
  using sub q
proof (cases rule: pool_submit_outcome)
  case (refused h g e)
  then show ?thesis by (auto intro: reported_cong [OF reported_refl])
next
  case (inserted sg h g lr n)
  have "ended s (task_id t) = 0" using inserted(2) by (simp add: ended_def)
  then show ?thesis
    by (intro reported_put [where i = "task_id t" and n' = n])
       (use inserted(7,11,16) in \<open>auto simp: inserted(6) emplace_node_def\<close>)
qed

lemma reported_finish:
  assumes n: "nodes s i = Some n" "nrunning n" "nstate n = Running \<or> nstate n = Canceled"
    and f: "finalize_execution now s i outs res = (s', evs)"
  shows "reported s evs s'"
proof -
  let ?f = "finished now s i n outs res"
  let ?ev = "if nstate n = Canceled then []
    else [StateEvent i (finish_target s n res) (progress (ntask (finished_node now s n outs res)))]"
  have tgt: "nstate (finished_node now s n outs res) = finish_target s n res"
    by (auto simp: finished_node_def finish_target_def split: sum.splits)
  have trm: "is_terminal (finish_target s n res)" by (auto simp: finish_target_def split: sum.splits)
  have "reported s ?ev ?f"
    by (rule reported_put [where i = i and n' = "finished_node now s n outs res"])
       (use n(1,3) trm in \<open>auto simp: finished_def ended_def tgt\<close>)
  moreover obtain s2 e2 where two: "(if finish_target s n res = Succeeded
      then wake_successors now (succs (successors s) i) ?f else propagate now i ?f) = (s2, e2)" by fastforce
  then have "reported ?f e2 s2" by (auto split: if_splits intro: reported_wake reported_propagate)
  ultimately have "reported s (?ev @ e2) s2" by (rule reported_trans)
  moreover have "s' = s2" "evs = ?ev @ e2" using f two by (simp_all add: finalize_eq [OF n])
  ultimately show ?thesis by simp
qed

lemma reported_step:
  assumes "pool_step s ws evs s' ws'" and inv: "sys_inv s ws"
  shows "reported s evs s'"
  using assms(1)
proof (cases rule: pool_step.cases)
  case (step_submit t now stg r)
  then show ?thesis by (intro reported_submit) (auto simp: fresh_task_def)
next
  case (step_pause_timeout now i r)
  then show ?thesis by (auto simp: pause_timeout_def intro: reported_cancel split: prod.splits)
next
  case (step_resume now i r)
  moreover have "wf_nodes s" using inv by (simp add: sys_inv_def pool_inv_def pool_core_def)
  ultimately show ?thesis by (auto intro: reported_resume)
next
  case (step_tick now)
  then show ?thesis by (auto simp: pool_tick_def intro: reported_cancel_each)
next
  case (step_register cb)
  then show ?thesis by (auto simp: pool_on_state_change_def intro: reported_cong [OF reported_refl])
next
  case (step_token h)
  then show ?thesis by (auto intro: reported_cong [OF reported_refl])
next
  case (step_resumed k i)
  then show ?thesis
    by (intro reported_quiet) (auto simp: progress_resumed_def split: option.splits if_splits)
next
  case (step_finish k i now outs res)
  obtain n where n: "nodes s i = Some n" "nrunning n" "nstate n = Running \<or> nstate n = Canceled"
    by (rule finishing_node [OF inv step_finish(2-4)])
  from reported_finish [OF n step_finish(5)] show ?thesis .
qed (auto intro: reported_cancel reported_pause_begin reported_begin reported_checkpoint)

lemma pool_reach_reported:
  assumes c: "sane_config c" and r: "pool_reach hw c evs s ws"
  shows "ended s i = end_events i evs"
  using assms
proof (induction rule: reach_induct)
  case (start h)
  show ?case by (simp add: ended_def create_pool_def)
next
  case (step evs s ws ev s' ws')
  from reported_step [OF step(3,2)] step(4) show ?case by (simp add: reported_def)
qed

section \<open>Terminal states are final\<close>

definition absorbing :: "pool \<Rightarrow> pool \<Rightarrow> bool" where
  "absorbing s s' \<longleftrightarrow> (\<forall>i st. pool_state_of s i = Some st \<and> is_terminal st \<longrightarrow> pool_state_of s' i = Some st)"

lemma absorbing_trans: "absorbing a b \<Longrightarrow> absorbing b c \<Longrightarrow> absorbing a c"
  by (simp add: absorbing_def)

lemma absorbing_calm:
  assumes "calm s s'"
  shows "absorbing s s'"
  unfolding absorbing_def
proof (intro allI impI)
  fix i st
  assume "pool_state_of s i = Some st \<and> is_terminal st"
  then obtain n where n: "nodes s i = Some n" "nstate n = st" "is_terminal st"
    by (auto simp: pool_state_of_def)
  from changes_Some_fwd [OF assms n(1)] n(2,3) show "pool_state_of s' i = Some st"
    by (auto simp: pool_state_of_def dest: calm_nodeD(5))
qed

lemma absorbing_put:
  assumes "nodes s' = (nodes s)(i \<mapsto> n')"
    and "\<And>n. nodes s i = Some n \<Longrightarrow> is_terminal (nstate n) \<Longrightarrow> nstate n' = nstate n"
  shows "absorbing s s'"
  using assms by (auto simp: absorbing_def pool_state_of_def)

lemma absorbing_wake: "wake_successors now xs s = (s', evs) \<Longrightarrow> absorbing s s'"
proof (induction rule: wake_successors_induct)
  case (Wake x n xs s s' evs)
  have "absorbing s (wake_one now x n s)"
    by (rule absorbing_put [where i = x and n' = "woken_node now n"])
       (use Wake(1,2) in \<open>simp_all add: wake_one_def\<close>)
  with Wake(4) show ?case by (rule absorbing_trans [rotated])
qed (auto simp: absorbing_def)

lemma absorbing_submit:
  assumes sub: "pool_submit now s t stg = (s', evs, r)"
  shows "absorbing s s'"
  using sub
proof (cases rule: pool_submit_cases)
  case (rejected h e)
  then show ?thesis by (simp add: absorbing_def pool_state_of_def)
next
  case (linked sg h tk t2 s2 lr)
  from link_deps_frame [OF linked(7)] obtain g where s2: "s2 = s\<lparr>pool_heap := h, successors := g\<rparr>" by auto
  have "task_id t2 = task_id t" by (simp add: linked(5))
  with linked(3,8) s2 show ?thesis
    by (auto simp: absorbing_def pool_state_of_def insert_linked_def emplace_node_def mk_node_def Let_def
        transition_to_Inr split: link_result.splits if_splits sum.splits)
qed

lemma absorbing_step:
  assumes "pool_step s ws evs s' ws'" and inv: "sys_inv s ws"
  shows "absorbing s s'"
  using assms
proof (cases rule: step_kinds)
  case (dispatch k c now n d)
  then show ?thesis by (intro absorbing_put [where i = "cand_id c" and n' = "started_node now n"]) auto
next
  case (ending k i now outs res n)
  note n = ending(4-6)
  let ?f = "finished now s i n outs res"
  have "absorbing s ?f"
    by (rule absorbing_put [where i = i and n' = "finished_node now s n outs res"])
       (use n(1,3) in \<open>auto simp: finished_def finished_node_def\<close>)
  moreover obtain s2 e2 where two: "(if finish_target s n res = Succeeded
      then wake_successors now (succs (successors s) i) ?f else propagate now i ?f) = (s2, e2)" by fastforce
  then have "absorbing ?f s2"
    by (auto split: if_splits intro: absorbing_wake absorbing_calm calm_propagate)
  ultimately have "absorbing s s2" by (rule absorbing_trans)
  moreover have "s' = s2" using ending(7) two by (simp add: finalize_eq [OF n])
  ultimately show ?thesis by simp
qed (auto intro: absorbing_calm absorbing_submit)

section \<open>What a step leaves alone\<close>

lemma wake_other:
  "wake_successors now xs s = (s', evs) \<Longrightarrow>
    successors s' = successors s \<and> (i \<notin> set xs \<longrightarrow> nodes s' i = nodes s i)"
  by (induction rule: wake_successors_induct) (auto simp: wake_one_def)

lemma finalize_other:
  assumes n: "nodes s k = Some n" "nrunning n" "nstate n = Running \<or> nstate n = Canceled"
    and f: "finalize_execution now s k outs res = (s', evs)"
  shows "successors s' = successors s"
    "i \<noteq> k \<Longrightarrow> i \<notin> set (succs (successors s) k) \<Longrightarrow>
      nodes s' i = nodes s i \<or> (\<exists>m m'. nodes s i = Some m \<and> nodes s' i = Some m' \<and> dep_canceled now m m')"
proof -
  let ?f = "finished now s k n outs res"
  have fin: "successors ?f = successors s" "i \<noteq> k \<longrightarrow> nodes ?f i = nodes s i" by (simp_all add: finished_def)
  obtain s2 e2 where two: "(if finish_target s n res = Succeeded
      then wake_successors now (succs (successors s) k) ?f else propagate now k ?f) = (s2, e2)" by fastforce
  have s2: "s' = s2" using f two by (simp add: finalize_eq [OF n])
  have "successors s' = successors s \<and> (i \<noteq> k \<longrightarrow> i \<notin> set (succs (successors s) k) \<longrightarrow>
      nodes s' i = nodes s i \<or> (\<exists>m m'. nodes s i = Some m \<and> nodes s' i = Some m' \<and> dep_canceled now m m'))"
  proof (cases "finish_target s n res = Succeeded")
    case True
    with two have "wake_successors now (succs (successors s) k) ?f = (s2, e2)" by simp
    from wake_other [OF this, of i] fin s2 show ?thesis by simp
  next
    case False
    with two have "prop_rel now ?f s2" using prop_rel_propagate by simp
    moreover from this have "successors s2 = successors ?f" by (simp add: prop_rel_def)
    ultimately show ?thesis using prop_rel_nodes [of now ?f s2 i] fin s2 by (cases "i = k") simp_all
  qed
  then show "successors s' = successors s"
    "i \<noteq> k \<Longrightarrow> i \<notin> set (succs (successors s) k) \<Longrightarrow>
      nodes s' i = nodes s i \<or> (\<exists>m m'. nodes s i = Some m \<and> nodes s' i = Some m' \<and> dep_canceled now m m')"
    by simp_all
qed

text \<open>A task that was not started and whose dependencies have all succeeded is not started any more:
  the only tasks that wake it are its dependencies, and they do not finish a second time.\<close>

definition asleep :: "pool \<Rightarrow> string \<Rightarrow> bool" where
  "asleep s i \<longleftrightarrow> (\<exists>n. nodes s i = Some n \<and> \<not> started (ntask n) \<and> \<not> nrunning n \<and>
     (\<forall>d \<in> set (deps (ntask n)). pool_state_of s d = Some Succeeded))"

lemma asleepI:
  assumes "asleep s i" "absorbing s s'" "nodes s i = Some n" "nodes s' i = Some n'"
    and "deps (ntask n') = deps (ntask n)" "started (ntask n') \<longrightarrow> started (ntask n)" "nrunning n' = nrunning n"
  shows "asleep s' i"
  using assms by (auto simp: asleep_def absorbing_def)

lemma asleep_step:
  assumes st: "pool_step s ws evs s' ws'" and inv: "sys_inv s ws" and a: "asleep s i"
  shows "asleep s' i"
proof -
  note keep = asleepI [OF a absorbing_step [OF st inv]]
  from a obtain n where n: "nodes s i = Some n" "\<not> started (ntask n)" "\<not> nrunning n"
    "\<forall>d \<in> set (deps (ntask n)). pool_state_of s d = Some Succeeded" by (auto simp: asleep_def)
  show ?thesis
    using st inv
  proof (cases rule: step_kinds)
    case calm
    from changes_Some_fwd [OF this(1) n(1)] obtain m where m: "nodes s' i = Some m" "calm_node n m" by blast
    from keep [OF n(1) m(1)] calm_nodeD(3) [OF m(2)] core_nodeD(2,4) [OF calm_nodeD(1) [OF m(2)]]
    show ?thesis by blast
  next
    case (submission t now stg r)
    from submission(4) fresh_queued [OF submission(1)] have "nodes s' i = Some n"
    proof (cases rule: pool_submit_outcome)
      case (inserted sg h g lr m)
      with n(1) show ?thesis by (auto simp: emplace_node_def)
    qed (simp add: n(1))
    from keep [OF n(1) this] show ?thesis by simp
  next
    case (dispatch k c now m d)
    have "cand_id c \<noteq> i" using dispatch(4,5) n(1,2) by (auto simp: started_def)
    with dispatch(6) n(1) have "nodes s' i = Some n" by simp
    from keep [OF n(1) this] show ?thesis by simp
  next
    case (ending k x now outs res m)
    have x: "i \<noteq> x" using ending(4,5) n(1,3) by auto
    have "i \<notin> set (succs (successors s) x)"
    proof
      assume "i \<in> set (succs (successors s) x)"
      then have "count_list (succs (successors s) x) i \<noteq> 0" by (simp add: count_list_0_iff)
      moreover have "wf_edges s" using inv by (simp add: sys_inv_def pool_inv_def pool_core_def)
      ultimately have "count_list (deps (ntask n)) x \<noteq> 0"
        using n(1) unfolding wf_edges_def by (metis le_zero_eq)
      then have "x \<in> set (deps (ntask n))" by (simp add: count_list_0_iff)
      with n(4) ending(4,6) show False by (auto simp: pool_state_of_def)
    qed
    from finalize_other(2) [OF ending(4-7) x this] consider "nodes s' i = Some n"
      | m' where "nodes s' i = Some m'" "dep_canceled now n m'" using n(1) by auto
    then show ?thesis
    proof cases
      case 1
      from keep [OF n(1) this] show ?thesis by simp
    next
      case 2
      from keep [OF n(1) 2(1)] dep_canceled_fields(1,4,5) [OF 2(2)] show ?thesis by (simp add: started_def)
    qed
  qed
qed

lemma asleep_run:
  assumes "pool_run s ws evs s' ws'" "sys_inv s ws" "asleep s i"
  shows "asleep s' i"
proof -
  from assms have "sys_inv s' ws' \<and> asleep s' i"
    by (induction rule: pool_run.induct) (auto intro: sys_inv_step asleep_step)
  then show ?thesis by simp
qed

end
