(* ===== verification/App_Config.thy ===== *)
theory App_Config
  imports Platform Http_Client Pool_Steps
begin

text \<open>
  \<open>app/src/main.cpp\<close>: what the application decides before it shows a window. The environment is a
  map, the number of hardware threads an argument, and the warnings are returned in the order in
  which they are logged.
\<close>

section \<open>Settings\<close>

datatype log_entry = Log_entry log_level string string string string

definition startup_warning :: "string \<Rightarrow> string \<Rightarrow> log_entry" where
  "startup_warning event msg = Log_entry Warn ''startup'' ''app'' event msg"

definition auto_worker_count :: "int \<Rightarrow> int" where
  "auto_worker_count hardware =
     (let hw = i32 hardware in if hw \<le> 0 then 4 else clamp_int (hw - 1) 2 8)"

text \<open>
  The value is a \<open>long\<close>, tested as such and then converted to \<open>int\<close>. \<open>logging\<close> says whether there is
  a logger.
\<close>

definition parse_env_int ::
  "bool \<Rightarrow> environment \<Rightarrow> string \<Rightarrow> int \<Rightarrow> bool \<Rightarrow> int \<times> log_entry list" where
  "parse_env_int logging env name fallback allow_zero =
     (case env_value env name of
        None \<Rightarrow> (fallback, [])
      | Some raw \<Rightarrow>
          (case strtol10 raw of
             (v, rest) \<Rightarrow>
               if rest = [] \<and> (if allow_zero then 0 \<le> v else 0 < v) then (i32 v, [])
               else (fallback,
                     if logging
                     then [startup_warning ''scheduler_config_invalid''
                             (''Invalid value for '' @ name @ ''='' @ raw @ '', fallback='' @
                              to_string_int fallback)]
                     else [])))"

definition build_scheduler_config ::
  "bool \<Rightarrow> int \<Rightarrow> environment \<Rightarrow> scheduler_config \<times> log_entry list" where
  "build_scheduler_config logging hardware env =
     (let workers0 = auto_worker_count hardware;
          (workers, log1) = parse_env_int logging env ''STV_SCHED_WORKERS'' workers0 False;
          (slots, log2) = parse_env_int logging env ''STV_SCHED_CPU_SLOTS'' workers0 False;
          (ram, log3) = parse_env_int logging env ''STV_SCHED_RAM_MB_SOFT'' 2048 True;
          (vram, log4) = parse_env_int logging env ''STV_SCHED_VRAM_MB_SOFT'' 7680 True;
          (interval, log5) = parse_env_int logging env ''STV_SCHED_AGING_INTERVAL_MS'' 500 False;
          (boost, log6) = parse_env_int logging env ''STV_SCHED_AGING_BOOST'' 1 False;
          (pause, log7) = parse_env_int logging env ''STV_SCHED_PAUSE_TIMEOUT_MS'' 1500 False
      in (\<lparr>worker_count = workers,
           resource_budget = \<lparr>cpu_slots_hard = slots, ram_soft_mb = ram, vram_soft_mb = vram\<rparr>,
           aging_policy = \<lparr>interval_ms = interval, boost_per_interval = boost\<rparr>,
           pause_policy = \<lparr>checkpoint_timeout_ms = pause\<rparr>\<rparr>,
          log1 @ log2 @ log3 @ log4 @ log5 @ log6 @ log7))"

section \<open>The choice of the scheduler and of the client\<close>

datatype scheduler_choice = Use_simple | Use_thread_pool scheduler_config

definition choose_scheduler :: "environment \<Rightarrow> scheduler_config \<Rightarrow> scheduler_choice \<times> log_entry list" where
  "choose_scheduler env cfg =
     (let mode = (case env ''STV_SCHEDULER'' of None \<Rightarrow> ''threadpool'' | Some v \<Rightarrow> v)
      in if mode = ''simple''
         then (Use_simple, [startup_warning ''scheduler_mode'' ''Using simple scheduler fallback''])
         else (Use_thread_pool cfg,
               if mode \<noteq> ''threadpool''
               then [startup_warning ''scheduler_mode''
                       (''Unknown STV_SCHEDULER value, fallback to threadpool: '' @ mode)]
               else []))"

definition main_retry_policy :: retry_policy where
  "main_retry_policy = default_policy\<lparr>max_retries := 2, initial_backoff := 500, max_backoff := 5000,
     backoff_multiplier := 2\<rparr>"

definition main_api_base_url :: "environment \<Rightarrow> string" where
  "main_api_base_url env =
     (case env ''STV_API_BASE_URL'' of None \<Rightarrow> ''http://127.0.0.1:8765'' | Some v \<Rightarrow> v)"

section \<open>Properties\<close>

lemma auto_worker_count_range: "2 \<le> auto_worker_count hardware \<and> auto_worker_count hardware \<le> 8"
  by (simp add: auto_worker_count_def clamp_int_def Let_def)

lemma to_string_int_nonempty: "to_string_int v \<noteq> []"
  by (simp add: to_string_int_def)

text \<open>What a variable yields is the fallback, or the value read from it, narrowed.\<close>

lemma parse_env_int_cases:
  "fst (parse_env_int logging env name fallback allow_zero) = fallback \<or>
   (\<exists>raw v. env name = Some raw \<and> fst (strtol10 raw) = v \<and> (if allow_zero then 0 \<le> v else 0 < v) \<and>
      fst (parse_env_int logging env name fallback allow_zero) = i32 v)"
  by (auto simp: parse_env_int_def env_value_def split: option.splits prod.splits)

text \<open>What a numeric variable means. An unset or empty variable gives the fallback in silence. A
  decimal number in the range of \<open>long\<close> is taken if its sign allows, and then reduced to 32 bits
  without a warning; otherwise the fallback is used and, with a logger, one warning is logged.\<close>

theorem parse_env_int_spec:
  assumes "\<bar>v\<bar> \<le> 9223372036854775807"
  shows "(env name = Some (to_string_int v) \<longrightarrow>
      (let accepted = (if allow_zero then 0 \<le> v else 0 < v);
           (n, logs) = parse_env_int logging env name fallback allow_zero
       in n = (if accepted then i32 v else fallback) \<and> (accepted \<and> v \<le> INT_MAX \<longrightarrow> n = v) \<and>
          length logs = (if accepted \<or> \<not> logging then 0 else 1))) \<and>
    (env name = None \<or> env name = Some [] \<longrightarrow>
      parse_env_int logging env name fallback allow_zero = (fallback, []))"
  using strtol10_to_string [OF assms] to_string_int_nonempty [of v]
  by (auto simp: parse_env_int_def env_value_def Let_def no_wrap INT_MAX_def i32_def)

theorem parse_env_int_spec_witness:
  "fst (parse_env_int True [''STV_SCHED_WORKERS'' \<mapsto> to_string_int 4294967297] ''STV_SCHED_WORKERS'' 4 False) = 1 \<and>
   fst (parse_env_int True [''STV_SCHED_WORKERS'' \<mapsto> to_string_int (- 3)] ''STV_SCHED_WORKERS'' 4 False) = 4"
  using parse_env_int_spec [of 4294967297 "[''STV_SCHED_WORKERS'' \<mapsto> to_string_int 4294967297]"
      "''STV_SCHED_WORKERS''" False True 4]
    parse_env_int_spec [of "- 3" "[''STV_SCHED_WORKERS'' \<mapsto> to_string_int (- 3)]"
      "''STV_SCHED_WORKERS''" False True 4]
  by (auto simp: Let_def i32_def split: prod.splits)


lemma parse_env_int_bounds:
  assumes "\<And>raw. env name = Some raw \<Longrightarrow> fst (strtol10 raw) \<le> b" and "b \<le> INT_MAX"
    and "lo \<le> fallback" "fallback \<le> b" "lo \<le> (if allow_zero then 0 else 1)"
  shows "lo \<le> fst (parse_env_int logging env name fallback allow_zero) \<and>
    fst (parse_env_int logging env name fallback allow_zero) \<le> b"
  using parse_env_int_cases [of logging env name fallback allow_zero]
proof
  assume "\<exists>raw v. env name = Some raw \<and> fst (strtol10 raw) = v \<and> (if allow_zero then 0 \<le> v else 0 < v) \<and>
      fst (parse_env_int logging env name fallback allow_zero) = i32 v"
  then obtain raw v where v: "env name = Some raw" "fst (strtol10 raw) = v"
      "if allow_zero then 0 \<le> v else 0 < v"
      "fst (parse_env_int logging env name fallback allow_zero) = i32 v" by blast
  from assms(1) [OF v(1)] v(2) have "v \<le> b" by simp
  moreover have "lo \<le> v" "0 \<le> v" using assms(5) v(3) by (auto split: if_splits)
  moreover from this \<open>v \<le> b\<close> assms(2) have "i32 v = v" by (intro i32_id) (simp_all add: INT_MAX_def)
  ultimately show ?thesis using v(4) by simp
qed (use assms in simp)

lemma build_scheduler_config_fields:
  "fst (build_scheduler_config logging hardware env) =
    (let get = (\<lambda>name fallback allow_zero. fst (parse_env_int logging env name fallback allow_zero))
     in \<lparr>worker_count = get ''STV_SCHED_WORKERS'' (auto_worker_count hardware) False,
         resource_budget = \<lparr>cpu_slots_hard = get ''STV_SCHED_CPU_SLOTS'' (auto_worker_count hardware) False,
           ram_soft_mb = get ''STV_SCHED_RAM_MB_SOFT'' 2048 True,
           vram_soft_mb = get ''STV_SCHED_VRAM_MB_SOFT'' 7680 True\<rparr>,
         aging_policy = \<lparr>interval_ms = get ''STV_SCHED_AGING_INTERVAL_MS'' 500 False,
           boost_per_interval = get ''STV_SCHED_AGING_BOOST'' 1 False\<rparr>,
         pause_policy = \<lparr>checkpoint_timeout_ms = get ''STV_SCHED_PAUSE_TIMEOUT_MS'' 1500 False\<rparr>\<rparr>)"
  by (simp add: build_scheduler_config_def Let_def split: prod.splits)

lemma build_scheduler_config_bounds:
  assumes small: "\<forall>name raw. env name = Some raw \<longrightarrow> fst (strtol10 raw) \<le> b" and b: "7680 \<le> b" "b \<le> INT_MAX"
    and c: "fst (build_scheduler_config logging hardware env) = c"
  shows "1 \<le> worker_count c \<and> worker_count c \<le> b"
    "1 \<le> cpu_slots_hard (resource_budget c) \<and> cpu_slots_hard (resource_budget c) \<le> b"
    "0 \<le> ram_soft_mb (resource_budget c) \<and> ram_soft_mb (resource_budget c) \<le> b"
    "0 \<le> vram_soft_mb (resource_budget c) \<and> vram_soft_mb (resource_budget c) \<le> b"
    "1 \<le> interval_ms (aging_policy c) \<and> interval_ms (aging_policy c) \<le> b"
    "1 \<le> boost_per_interval (aging_policy c) \<and> boost_per_interval (aging_policy c) \<le> b"
    "1 \<le> checkpoint_timeout_ms (pause_policy c) \<and> checkpoint_timeout_ms (pause_policy c) \<le> b"
proof -
  note bounds = parse_env_int_bounds [where env = env and logging = logging and b = b, OF small [rule_format] b(2)]
  show "1 \<le> worker_count c \<and> worker_count c \<le> b"
    "1 \<le> cpu_slots_hard (resource_budget c) \<and> cpu_slots_hard (resource_budget c) \<le> b"
    "0 \<le> ram_soft_mb (resource_budget c) \<and> ram_soft_mb (resource_budget c) \<le> b"
    "0 \<le> vram_soft_mb (resource_budget c) \<and> vram_soft_mb (resource_budget c) \<le> b"
    "1 \<le> interval_ms (aging_policy c) \<and> interval_ms (aging_policy c) \<le> b"
    "1 \<le> boost_per_interval (aging_policy c) \<and> boost_per_interval (aging_policy c) \<le> b"
    "1 \<le> checkpoint_timeout_ms (pause_policy c) \<and> checkpoint_timeout_ms (pause_policy c) \<le> b"
    using auto_worker_count_range [of hardware] b(1)
    unfolding c [symmetric] build_scheduler_config_fields Let_def
    by (simp_all only: scheduler_config.select_convs resource_budget.select_convs
          aging_policy.select_convs pause_policy.select_convs)
       ((rule bounds; simp)+)
qed

lemma in_force:
  assumes "0 < worker_count c" "2 * worker_count c \<le> INT_MAX" "0 < cpu_slots_hard (resource_budget c)"
    "2 * cpu_slots_hard (resource_budget c) \<le> INT_MAX"
    "0 \<le> ram_soft_mb (resource_budget c)" "0 \<le> vram_soft_mb (resource_budget c)"
    "0 < interval_ms (aging_policy c)" "0 < boost_per_interval (aging_policy c)"
    "0 < checkpoint_timeout_ms (pause_policy c)"
  shows "sane_config c \<and> normalize_config hw c = c"
  using assms by (auto simp: sane_config_def normalize_config_def normalize_budget_def INT_MAX_def Let_def)

text \<open>C34: The settings the application starts with are in force as they are. If no variable holds a
  number of \<open>2^30\<close> or more, whatever else the variables hold, the configuration meets the
  precondition of the scheduler's safety results and normalising does not change it. A worker
  count that is set does not raise the CPU slots: they stay at the automatic number.\<close>

theorem startup_config_in_force:
  assumes "\<And>name raw. env name = Some raw \<Longrightarrow> fst (strtol10 raw) \<le> 1073741823"
    and "fst (build_scheduler_config logging hardware env) = c"
  shows "sane_config c \<and> normalize_config hw c = c \<and> 1 \<le> worker_count c \<and>
    (env ''STV_SCHED_WORKERS'' = None \<longrightarrow> 2 \<le> worker_count c \<and> worker_count c \<le> 8) \<and>
    (env ''STV_SCHED_CPU_SLOTS'' = None \<longrightarrow>
      cpu_slots_hard (resource_budget c) = auto_worker_count hardware \<and>
      cpu_slots_hard (resource_budget c) \<le> 8)"
proof -
  have "\<forall>name raw. env name = Some raw \<longrightarrow> fst (strtol10 raw) \<le> 1073741823" using assms(1) by blast
  note bounds = build_scheduler_config_bounds [OF this _ _ assms(2)]
  have unset: "fst (parse_env_int logging env name k z) = k" if "env name = None" for name k z
    using that by (simp add: parse_env_int_def env_value_def)
  have "env ''STV_SCHED_WORKERS'' = None \<longrightarrow> worker_count c = auto_worker_count hardware"
    "env ''STV_SCHED_CPU_SLOTS'' = None \<longrightarrow> cpu_slots_hard (resource_budget c) = auto_worker_count hardware"
    unfolding assms(2) [symmetric] build_scheduler_config_fields Let_def by (simp_all add: unset)
  with in_force [of c hw] bounds auto_worker_count_range [of hardware] show ?thesis
    by (simp add: INT_MAX_def)
qed

definition big_machine :: environment where
  "big_machine = [''STV_SCHED_WORKERS'' \<mapsto> ''16'', ''STV_SCHED_AGING_BOOST'' \<mapsto> ''often'']"

theorem startup_config_in_force_witness:
  "sane_config (fst (build_scheduler_config True 4 big_machine)) \<and>
   cpu_slots_hard (resource_budget (fst (build_scheduler_config True 4 big_machine))) = auto_worker_count 4"
proof -
  have "fst (strtol10 ''16'') = 16" "fst (strtol10 ''often'') = 0" by code_simp+
  then have "fst (strtol10 raw) \<le> 1073741823" if "big_machine name = Some raw" for name raw
    using that by (auto simp: big_machine_def split: if_splits)
  from startup_config_in_force [where env = big_machine and logging = True and hardware = 4 and hw = 1,
      OF this refl] show ?thesis
    by (auto simp: big_machine_def)
qed

end
