(* ===== verification/Orchestrator.thy ===== *)
theory Orchestrator
  imports Scheduler_Interface "HOL-Library.Word"
begin

unbundle bit_operations_syntax

text \<open>
  \<open>core/src/orchestrator.cpp\<close>: \<open>WorkflowEngine\<close>. The engine calls a scheduler through its
  interface, so \<open>start_workflow\<close> and \<open>cancel_workflow\<close> take the scheduler's operations as
  arguments; what they guarantee is proved in the locale \<open>workflow_host\<close>, for any scheduler that
  honours the contract, and instantiated in the theory \<open>Workflows\<close>.

  The scheduler delivers its events before a call returns. The engine's callback is one of the
  scheduler's, so events raised by a call are handled with the engine as it is during the call.
  The \<open>mt19937\<close> generator is a parameter: the stream of the numbers it draws. One clock reading
  stands for the readings of one call.
\<close>

section \<open>Identifiers\<close>

definition hex_char :: "nat \<Rightarrow> char" where
  "hex_char d = (if d < 10 then digit_char d else char_of (d + 87))"

fun nat_to_hex :: "nat \<Rightarrow> string" where
  "nat_to_hex n = (if n < 16 then [hex_char n] else nat_to_hex (n div 16) @ [hex_char (n mod 16)])"

declare nat_to_hex.simps [simp del]

definition word_hex :: "32 word \<Rightarrow> string" where
  "word_hex w = nat_to_hex (unat w)"

type_synonym rng = "nat \<Rightarrow> 32 word"

definition generate_uuid :: "rng \<Rightarrow> nat \<Rightarrow> string \<times> nat" where
  "generate_uuid dis k =
     (word_hex ((dis k AND 0xFFFF0000) OR 0x0000FFFF) @ ''-'' @
      word_hex (dis (k + 1) AND 0xFFFF) @ ''-4'' @
      word_hex (dis (k + 2) AND 0x0FFF) @ ''-'' @
      word_hex ((dis (k + 3) AND 0x3FFF) OR 0x8000) @ ''-'' @
      word_hex (dis (k + 4) AND 0xFFFF) @
      word_hex (dis (k + 5) AND 0xFFFF) @
      word_hex (dis (k + 6) AND 0xFFFF), k + 7)"

section \<open>State\<close>

record workflow =
  wf_trace :: string
  wf_tasks :: "string list"
  wf_completed :: int
  wf_total :: int
  wf_failed :: bool
  wf_output :: string

type_synonym stage_factory = "task_type \<Rightarrow> stage option"

record engine =
  active_workflows :: "workflow list"
  stage_factory :: "stage_factory option"
  completion_cb :: callback
  progress_cb :: callback
  rng_pos :: nat

text \<open>What the engine calls: its completion and progress callbacks.\<close>

datatype engine_call =
    Progress_call nat string string task_state flt
  | Completion_call nat string bool string

definition create_engine :: engine where
  "create_engine = \<lparr>active_workflows = [], stage_factory = Some (\<lambda>ty. Some (create_mock_stage ty)),
     completion_cb = None, progress_cb = None, rng_pos = 0\<rparr>"

definition on_completion :: "engine \<Rightarrow> callback \<Rightarrow> engine" where
  "on_completion eng cb = eng\<lparr>completion_cb := cb\<rparr>"

definition on_progress :: "engine \<Rightarrow> callback \<Rightarrow> engine" where
  "on_progress eng cb = eng\<lparr>progress_cb := cb\<rparr>"

definition set_stage_factory :: "engine \<Rightarrow> stage_factory option \<Rightarrow> engine" where
  "set_stage_factory eng f = eng\<lparr>stage_factory := f\<rparr>"

section \<open>handle_state_change\<close>

definition mock_output_path :: string where
  "mock_output_path = ''/tmp/stv_mock/final_output.mp4''"

definition workflow_event ::
  "callback \<Rightarrow> callback \<Rightarrow> workflow \<Rightarrow> state_event \<Rightarrow> workflow \<times> engine_call list" where
  "workflow_event ccb pcb w ev =
     (let calls1 = (case pcb of None \<Rightarrow> []
            | Some k \<Rightarrow> [Progress_call k (wf_trace w) (ev_task ev) (ev_state ev) (ev_progress ev)]);
          wf1 = (if ev_state ev = Succeeded then w\<lparr>wf_completed := i32 (wf_completed w + 1)\<rparr>
                 else if ev_state ev = Failed \<or> ev_state ev = Canceled then w\<lparr>wf_failed := True\<rparr>
                 else w)
      in if wf_completed wf1 = wf_total wf1
         then (wf1\<lparr>wf_output := mock_output_path\<rparr>,
               calls1 @ (case ccb of None \<Rightarrow> []
                 | Some k \<Rightarrow> [Completion_call k (wf_trace wf1) True mock_output_path]))
         else (wf1, calls1))"

fun handle_in ::
  "callback \<Rightarrow> callback \<Rightarrow> workflow list \<Rightarrow> state_event \<Rightarrow> workflow list \<times> engine_call list" where
  "handle_in ccb pcb [] ev = ([], [])"
| "handle_in ccb pcb (w # wfs) ev =
     (if ev_task ev \<notin> set (wf_tasks w)
      then (case handle_in ccb pcb wfs ev of (wfs', calls) \<Rightarrow> (w # wfs', calls))
      else (case workflow_event ccb pcb w ev of (w', calls) \<Rightarrow> (w' # wfs, calls)))"

definition handle_state_change :: "engine \<Rightarrow> state_event \<Rightarrow> engine \<times> engine_call list" where
  "handle_state_change eng ev =
     (case handle_in (completion_cb eng) (progress_cb eng) (active_workflows eng) ev of
        (wfs, calls) \<Rightarrow> (eng\<lparr>active_workflows := wfs\<rparr>, calls))"

fun deliver :: "engine \<Rightarrow> state_event list \<Rightarrow> engine \<times> engine_call list" where
  "deliver eng [] = (eng, [])"
| "deliver eng (ev # evs) =
     (case handle_state_change eng ev of
        (eng1, calls1) \<Rightarrow> (case deliver eng1 evs of (eng2, calls2) \<Rightarrow> (eng2, calls1 @ calls2)))"

section \<open>start_workflow\<close>

type_synonym 's submit_op = "int \<Rightarrow> 's \<Rightarrow> task_descriptor \<Rightarrow> stage option \<Rightarrow> 's sched_result"
type_synonym 's cancel_op = "int \<Rightarrow> 's \<Rightarrow> string \<Rightarrow> 's sched_result"

text \<open>\<open>scheduler_->cancel(id)\<close> for every id, results discarded.\<close>

fun cancel_all :: "'s cancel_op \<Rightarrow> int \<Rightarrow> 's \<Rightarrow> string list \<Rightarrow> 's \<times> state_event list" where
  "cancel_all cancel now s [] = (s, [])"
| "cancel_all cancel now s (i # is) =
     (case cancel now s i of
        (s1, ev1, r) \<Rightarrow> (case cancel_all cancel now s1 is of (s2, ev2) \<Rightarrow> (s2, ev1 @ ev2)))"

definition submit_task ::
  "'s submit_op \<Rightarrow> 's cancel_op \<Rightarrow> int \<Rightarrow> string list \<Rightarrow> 's \<Rightarrow> task_descriptor \<Rightarrow> stage option \<Rightarrow> 's sched_result" where
  "submit_task submit cancel now ids s t stg =
     (case submit now s t stg of
        (s1, ev1, Inl e) \<Rightarrow> (case cancel_all cancel now s1 ids of (s2, ev2) \<Rightarrow> (s2, ev1 @ ev2, Inl e))
      | (s1, ev1, Inr u) \<Rightarrow> (s1, ev1, Ok))"

definition storyboard_task :: "int \<Rightarrow> string \<Rightarrow> string \<Rightarrow> nat \<Rightarrow> task_descriptor" where
  "storyboard_task now tid trace tok =
     (new_task now tid trace Storyboard)\<lparr>priority := 100, cancel_token := Some tok\<rparr>"

definition image_task :: "int \<Rightarrow> string \<Rightarrow> string \<Rightarrow> nat \<Rightarrow> string \<Rightarrow> task_descriptor" where
  "image_task now tid trace tok sb =
     (new_task now tid trace ImageGen)\<lparr>priority := 50, cancel_token := Some tok, deps := [sb]\<rparr>"

definition compose_task :: "int \<Rightarrow> string \<Rightarrow> string \<Rightarrow> nat \<Rightarrow> string list \<Rightarrow> task_descriptor" where
  "compose_task now tid trace tok imgs =
     (new_task now tid trace Compose)\<lparr>priority := 10, cancel_token := Some tok, deps := imgs\<rparr>"

text \<open>
  The image loop, \<open>n\<close> iterations to go: the ids submitted so far, those of the images, and the
  position in the random stream. Afterwards the state, the events, the position, and the error or
  the ids.
\<close>

fun submit_images ::
  "'s submit_op \<Rightarrow> 's cancel_op \<Rightarrow> stage_factory \<Rightarrow> rng \<Rightarrow> int \<Rightarrow> string \<Rightarrow> nat \<Rightarrow> string \<Rightarrow> nat \<Rightarrow>
   string list \<Rightarrow> string list \<Rightarrow> nat \<Rightarrow> 's \<Rightarrow>
   's \<times> state_event list \<times> nat \<times> (task_error + string list \<times> string list)" where
  "submit_images submit cancel fac dis now trace tok sb 0 ids imgs k s = (s, [], k, Inr (ids, imgs))"
| "submit_images submit cancel fac dis now trace tok sb (Suc n) ids imgs k s =
     (case generate_uuid dis k of
        (tid, k1) \<Rightarrow>
          (case submit_task submit cancel now (ids @ [tid]) s (image_task now tid trace tok sb) (fac ImageGen) of
             (s1, ev1, Inl e) \<Rightarrow> (s1, ev1, k1, Inl e)
           | (s1, ev1, Inr u) \<Rightarrow>
               (case submit_images submit cancel fac dis now trace tok sb n (ids @ [tid]) (imgs @ [tid]) k1 s1 of
                  (s2, ev2, k2, r) \<Rightarrow> (s2, ev1 @ ev2, k2, r))))"

definition submit_chain ::
  "'s submit_op \<Rightarrow> 's cancel_op \<Rightarrow> stage_factory \<Rightarrow> rng \<Rightarrow> int \<Rightarrow> string \<Rightarrow> nat \<Rightarrow> nat \<Rightarrow> nat \<Rightarrow> 's \<Rightarrow>
   's \<times> state_event list \<times> nat \<times> (task_error + string list)" where
  "submit_chain submit cancel fac dis now trace tok n k s =
     (case generate_uuid dis k of
        (sb, k1) \<Rightarrow>
          (case submit_task submit cancel now [sb] s (storyboard_task now sb trace tok) (fac Storyboard) of
             (s1, ev1, Inl e) \<Rightarrow> (s1, ev1, k1, Inl e)
           | (s1, ev1, Inr u) \<Rightarrow>
               (case submit_images submit cancel fac dis now trace tok sb n [sb] [] k1 s1 of
                  (s2, ev2, k2, Inl e) \<Rightarrow> (s2, ev1 @ ev2, k2, Inl e)
                | (s2, ev2, k2, Inr (ids, imgs)) \<Rightarrow>
                    (case generate_uuid dis k2 of
                       (ct, k3) \<Rightarrow>
                         (case submit_task submit cancel now (ids @ [ct]) s2
                                 (compose_task now ct trace tok imgs) (fac Compose) of
                            (s3, ev3, Inl e) \<Rightarrow> (s3, ev1 @ ev2 @ ev3, k3, Inl e)
                          | (s3, ev3, Inr v) \<Rightarrow> (s3, ev1 @ ev2 @ ev3, k3, Inr (ids @ [ct])))))))"

text \<open>
  \<open>story_text\<close> is an unnamed parameter of the code and \<open>style\<close> is only logged. The new workflow is
  registered after the last submission; events raised before that meet the workflows registered
  until then.
\<close>

definition start_workflow ::
  "'s submit_op \<Rightarrow> 's cancel_op \<Rightarrow> ('s \<Rightarrow> 's \<times> nat) \<Rightarrow> rng \<Rightarrow> int \<Rightarrow> engine \<Rightarrow> 's \<Rightarrow>
   string \<Rightarrow> string \<Rightarrow> int \<Rightarrow> engine \<times> 's \<times> engine_call list \<times> (task_error + string)" where
  "start_workflow submit cancel alloc dis now eng s story_text style scene_count =
     (case generate_uuid dis (rng_pos eng) of
        (trace, k0) \<Rightarrow>
          (let eng0 = eng\<lparr>rng_pos := k0\<rparr>
           in case stage_factory eng0 of
                None \<Rightarrow> (eng0, s, [], Inl (TaskError_Internal ''Stage factory is not configured''))
              | Some fac \<Rightarrow>
                  if scene_count \<le> 0
                  then (eng0, s, [], Inl (TaskError_Internal ''scene_count must be > 0''))
                  else
                    (case alloc s of
                       (s0, tok) \<Rightarrow>
                         (case submit_chain submit cancel fac dis now trace tok (nat scene_count) k0 s0 of
                            (s1, evs, k1, r) \<Rightarrow>
                              (case deliver (eng0\<lparr>rng_pos := k1\<rparr>) evs of
                                 (eng1, calls) \<Rightarrow>
                                   (case r of
                                      Inl e \<Rightarrow> (eng1, s1, calls, Inl e)
                                    | Inr ids \<Rightarrow>
                                        (eng1\<lparr>active_workflows := active_workflows eng1 @
                                            [\<lparr>wf_trace = trace, wf_tasks = ids, wf_completed = 0,
                                              wf_total = i32 (int (length ids)), wf_failed = False,
                                              wf_output = []\<rparr>]\<rparr>,
                                         s1, calls, Inr trace)))))))"

section \<open>cancel_workflow\<close>

definition err_workflow_not_found :: "string \<Rightarrow> task_error" where
  "err_workflow_not_found trace = TaskError_Internal (''Workflow not found: '' @ trace)"

definition cancel_workflow ::
  "'s cancel_op \<Rightarrow> int \<Rightarrow> engine \<Rightarrow> 's \<Rightarrow> string \<Rightarrow> engine \<times> 's \<times> engine_call list \<times> void_result" where
  "cancel_workflow cancel now eng s trace =
     (case List.find (\<lambda>w. wf_trace w = trace) (active_workflows eng) of
        None \<Rightarrow> (eng, s, [], Inl (err_workflow_not_found trace))
      | Some w \<Rightarrow>
          (case cancel_all cancel now s (wf_tasks w) of
             (s1, evs) \<Rightarrow> (case deliver eng evs of (eng1, calls) \<Rightarrow> (eng1, s1, calls, Ok))))"

section \<open>What events do to the workflows\<close>

lemma workflow_event_fields:
  assumes "workflow_event ccb pcb w ev = (w', calls)"
  shows "wf_tasks w' = wf_tasks w" "wf_trace w' = wf_trace w" "wf_total w' = wf_total w"
    "wf_completed w' = (if ev_state ev = Succeeded then i32 (wf_completed w + 1) else wf_completed w)"
  using assms by (auto simp: workflow_event_def Let_def split: if_splits)

lemma handle_in_tasks: "handle_in ccb pcb wfs ev = (wfs', calls) \<Longrightarrow> map wf_tasks wfs' = map wf_tasks wfs"
proof (induction wfs arbitrary: wfs' calls)
  case (Cons w wfs)
  then show ?case
    by (auto dest: workflow_event_fields(1) split: if_splits prod.splits)
qed simp

lemma deliver_tasks:
  "deliver eng evs = (eng', calls) \<Longrightarrow>
     map wf_tasks (active_workflows eng') = map wf_tasks (active_workflows eng)"
proof (induction evs arbitrary: eng calls)
  case Nil
  then show ?case by simp
next
  case (Cons ev evs)
  obtain wfs c1 where h: "handle_in (completion_cb eng) (progress_cb eng) (active_workflows eng) ev = (wfs, c1)"
    by fastforce
  let ?eng1 = "eng\<lparr>active_workflows := wfs\<rparr>"
  obtain eng2 c2 where d: "deliver ?eng1 evs = (eng2, c2)" by fastforce
  from Cons.prems h d have e: "eng' = eng2" by (simp add: handle_state_change_def)
  from Cons.IH [of ?eng1 c2] d e handle_in_tasks [OF h] show ?case by simp
qed

text \<open>An event for a task of no registered workflow is dropped.\<close>

lemma handle_in_unknown:
  "\<forall>w \<in> set wfs. ev_task ev \<notin> set (wf_tasks w) \<Longrightarrow> handle_in ccb pcb wfs ev = (wfs, [])"
  by (induction wfs) auto

lemma deliver_unknown:
  assumes "\<And>ev w. ev \<in> set evs \<Longrightarrow> w \<in> set (active_workflows eng) \<Longrightarrow> ev_task ev \<notin> set (wf_tasks w)"
  shows "deliver eng evs = (eng, [])"
  using assms
proof (induction evs)
  case Nil
  then show ?case by simp
next
  case (Cons ev evs)
  then have "handle_in (completion_cb eng) (progress_cb eng) (active_workflows eng) ev = (active_workflows eng, [])"
    by (intro handle_in_unknown) auto
  with Cons show ?case by (simp add: handle_state_change_def)
qed

lemma deliver_append: "deliver eng (xs @ ys) =
    (case deliver eng xs of (eng1, c1) \<Rightarrow> case deliver eng1 ys of (eng2, c2) \<Rightarrow> (eng2, c1 @ c2))"
  by (induction xs arbitrary: eng) (simp_all split: prod.splits)

text \<open>The completion calls for a workflow, by its trace id.\<close>

fun is_completion :: "string \<Rightarrow> engine_call \<Rightarrow> bool" where
  "is_completion trace (Completion_call k t ok p) = (t = trace)"
| "is_completion trace (Progress_call k t i st p) = False"

definition completions :: "string \<Rightarrow> engine_call list \<Rightarrow> nat" where
  "completions trace calls = length (filter (is_completion trace) calls)"

definition successes :: "string list \<Rightarrow> state_event list \<Rightarrow> nat" where
  "successes ids evs = length (filter (\<lambda>ev. ev_task ev \<in> set ids \<and> ev_state ev = Succeeded) evs)"

lemma completions_append [simp]: "completions tr (xs @ ys) = completions tr xs + completions tr ys"
  by (simp add: completions_def)

text \<open>The workflow \<open>w\<close> alone, among others with other tasks before it and other traces.\<close>

definition sole_owner :: "engine \<Rightarrow> workflow \<Rightarrow> bool" where
  "sole_owner eng w \<longleftrightarrow> (\<exists>us vs. active_workflows eng = us @ w # vs \<and>
     (\<forall>u \<in> set us. set (wf_tasks u) \<inter> set (wf_tasks w) = {}) \<and>
     (\<forall>u \<in> set (us @ vs). wf_trace u \<noteq> wf_trace w))"

lemma handle_in_other:
  assumes "handle_in ccb pcb wfs ev = (wfs', calls)" "\<forall>u \<in> set wfs. wf_trace u \<noteq> tr"
  shows "completions tr calls = 0 \<and> map wf_trace wfs' = map wf_trace wfs"
  using assms
proof (induction wfs arbitrary: wfs' calls)
  case Nil
  then show ?case by (simp add: completions_def)
next
  case (Cons u wfs)
  show ?case
  proof (cases "ev_task ev \<in> set (wf_tasks u)")
    case True
    then obtain u' where u': "workflow_event ccb pcb u ev = (u', calls)" "wfs' = u' # wfs"
      using Cons.prems(1) by (auto split: prod.splits)
    then have "completions tr calls = 0"
      using Cons.prems(2)
      by (auto simp: workflow_event_def completions_def Let_def split: if_splits option.splits)
    with u' workflow_event_fields(2) [OF u'(1)] show ?thesis by simp
  next
    case False
    obtain wfs1 where "handle_in ccb pcb wfs ev = (wfs1, calls)" "wfs' = u # wfs1"
      using Cons.prems(1) False by (auto split: prod.splits)
    with Cons show ?thesis by simp
  qed
qed

lemma handle_in_split:
  assumes "handle_in ccb pcb (us @ w # vs) ev = (wfs', calls)"
    and "\<forall>u \<in> set us. set (wf_tasks u) \<inter> set (wf_tasks w) = {}"
    and "\<forall>u \<in> set (us @ vs). wf_trace u \<noteq> wf_trace w"
  shows "\<exists>us' w' vs'. wfs' = us' @ w' # vs' \<and> map wf_tasks us' = map wf_tasks us \<and>
    map wf_trace us' = map wf_trace us \<and> map wf_trace vs' = map wf_trace vs \<and>
    (if ev_task ev \<in> set (wf_tasks w) then workflow_event ccb pcb w ev = (w', calls)
     else w' = w \<and> completions (wf_trace w) calls = 0)"
  using assms
proof (induction us arbitrary: wfs' calls)
  case Nil
  show ?case
  proof (cases "ev_task ev \<in> set (wf_tasks w)")
    case True
    then obtain w' where "workflow_event ccb pcb w ev = (w', calls)" "wfs' = w' # vs"
      using Nil(1) by (auto split: prod.splits)
    with True show ?thesis by (intro exI [of _ "[]"] exI [of _ w'] exI [of _ vs]) simp
  next
    case False
    then obtain vs' where "handle_in ccb pcb vs ev = (vs', calls)" "wfs' = w # vs'"
      using Nil(1) by (auto split: prod.splits)
    with False handle_in_other [OF this(1), of "wf_trace w"] Nil(3) show ?thesis
      by (intro exI [of _ "[]"] exI [of _ w] exI [of _ vs']) simp
  qed
next
  case (Cons u us)
  show ?case
  proof (cases "ev_task ev \<in> set (wf_tasks u)")
    case True
    then have nw: "ev_task ev \<notin> set (wf_tasks w)" using Cons.prems(2) by auto
    obtain u' where u': "workflow_event ccb pcb u ev = (u', calls)" "wfs' = u' # us @ w # vs"
      using Cons.prems(1) True by (auto split: prod.splits)
    have "handle_in ccb pcb [u] ev = ([u'], calls)" using True u'(1) by simp
    from handle_in_other [OF this, of "wf_trace w"] Cons.prems(3) u' nw workflow_event_fields [OF u'(1)]
    show ?thesis by (intro exI [of _ "u' # us"] exI [of _ w] exI [of _ vs]) simp
  next
    case False
    obtain wfs1 where h: "handle_in ccb pcb (us @ w # vs) ev = (wfs1, calls)" "wfs' = u # wfs1"
      using Cons.prems(1) False by (auto split: prod.splits)
    from Cons.IH [OF h(1)] Cons.prems(2,3) obtain us' w' vs' where
      ih: "wfs1 = us' @ w' # vs'" "map wf_tasks us' = map wf_tasks us" "map wf_trace us' = map wf_trace us"
        "map wf_trace vs' = map wf_trace vs"
        "if ev_task ev \<in> set (wf_tasks w) then workflow_event ccb pcb w ev = (w', calls)
         else w' = w \<and> completions (wf_trace w) calls = 0" by auto
    from ih h(2) show ?thesis by (intro exI [of _ "u # us'"] exI [of _ w'] exI [of _ vs']) simp
  qed
qed

lemma sole_owner_step:
  assumes o: "sole_owner eng w" and h: "handle_state_change eng ev = (eng', calls)"
  shows "\<exists>w'. sole_owner eng' w' \<and> completion_cb eng' = completion_cb eng \<and>
    wf_tasks w' = wf_tasks w \<and> wf_trace w' = wf_trace w \<and> wf_total w' = wf_total w \<and>
    (if ev_task ev \<in> set (wf_tasks w)
     then workflow_event (completion_cb eng) (progress_cb eng) w ev = (w', calls)
     else w' = w \<and> completions (wf_trace w) calls = 0)"
proof -
  from o obtain us vs where act: "active_workflows eng = us @ w # vs"
    and dis: "\<forall>u \<in> set us. set (wf_tasks u) \<inter> set (wf_tasks w) = {}"
    and tr: "\<forall>u \<in> set (us @ vs). wf_trace u \<noteq> wf_trace w" by (auto simp: sole_owner_def)
  obtain wfs' where hi: "handle_in (completion_cb eng) (progress_cb eng) (us @ w # vs) ev = (wfs', calls)"
    and eng': "eng' = eng\<lparr>active_workflows := wfs'\<rparr>"
    using h by (auto simp: handle_state_change_def act split: prod.splits)
  from handle_in_split [OF hi dis tr] obtain us' w' vs' where
    r: "wfs' = us' @ w' # vs'" "map wf_tasks us' = map wf_tasks us" "map wf_trace us' = map wf_trace us"
      "map wf_trace vs' = map wf_trace vs"
      "if ev_task ev \<in> set (wf_tasks w) then workflow_event (completion_cb eng) (progress_cb eng) w ev = (w', calls)
       else w' = w \<and> completions (wf_trace w) calls = 0" by blast
  have f: "wf_tasks w' = wf_tasks w" "wf_trace w' = wf_trace w" "wf_total w' = wf_total w"
    using r(5) workflow_event_fields by (auto split: if_splits)
  have "set (map wf_tasks us') = set (map wf_tasks us)" "set (map wf_trace us') = set (map wf_trace us)"
    "set (map wf_trace vs') = set (map wf_trace vs)" using r(2-4) by simp_all
  note imgs = this [unfolded set_map]
  have d: "set (wf_tasks u) \<inter> set (wf_tasks w') = {}" if "u \<in> set us'" for u
  proof -
    from that imgs(1) obtain x where "x \<in> set us" "wf_tasks u = wf_tasks x" by blast
    with dis f(1) show ?thesis by simp
  qed
  have e: "wf_trace u \<noteq> wf_trace w'" if "u \<in> set (us' @ vs')" for u
  proof -
    from that imgs(2,3) have "wf_trace u \<in> wf_trace ` set us \<union> wf_trace ` set vs" by auto
    with tr f(2) show ?thesis by auto
  qed
  have "sole_owner eng' w'"
    unfolding sole_owner_def eng' by (rule exI [of _ us'], rule exI [of _ vs']) (use r(1) d e in auto)
  with f r(5) eng' show ?thesis by auto
qed

text \<open>
  Completion: while fewer than all tasks have been reported successful nothing is called, and the
  last success calls the callback once, always with \<open>success = true\<close>.
\<close>

lemma deliver_incomplete:
  assumes "sole_owner eng w" and "0 \<le> wf_completed w" "wf_total w \<le> INT_MAX"
    and "wf_completed w + int (successes (wf_tasks w) evs) < wf_total w"
    and "deliver eng evs = (eng', calls)"
  shows "completions (wf_trace w) calls = 0 \<and> (\<exists>w'. sole_owner eng' w' \<and>
    completion_cb eng' = completion_cb eng \<and> wf_tasks w' = wf_tasks w \<and> wf_trace w' = wf_trace w \<and>
    wf_total w' = wf_total w \<and> wf_completed w' = wf_completed w + int (successes (wf_tasks w) evs))"
  using assms
proof (induction evs arbitrary: eng w calls)
  case Nil
  then show ?case by (auto simp: completions_def successes_def)
next
  case (Cons ev evs)
  obtain eng1 c1 where h: "handle_state_change eng ev = (eng1, c1)" by fastforce
  obtain eng2 c2 where d: "deliver eng1 evs = (eng2, c2)" by fastforce
  have e: "eng' = eng2" "calls = c1 @ c2" using Cons.prems(5) h d by simp_all
  from sole_owner_step [OF Cons.prems(1) h] obtain w1 where
    o1: "sole_owner eng1 w1" "completion_cb eng1 = completion_cb eng"
    and f1: "wf_tasks w1 = wf_tasks w" "wf_trace w1 = wf_trace w" "wf_total w1 = wf_total w"
    and ev: "if ev_task ev \<in> set (wf_tasks w)
      then workflow_event (completion_cb eng) (progress_cb eng) w ev = (w1, c1)
      else w1 = w \<and> completions (wf_trace w) c1 = 0" by blast
  let ?d = "if ev_task ev \<in> set (wf_tasks w) \<and> ev_state ev = Succeeded then 1 else 0"
  have sc: "successes (wf_tasks w) (ev # evs) = ?d + successes (wf_tasks w) evs"
    by (simp add: successes_def)
  have done1: "wf_completed w1 = wf_completed w + int ?d"
    using ev workflow_event_fields(4) [of "completion_cb eng" "progress_cb eng" w ev w1 c1] Cons.prems(2-4) sc
    by (auto simp: i32_id INT_MAX_def split: if_splits)
  have none: "completions (wf_trace w) c1 = 0"
  proof (cases "ev_task ev \<in> set (wf_tasks w)")
    case True
    with ev have "workflow_event (completion_cb eng) (progress_cb eng) w ev = (w1, c1)" by simp
    moreover have "wf_completed w1 \<noteq> wf_total w" using done1 Cons.prems(4) sc by simp
    ultimately show ?thesis
      by (auto simp: workflow_event_def completions_def Let_def split: if_splits option.splits)
  next
    case False
    with ev show ?thesis by simp
  qed
  have pre: "0 \<le> wf_completed w1" "wf_total w1 \<le> INT_MAX"
    "wf_completed w1 + int (successes (wf_tasks w1) evs) < wf_total w1"
    using Cons.prems(2-4) done1 sc f1 by auto
  from Cons.IH [OF o1(1) pre d [folded e(1)]] none e o1(2) f1 done1 sc show ?case by auto
qed

lemma deliver_complete:
  assumes "sole_owner eng w" "0 \<le> wf_completed w" "wf_total w \<le> INT_MAX"
    and "wf_completed w + int (successes (wf_tasks w) evs) + 1 = wf_total w"
    and ev: "ev_task ev \<in> set (wf_tasks w)" "ev_state ev = Succeeded"
    and cb: "completion_cb eng = Some k"
    and d: "deliver eng (evs @ [ev]) = (eng', calls)"
  shows "completions (wf_trace w) calls = 1 \<and>
    Completion_call k (wf_trace w) True mock_output_path \<in> set calls"
proof -
  obtain eng1 c1 where d1: "deliver eng evs = (eng1, c1)" by fastforce
  obtain eng2 c2 where h: "handle_state_change eng1 ev = (eng2, c2)" by fastforce
  have calls: "calls = c1 @ c2" using d d1 h by (simp add: deliver_append)
  from deliver_incomplete [OF assms(1-3) _ d1] assms(4) obtain w1 where
    z: "completions (wf_trace w) c1 = 0" and o1: "sole_owner eng1 w1" "completion_cb eng1 = Some k"
    and f1: "wf_tasks w1 = wf_tasks w" "wf_trace w1 = wf_trace w" "wf_total w1 = wf_total w"
      "wf_completed w1 + 1 = wf_total w" using cb by auto
  from sole_owner_step [OF o1(1) h] ev f1 o1(2) obtain w2 where
    "workflow_event (Some k) (progress_cb eng1) w1 ev = (w2, c2)" by auto
  moreover have "i32 (wf_completed w1 + 1) = wf_total w"
    using f1(4) assms(2-4) by (simp add: i32_id INT_MAX_def)
  ultimately have "completions (wf_trace w) c2 = 1 \<and> Completion_call k (wf_trace w) True mock_output_path \<in> set c2"
    using ev(2) f1(2,3)
    by (auto simp: workflow_event_def completions_def Let_def split: option.splits)
  with z calls show ?thesis by simp
qed

section \<open>Workflows on any scheduler\<close>

text \<open>What the engine needs of its host besides the scheduler contract: fresh cancel tokens.\<close>

locale workflow_host = scheduler +
  fixes alloc :: "'s \<Rightarrow> 's \<times> nat"
  assumes alloc_frame: "alloc s = (s', tok) \<Longrightarrow> state_of s' = state_of s"
    and alloc_inv: "inv s \<Longrightarrow> alloc s = (s', tok) \<Longrightarrow> inv s'"
begin

text \<open>The tasks \<open>ids\<close> are new since \<open>s0\<close>; or whatever is new since \<open>s0\<close> has ended.\<close>

definition fresh_since :: "'s \<Rightarrow> 's \<Rightarrow> string list \<Rightarrow> bool" where
  "fresh_since s0 s ids \<longleftrightarrow> inv s \<and> distinct ids \<and>
     (\<forall>i \<in> set ids. state_of s0 i = None \<and> state_of s i \<noteq> None) \<and>
     (\<forall>j. j \<notin> set ids \<longrightarrow> state_of s j = state_of s0 j)"

definition rolled_back :: "'s \<Rightarrow> 's \<Rightarrow> bool" where
  "rolled_back s0 s \<longleftrightarrow> inv s \<and>
     (\<forall>j st. state_of s0 j = None \<and> state_of s j = Some st \<longrightarrow> is_terminal st)"

lemma cancel_all_frame:
  assumes "inv s" "cancel_all cancel now s is = (s', evs)"
  shows "inv s'" "state_of s' j = None \<longleftrightarrow> state_of s j = None"
    "state_of s j = Some st \<Longrightarrow> is_terminal st \<Longrightarrow> state_of s' j = Some st"
proof -
  have "inv s' \<and> (state_of s' j = None \<longleftrightarrow> state_of s j = None) \<and>
      (state_of s j = Some st \<longrightarrow> is_terminal st \<longrightarrow> state_of s' j = Some st)"
    using assms
  proof (induction "is" arbitrary: s evs)
    case Nil
    then show ?case by simp
  next
    case (Cons i "is")
    obtain s1 ev1 r where c: "cancel now s i = (s1, ev1, r)" using prod_cases3 by blast
    obtain s2 ev2 where a: "cancel_all cancel now s1 is = (s2, ev2)" by fastforce
    have s': "s' = s2" using Cons.prems(2) c a by simp
    have i1: "inv s1" using cancel_inv [OF Cons.prems(1) c] .
    from Cons.IH [OF i1 a [folded s']] cancel_same_tasks [OF Cons.prems(1) c, of j]
      cancel_terminal_absorbing [OF Cons.prems(1) c, of j st]
    show ?case by simp
  qed
  then show "inv s'" "state_of s' j = None \<longleftrightarrow> state_of s j = None"
    "state_of s j = Some st \<Longrightarrow> is_terminal st \<Longrightarrow> state_of s' j = Some st" by blast+
qed

lemma cancel_all_ends:
  assumes "inv s" "cancel_all cancel now s is = (s', evs)" "i \<in> set is" "state_of s' i = Some st"
  shows "is_terminal st"
  using assms
proof (induction "is" arbitrary: s evs)
  case Nil
  then show ?case by simp
next
  case (Cons k "is")
  obtain s1 ev1 r where c: "cancel now s k = (s1, ev1, r)" using prod_cases3 by blast
  obtain s2 ev2 where a: "cancel_all cancel now s1 is = (s2, ev2)" by fastforce
  have a': "cancel_all cancel now s1 is = (s', ev2)" using Cons.prems(2) c a by simp
  have i1: "inv s1" using cancel_inv [OF Cons.prems(1) c] .
  show ?case
  proof (cases "i \<in> set is")
    case True
    from Cons.IH [OF i1 a' this Cons.prems(4)] show ?thesis .
  next
    case False
    with Cons.prems(3) have ik: "i = k" by simp
    have "state_of s i \<noteq> None"
      using cancel_all_frame(2) [OF i1 a', of i] cancel_same_tasks [OF Cons.prems(1) c, of i] Cons.prems(4)
      by simp
    from cancel_makes_terminal [OF Cons.prems(1) c this [unfolded ik]] obtain st1 where
      "state_of s1 k = Some st1" "is_terminal st1" by blast
    with cancel_all_frame(3) [OF i1 a' this] Cons.prems(4) ik show ?thesis by simp
  qed
qed

lemma submit_task_facts:
  assumes f: "fresh_since s0 s ids" and q: "tstate t = Queued"
    and sub: "submit_task submit cancel now (ids @ [task_id t]) s t stg = (s', evs, r)"
  shows "(r = Ok \<longrightarrow> fresh_since s0 s' (ids @ [task_id t])) \<and> (\<forall>e. r = Inl e \<longrightarrow> rolled_back s0 s')"
proof -
  have inv: "inv s" using f by (simp add: fresh_since_def)
  obtain s1 ev1 r1 where s1: "submit now s t stg = (s1, ev1, r1)" using prod_cases3 by blast
  show ?thesis
  proof (cases r1)
    case (Inl e)
    obtain s2 ev2 where c: "cancel_all cancel now s1 (ids @ [task_id t]) = (s2, ev2)" by fastforce
    have r: "s' = s2" "r = Inl e" using sub s1 Inl c by (simp_all add: submit_task_def)
    have st: "state_of s1 = state_of s" using submit_rejected s1 Inl by blast
    have i1: "inv s1" using submit_inv [OF inv q s1] .
    have "rolled_back s0 s2"
      unfolding rolled_back_def
    proof (intro conjI allI impI)
      show "inv s2" by (rule cancel_all_frame(1) [OF i1 c])
      fix j st'
      assume j: "state_of s0 j = None \<and> state_of s2 j = Some st'"
      then have "state_of s j \<noteq> None" using cancel_all_frame(2) [OF i1 c, of j] st by simp
      moreover have "state_of s j = state_of s0 j" if "j \<notin> set ids"
        using f that by (simp add: fresh_since_def)
      ultimately have "j \<in> set (ids @ [task_id t])" using j by auto
      from cancel_all_ends [OF i1 c this] j show "is_terminal st'" by simp
    qed
    with r show ?thesis by simp
  next
    case (Inr u)
    have r: "s' = s1" "r = Ok" using sub s1 Inr by (simp_all add: submit_task_def)
    have ok: "submit now s t stg = (s1, ev1, Ok)" using s1 Inr by simp
    from submit_accepted [OF inv q ok] have acc: "state_of s (task_id t) = None"
      "state_of s1 (task_id t) \<noteq> None" "\<And>j. j \<noteq> task_id t \<Longrightarrow> state_of s1 j = state_of s j" by auto
    have "task_id t \<notin> set ids" using f acc(1) by (auto simp: fresh_since_def)
    moreover from this have "state_of s1 i = state_of s i" if "i \<in> set ids" for i
      using that by (intro acc(3)) auto
    ultimately have "fresh_since s0 s1 (ids @ [task_id t])"
      using f acc submit_inv [OF inv q s1] by (auto simp: fresh_since_def)
    with r show ?thesis by simp
  qed
qed

lemma submit_images_facts:
  assumes "fresh_since s0 s ids"
    and "submit_images submit cancel fac dis now trace tok sb n ids imgs k s = (s', evs, k', r)"
  shows "(\<forall>ids' imgs'. r = Inr (ids', imgs') \<longrightarrow> fresh_since s0 s' ids' \<and> length ids' = length ids + n \<and>
      (\<exists>new. ids' = ids @ new \<and> imgs' = imgs @ new)) \<and>
    (\<forall>e. r = Inl e \<longrightarrow> rolled_back s0 s')"
  using assms
proof (induction n arbitrary: s ids imgs k evs)
  case 0
  then have "s' = s" "r = Inr (ids, imgs)" by simp_all
  with 0(1) show ?case by simp
next
  case (Suc n)
  obtain tid k1 where u: "generate_uuid dis k = (tid, k1)" by fastforce
  let ?t = "image_task now tid trace tok sb"
  have t: "task_id ?t = tid" "tstate ?t = Queued" by (simp_all add: image_task_def new_task_def)
  obtain s1 ev1 r1 where s1: "submit_task submit cancel now (ids @ [tid]) s ?t (fac ImageGen) = (s1, ev1, r1)"
    using prod_cases3 by blast
  note step = submit_task_facts [OF Suc.prems(1) t(2), unfolded t(1), OF s1]
  show ?case
  proof (cases r1)
    case (Inl e)
    then have "s' = s1" "r = Inl e" using Suc.prems(2) u s1 by simp_all
    with step Inl show ?thesis by simp
  next
    case (Inr v)
    obtain s2 ev2 k2 r2 where im: "submit_images submit cancel fac dis now trace tok sb n (ids @ [tid])
        (imgs @ [tid]) k1 s1 = (s2, ev2, k2, r2)" by (metis prod_cases4)
    have f1: "fresh_since s0 s1 (ids @ [tid])" using step Inr by simp
    have "s' = s2" "k' = k2" "r = r2" using Suc.prems(2) u s1 Inr im by simp_all
    with im have "submit_images submit cancel fac dis now trace tok sb n (ids @ [tid]) (imgs @ [tid]) k1 s1
        = (s', ev2, k', r)" by simp
    from Suc.IH [OF f1 this] show ?thesis by auto
  qed
qed

lemma submit_chain_facts:
  assumes inv: "inv s"
    and c: "submit_chain submit cancel fac dis now trace tok n k s = (s', evs, k', r)"
  shows "(\<forall>ids. r = Inr ids \<longrightarrow> fresh_since s s' ids \<and> length ids = n + 2) \<and>
    (\<forall>e. r = Inl e \<longrightarrow> rolled_back s s')"
proof -
  have f0: "fresh_since s s []" using inv by (simp add: fresh_since_def)
  obtain sb k1 where u: "generate_uuid dis k = (sb, k1)" by fastforce
  let ?t = "storyboard_task now sb trace tok"
  have t: "task_id ?t = sb" "tstate ?t = Queued" by (simp_all add: storyboard_task_def new_task_def)
  obtain s1 ev1 r1 where s1: "submit_task submit cancel now [sb] s ?t (fac Storyboard) = (s1, ev1, r1)"
    using prod_cases3 by blast
  note st1 = submit_task_facts [OF f0 t(2), unfolded t(1), simplified, OF s1]
  show ?thesis
  proof (cases r1)
    case (Inl e)
    then have "s' = s1" "r = Inl e" using c u s1 by (simp_all add: submit_chain_def)
    with st1 Inl show ?thesis by simp
  next
    case (Inr v)
    with st1 have f1: "fresh_since s s1 [sb]" by simp
    obtain s2 ev2 k2 r2 where im: "submit_images submit cancel fac dis now trace tok sb n [sb] [] k1 s1
        = (s2, ev2, k2, r2)" by (metis prod_cases4)
    note st2 = submit_images_facts [OF f1 im]
    show ?thesis
    proof (cases r2)
      case (Inl e)
      then have "s' = s2" "r = Inl e" using c u s1 Inr im by (simp_all add: submit_chain_def)
      with st2 Inl show ?thesis by simp
    next
      case r2: (Inr p)
      obtain ids imgs where p: "p = (ids, imgs)" by fastforce
      from st2 r2 p have f2: "fresh_since s s2 ids" "length ids = n + 1" by auto
      obtain ct k3 where u3: "generate_uuid dis k2 = (ct, k3)" by fastforce
      let ?t3 = "compose_task now ct trace tok imgs"
      have t3: "task_id ?t3 = ct" "tstate ?t3 = Queued" by (simp_all add: compose_task_def new_task_def)
      obtain s3 ev3 r3 where s3: "submit_task submit cancel now (ids @ [ct]) s2 ?t3 (fac Compose) = (s3, ev3, r3)"
        using prod_cases3 by blast
      note st3 = submit_task_facts [OF f2(1) t3(2), unfolded t3(1), OF s3]
      show ?thesis
      proof (cases r3)
        case (Inl e)
        then have "s' = s3" "r = Inl e" using c u s1 Inr im r2 p u3 s3 by (simp_all add: submit_chain_def)
        with st3 Inl show ?thesis by simp
      next
        case r3: (Inr w)
        then have "s' = s3" "r = Inr (ids @ [ct])"
          using c u s1 Inr im r2 p u3 s3 by (simp_all add: submit_chain_def)
        with st3 r3 f2(2) show ?thesis by simp
      qed
    qed
  qed
qed

text \<open>
  A started workflow has its tasks in the scheduler and is registered last; a failed start leaves
  no live task behind and registers nothing.
\<close>

lemma start_workflow_facts:
  assumes inv: "inv s"
    and st: "start_workflow submit cancel alloc dis now eng s story style n = (eng', s', calls, r)"
  shows "(\<forall>trace. r = Inr trace \<longrightarrow> 0 < n \<and> (\<exists>ws w. active_workflows eng' = ws @ [w] \<and>
            map wf_tasks ws = map wf_tasks (active_workflows eng) \<and> wf_trace w = trace \<and>
            wf_completed w = 0 \<and> wf_total w = i32 (n + 2) \<and>
            length (wf_tasks w) = nat n + 2 \<and> fresh_since s s' (wf_tasks w))) \<and>
    (\<forall>e. r = Inl e \<longrightarrow> rolled_back s s' \<and>
            map wf_tasks (active_workflows eng') = map wf_tasks (active_workflows eng))"
proof -
  obtain trace k0 where u: "generate_uuid dis (rng_pos eng) = (trace, k0)" by fastforce
  have same: "rolled_back s s" using inv by (auto simp: rolled_back_def)
  show ?thesis
  proof (cases "stage_factory eng = None \<or> n \<le> 0")
    case True
    then have "s' = s" "active_workflows eng' = active_workflows eng" "\<exists>e. r = Inl e"
      using st u by (auto simp: start_workflow_def Let_def split: option.splits if_splits)
    with same show ?thesis by auto
  next
    case False
    then obtain fac where fac: "stage_factory eng = Some fac" and n: "0 < n" by auto
    obtain s0 tok where al: "alloc s = (s0, tok)" by fastforce
    have i0: "inv s0" and st0: "state_of s0 = state_of s"
      using alloc_inv [OF inv al] alloc_frame [OF al] by auto
    obtain s1 evs k1 r1 where ch: "submit_chain submit cancel fac dis now trace tok (nat n) k0 s0 = (s1, evs, k1, r1)"
      by (metis prod_cases4)
    obtain eng1 calls1 where dl: "deliver (eng\<lparr>rng_pos := k1\<rparr>) evs = (eng1, calls1)" by fastforce
    have tasks: "map wf_tasks (active_workflows eng1) = map wf_tasks (active_workflows eng)"
      using deliver_tasks [OF dl] by simp
    note cf = submit_chain_facts [OF i0 ch]
    show ?thesis
    proof (cases r1)
      case (Inl e)
      then have "s' = s1" "eng' = eng1" "r = Inl e"
        using st u fac n al ch dl by (simp_all add: start_workflow_def)
      moreover have "rolled_back s s1" using cf Inl by (simp add: rolled_back_def st0)
      ultimately show ?thesis using tasks by simp
    next
      case (Inr ids)
      let ?w = "\<lparr>wf_trace = trace, wf_tasks = ids, wf_completed = 0,
        wf_total = i32 (int (length ids)), wf_failed = False, wf_output = []\<rparr>"
      have eqs: "s' = s1" "active_workflows eng' = active_workflows eng1 @ [?w]" "r = Inr trace"
        using st u fac n al ch dl Inr by (auto simp: start_workflow_def)
      have f: "fresh_since s s1 ids" "length ids = nat n + 2" using cf Inr by (simp_all add: fresh_since_def st0)
      have "i32 (int (length ids)) = i32 (n + 2)" using f(2) n by (simp add: add.commute)
      with f tasks n eqs show ?thesis by auto
    qed
  qed
qed

lemma cancel_workflow_facts:
  assumes inv: "inv s" and c: "cancel_workflow cancel now eng s trace = (eng', s', calls, r)"
  shows "inv s'"
    "r = Ok \<longleftrightarrow> (\<exists>w \<in> set (active_workflows eng). wf_trace w = trace)"
    "r = Ok \<Longrightarrow> \<exists>w \<in> set (active_workflows eng). wf_trace w = trace \<and>
       (\<forall>i \<in> set (wf_tasks w). \<forall>st. state_of s' i = Some st \<longrightarrow> is_terminal st)"
proof -
  have "inv s' \<and> (r = Ok \<longleftrightarrow> (\<exists>w \<in> set (active_workflows eng). wf_trace w = trace)) \<and>
    (r = Ok \<longrightarrow> (\<exists>w \<in> set (active_workflows eng). wf_trace w = trace \<and>
       (\<forall>i \<in> set (wf_tasks w). \<forall>st. state_of s' i = Some st \<longrightarrow> is_terminal st)))"
  proof (cases "List.find (\<lambda>w. wf_trace w = trace) (active_workflows eng)")
    case None
    with c inv show ?thesis by (auto simp: cancel_workflow_def find_None_iff)
  next
    case (Some w)
    then have w: "w \<in> set (active_workflows eng)" "wf_trace w = trace"
      by (auto simp: find_Some_iff)
    obtain s1 evs where a: "cancel_all cancel now s (wf_tasks w) = (s1, evs)" by fastforce
    from c Some a have r: "s' = s1" "r = Ok" by (auto simp: cancel_workflow_def split: prod.splits)
    with w cancel_all_frame(1) [OF inv a] cancel_all_ends [OF inv a] show ?thesis by blast
  qed
  then show "inv s'"
    "r = Ok \<longleftrightarrow> (\<exists>w \<in> set (active_workflows eng). wf_trace w = trace)"
    "r = Ok \<Longrightarrow> \<exists>w \<in> set (active_workflows eng). wf_trace w = trace \<and>
       (\<forall>i \<in> set (wf_tasks w). \<forall>st. state_of s' i = Some st \<longrightarrow> is_terminal st)" by blast+
qed

end

end
