(* ===== verification/Simple_Scheduler.thy ===== *)
theory Simple_Scheduler
  imports Scheduler_Interface
begin

text \<open>
  \<open>core/src/scheduler.cpp\<close>: the single-threaded scheduler. Its entries are a vector searched
  linearly; every operation runs under the mutex except the stage, for which \<open>tick\<close> releases it.
  \<open>tick\<close> is therefore two locked steps, \<open>tick_begin\<close> and \<open>tick_finish\<close>, with an explicit list
  of what happens in between: the progress reports of the stage and the calls of other threads.
\<close>

section \<open>State\<close>

record entry =
  etask :: task_descriptor
  estage :: stage
  elast_outputs :: any_map

record simple =
  entries :: "entry list"
  simple_callbacks :: "callback list"
  simple_heap :: token_heap

definition create_simple_scheduler :: "token_heap \<Rightarrow> simple" where
  "create_simple_scheduler h = \<lparr>entries = [], simple_callbacks = [], simple_heap = h\<rparr>"

abbreviation eid :: "entry \<Rightarrow> string" where "eid e \<equiv> task_id (etask e)"
abbreviation estate :: "entry \<Rightarrow> task_state" where "estate e \<equiv> tstate (etask e)"

fun find_entry :: "entry list \<Rightarrow> string \<Rightarrow> entry option" where
  "find_entry [] i = None"
| "find_entry (e # es) i = (if eid e = i then Some e else find_entry es i)"

text \<open>A write through the iterator that \<open>find_entry\<close> returns.\<close>

fun update_entry :: "string \<Rightarrow> (entry \<Rightarrow> entry) \<Rightarrow> entry list \<Rightarrow> entry list" where
  "update_entry i f [] = []"
| "update_entry i f (e # es) = (if eid e = i then f e # es else e # update_entry i f es)"

definition on_task :: "(task_descriptor \<Rightarrow> task_descriptor) \<Rightarrow> entry \<Rightarrow> entry" where
  "on_task f e = e\<lparr>etask := f (etask e)\<rparr>"

definition simple_on_state_change :: "simple \<Rightarrow> callback \<Rightarrow> simple" where
  "simple_on_state_change s cb = s\<lparr>simple_callbacks := simple_callbacks s @ [cb]\<rparr>"

section \<open>submit, cancel, pause, resume\<close>

fun check_deps :: "entry list \<Rightarrow> string \<Rightarrow> string list \<Rightarrow> task_error option" where
  "check_deps es i [] = None"
| "check_deps es i (d # ds) =
     (if d = i then Some (err_self_dep i)
      else if find_entry es d = None then Some (err_dep_missing d)
      else check_deps es i ds)"

definition simple_submit ::
  "int \<Rightarrow> simple \<Rightarrow> task_descriptor \<Rightarrow> stage option \<Rightarrow> simple sched_result" where
  "simple_submit now s t stg =
     (case stg of
        None \<Rightarrow> (s, [], Inl err_null_stage)
      | Some sg \<Rightarrow>
          if task_id t = [] then (s, [], Inl err_empty_id)
          else if find_entry (entries s) (task_id t) \<noteq> None
               then (s, [], Inl (err_duplicate (task_id t)))
          else (case check_deps (entries s) (task_id t) (deps t) of
                  Some e \<Rightarrow> (s, [], Inl e)
                | None \<Rightarrow>
                    (case (if deps t = [] then transition_to now t Ready else Inr t) of
                       Inl e \<Rightarrow> (s, [], Inl e)
                     | Inr t' \<Rightarrow>
                         (s\<lparr>entries := entries s @
                              [\<lparr>etask = t', estage = sg, elast_outputs = Map.empty\<rparr>]\<rparr>, [], Ok))))"

definition simple_cancel :: "int \<Rightarrow> simple \<Rightarrow> string \<Rightarrow> simple sched_result" where
  "simple_cancel now s i =
     (case find_entry (entries s) i of
        None \<Rightarrow> (s, [], Inl (err_not_found i))
      | Some e \<Rightarrow>
          (let s1 = s\<lparr>simple_heap := cancel_opt (simple_heap s) (cancel_token (etask e))\<rparr>
           in case transition_to now (etask e) Canceled of
                Inl er \<Rightarrow> (s1, [], Inl er)
              | Inr t' \<Rightarrow>
                  (s1\<lparr>entries := update_entry i (on_task (\<lambda>_. t')) (entries s1)\<rparr>,
                   [StateEvent i Canceled (progress t')], Ok)))"

definition simple_pause :: "int \<Rightarrow> simple \<Rightarrow> string \<Rightarrow> simple sched_result" where
  "simple_pause now s i =
     (case find_entry (entries s) i of
        None \<Rightarrow> (s, [], Inl (err_not_found i))
      | Some e \<Rightarrow>
          (case transition_to now (etask e) Paused of
             Inl er \<Rightarrow> (s, [], Inl er)
           | Inr t' \<Rightarrow>
               (s\<lparr>entries := update_entry i (on_task (\<lambda>_. t')) (entries s)\<rparr>,
                [StateEvent i Paused (progress t')], Ok)))"

definition simple_resume :: "int \<Rightarrow> simple \<Rightarrow> string \<Rightarrow> simple sched_result" where
  "simple_resume now s i =
     (case find_entry (entries s) i of
        None \<Rightarrow> (s, [], Inl (err_not_found i))
      | Some e \<Rightarrow>
          (let target = resume_target (etask e)
           in case transition_to now (etask e) target of
                Inl er \<Rightarrow> (s, [], Inl er)
              | Inr t' \<Rightarrow>
                  (s\<lparr>entries := update_entry i (on_task (\<lambda>_. t')) (entries s)\<rparr>,
                   [StateEvent i target (progress t')], Ok)))"

section \<open>tick\<close>

fun all_deps_met :: "entry list \<Rightarrow> string list \<Rightarrow> bool" where
  "all_deps_met es [] = True"
| "all_deps_met es (d # ds) =
     (case find_entry es d of
        None \<Rightarrow> False
      | Some e \<Rightarrow> if estate e \<noteq> Succeeded then False else all_deps_met es ds)"

text \<open>The promotion loop over the vector, \<open>front\<close> being the part already visited.\<close>

fun promote :: "int \<Rightarrow> entry list \<Rightarrow> entry list \<Rightarrow> entry list \<times> state_event list" where
  "promote now front [] = (front, [])"
| "promote now front (e # rest) =
     (if estate e = Queued \<and> deps (etask e) \<noteq> [] \<and>
         all_deps_met (front @ e # rest) (deps (etask e))
      then (case promote now (front @ [on_task (\<lambda>t. transition_ignoring now t Ready) e]) rest of
              (es, evs) \<Rightarrow> (es, StateEvent (eid e) Ready flt_zero # evs))
      else promote now (front @ [e]) rest)"

fun pick_best :: "entry option \<Rightarrow> entry list \<Rightarrow> entry option" where
  "pick_best best [] = best"
| "pick_best best (e # es) =
     (if estate e = Ready
      then (case best of
              None \<Rightarrow> pick_best (Some e) es
            | Some b \<Rightarrow> if priority (etask b) < priority (etask e)
                        then pick_best (Some e) es else pick_best best es)
      else pick_best best es)"

fun collect_inputs :: "entry list \<Rightarrow> string list \<Rightarrow> any_map \<Rightarrow> any_map" where
  "collect_inputs es [] m = m"
| "collect_inputs es (d # ds) m =
     (case find_entry es d of
        None \<Rightarrow> collect_inputs es ds m
      | Some e \<Rightarrow> collect_inputs es ds (m ++ elast_outputs e))"

definition tick_begin :: "int \<Rightarrow> simple \<Rightarrow> simple \<times> state_event list \<times> dispatch option" where
  "tick_begin now s =
     (case promote now [] (entries s) of
        (es, evs) \<Rightarrow>
          (case pick_best None es of
             None \<Rightarrow> (s\<lparr>entries := es\<rparr>, evs, None)
           | Some b \<Rightarrow>
               (let es' = update_entry (eid b) (on_task (\<lambda>t. transition_ignoring now t Running)) es;
                    ctx = new_context\<lparr>ctx_trace_id := trace_id (etask b),
                            ctx_cancel_token := cancel_token (etask b),
                            ctx_inputs := collect_inputs es' (deps (etask b)) Map.empty,
                            ctx_on_progress := True\<rparr>
                in (s\<lparr>entries := es'\<rparr>, evs @ [StateEvent (eid b) Running flt_zero],
                    Some \<lparr>dtask = eid b, dstage = estage b, dctx = ctx\<rparr>))))"

definition simple_progress :: "simple \<Rightarrow> string \<Rightarrow> flt \<Rightarrow> simple \<times> state_event list" where
  "simple_progress s i p =
     (case find_entry (entries s) i of
        None \<Rightarrow> (s, [])
      | Some e \<Rightarrow> (s\<lparr>entries := update_entry i (on_task (\<lambda>t. set_progress t p)) (entries s)\<rparr>,
                   [StateEvent i Running p]))"

definition tick_finish ::
  "int \<Rightarrow> simple \<Rightarrow> string \<Rightarrow> any_map \<Rightarrow> void_result \<Rightarrow> simple \<times> state_event list" where
  "tick_finish now s i outs res =
     (case find_entry (entries s) i of
        None \<Rightarrow> (s, [])
      | Some e \<Rightarrow>
          (case res of
             Inr _ \<Rightarrow>
               (s\<lparr>entries := update_entry i
                    (\<lambda>e. e\<lparr>etask := set_progress (transition_ignoring now (etask e) Succeeded) flt_one,
                           elast_outputs := outs\<rparr>) (entries s)\<rparr>,
                [StateEvent i Succeeded flt_one])
           | Inl err \<Rightarrow>
               (let target = (if category err = Cat_Canceled then Canceled else Failed);
                    t' = transition_ignoring now ((etask e)\<lparr>terror := Some err\<rparr>) target
                in (s\<lparr>entries := update_entry i (on_task (\<lambda>_. t')) (entries s)\<rparr>,
                    [StateEvent i target (progress t')]))))"

text \<open>What can happen while the stage runs with the mutex released.\<close>

datatype sim_action =
    Act_progress flt
  | Act_submit task_descriptor "stage option"
  | Act_cancel string
  | Act_pause string
  | Act_resume string

fun run_action :: "int \<Rightarrow> string \<Rightarrow> simple \<Rightarrow> sim_action \<Rightarrow> simple \<times> state_event list" where
  "run_action now i s (Act_progress p) = simple_progress s i p"
| "run_action now i s (Act_submit t stg) = (case simple_submit now s t stg of (s', evs, r) \<Rightarrow> (s', evs))"
| "run_action now i s (Act_cancel j) = (case simple_cancel now s j of (s', evs, r) \<Rightarrow> (s', evs))"
| "run_action now i s (Act_pause j) = (case simple_pause now s j of (s', evs, r) \<Rightarrow> (s', evs))"
| "run_action now i s (Act_resume j) = (case simple_resume now s j of (s', evs, r) \<Rightarrow> (s', evs))"

fun run_actions :: "int \<Rightarrow> string \<Rightarrow> simple \<Rightarrow> sim_action list \<Rightarrow> simple \<times> state_event list" where
  "run_actions now i s [] = (s, [])"
| "run_actions now i s (a # as) =
     (case run_action now i s a of
        (s1, ev1) \<Rightarrow> (case run_actions now i s1 as of (s2, ev2) \<Rightarrow> (s2, ev1 @ ev2)))"

text \<open>
  A whole \<open>tick\<close>. The stage is given by its behaviour on the dispatch it receives: the actions
  during its run, its outputs and its result.
\<close>

definition simple_tick ::
  "int \<Rightarrow> (dispatch \<Rightarrow> sim_action list \<times> any_map \<times> void_result) \<Rightarrow> simple \<Rightarrow> simple \<times> state_event list" where
  "simple_tick now behave s =
     (case tick_begin now s of
        (s1, ev1, None) \<Rightarrow> (s1, ev1)
      | (s1, ev1, Some d) \<Rightarrow>
          (case behave d of
             (as, outs, res) \<Rightarrow>
               (case run_actions now (dtask d) s1 as of
                  (s2, ev2) \<Rightarrow>
                    (case tick_finish now s2 (dtask d) outs res of
                       (s3, ev3) \<Rightarrow> (s3, ev1 @ ev2 @ ev3)))))"

definition simple_has_pending :: "simple \<Rightarrow> bool" where
  "simple_has_pending s = list_ex (\<lambda>e. \<not> is_terminal (estate e)) (entries s)"

definition simple_state_of :: "simple \<Rightarrow> string \<Rightarrow> task_state option" where
  "simple_state_of s i = map_option estate (find_entry (entries s) i)"

section \<open>Searching and updating the vector\<close>

lemma find_entry_Some: "find_entry es i = Some e \<Longrightarrow> e \<in> set es \<and> eid e = i"
  by (induction es) (auto split: if_splits)

lemma find_entry_None: "find_entry es i = None \<longleftrightarrow> i \<notin> eid ` set es"
  by (induction es) auto

lemma find_entry_in: "distinct (map eid es) \<Longrightarrow> e \<in> set es \<Longrightarrow> find_entry es (eid e) = Some e"
  by (induction es) (auto simp: image_iff)

lemma find_entry_append:
  "find_entry (xs @ ys) i = (case find_entry xs i of None \<Rightarrow> find_entry ys i | Some e \<Rightarrow> Some e)"
  by (induction xs) auto

lemma find_entry_update:
  "(\<And>e. eid (f e) = eid e) \<Longrightarrow>
     find_entry (update_entry i f es) j = (if j = i then map_option f (find_entry es i) else find_entry es j)"
  by (induction es) auto

lemma find_entry_update_same:
  "find_entry es i = Some e \<Longrightarrow> eid (f e) = i \<Longrightarrow>
     find_entry (update_entry i f es) j = (if j = i then Some (f e) else find_entry es j)"
  by (induction es) auto

lemma map_eid_update:
  "find_entry es i = Some e \<Longrightarrow> eid (f e) = i \<Longrightarrow> map eid (update_entry i f es) = map eid es"
  by (induction es) auto

lemma update_entry_cong:
  "find_entry es i = Some e \<Longrightarrow> f e = g e \<Longrightarrow> update_entry i f es = update_entry i g es"
  by (induction es) auto

lemma update_entry_notin: "find_entry es i = None \<Longrightarrow> update_entry i f es = es"
  by (induction es) (auto split: if_splits)

lemma on_task_fields [simp]:
  "etask (on_task f e) = f (etask e)" "estage (on_task f e) = estage e"
  "elast_outputs (on_task f e) = elast_outputs e"
  by (simp_all add: on_task_def)

lemma set_update_entry:
  "x \<in> set (update_entry i f es) \<Longrightarrow> x \<in> set es \<or> (\<exists>e. find_entry es i = Some e \<and> x = f e)"
  by (induction es) (auto split: if_splits)

lemma simple_state_of_iff:
  "simple_state_of s i = Some st \<longleftrightarrow> (\<exists>e. find_entry (entries s) i = Some e \<and> estate e = st)"
  by (auto simp: simple_state_of_def)

lemma check_deps_None:
  "check_deps es i ds = None \<longleftrightarrow> i \<notin> set ds \<and> (\<forall>d \<in> set ds. find_entry es d \<noteq> None)"
  by (induction ds) auto

lemma all_deps_met_iff:
  "all_deps_met es ds \<longleftrightarrow> (\<forall>d \<in> set ds. \<exists>e. find_entry es d = Some e \<and> estate e = Succeeded)"
  by (induction ds) (auto split: option.splits)

section \<open>The contract of the single-threaded scheduler\<close>

definition simple_inv :: "simple \<Rightarrow> bool" where
  "simple_inv s \<longleftrightarrow> distinct (map eid (entries s))"

lemma simple_submit_Ok:
  assumes "simple_submit now s t stg = (s', evs, Ok)"
  shows "\<exists>sg t'. stg = Some sg \<and> task_id t \<noteq> [] \<and> find_entry (entries s) (task_id t) = None \<and>
     (\<forall>d \<in> set (deps t). find_entry (entries s) d \<noteq> None) \<and> task_id t \<notin> set (deps t) \<and>
     t' = (if deps t = [] then apply_transition now t Ready else t) \<and>
     (deps t = [] \<longrightarrow> legal (tstate t) Ready) \<and> evs = [] \<and>
     s' = s\<lparr>entries := entries s @ [\<lparr>etask = t', estage = sg, elast_outputs = Map.empty\<rparr>]\<rparr>"
proof -
  from assms obtain sg where sg: "stg = Some sg"
    by (cases stg) (simp_all add: simple_submit_def)
  from assms sg have ne: "task_id t \<noteq> []"
    by (cases "task_id t = []") (simp_all add: simple_submit_def)
  from assms sg ne have fresh: "find_entry (entries s) (task_id t) = None"
    by (cases "find_entry (entries s) (task_id t)") (simp_all add: simple_submit_def)
  from assms sg ne fresh have chk: "check_deps (entries s) (task_id t) (deps t) = None"
    by (cases "check_deps (entries s) (task_id t) (deps t)") (simp_all add: simple_submit_def)
  let ?t' = "if deps t = [] then apply_transition now t Ready else t"
  from assms sg ne fresh chk have leg: "deps t = [] \<longrightarrow> legal (tstate t) Ready"
    by (cases "legal (tstate t) Ready") (auto simp: simple_submit_def)
  with assms sg ne fresh chk have "evs = []"
    and "s' = s\<lparr>entries := entries s @ [\<lparr>etask = ?t', estage = sg, elast_outputs = Map.empty\<rparr>]\<rparr>"
    by (simp_all add: simple_submit_def split: if_splits)
  with sg ne fresh chk leg show ?thesis by (simp add: check_deps_None)
qed

lemma simple_submit_Err:
  "simple_submit now s t stg = (s', evs, Inl e) \<Longrightarrow> s' = s \<and> evs = []"
  by (auto simp: simple_submit_def split: option.splits if_splits sum.splits)

lemma simple_submit_inv:
  assumes "simple_inv s" "simple_submit now s t stg = (s', evs, r)"
  shows "simple_inv s'"
proof (cases r)
  case (Inl e)
  with assms simple_submit_Err show ?thesis by blast
next
  case (Inr u)
  with assms(2) have "simple_submit now s t stg = (s', evs, Ok)" by simp
  from simple_submit_Ok [OF this] assms(1) show ?thesis
    by (auto simp: simple_inv_def find_entry_None)
qed

interpretation simple_submission: submission simple_state_of simple_inv simple_submit
proof unfold_locales
  fix now s t stg s' evs r
  assume "simple_inv s" "simple_submit now s t stg = (s', evs, r)"
  then show "simple_inv s'" by (rule simple_submit_inv)
next
  fix now s t stg s' evs e
  assume "simple_submit now s t stg = (s', evs, Inl e)"
  then show "simple_state_of s' = simple_state_of s \<and> evs = []"
    using simple_submit_Err by blast
next
  fix now s t stg s' evs
  assume "simple_inv s" and q: "tstate t = Queued"
    and "simple_submit now s t stg = (s', evs, Ok)"
  from simple_submit_Ok [OF this(3)] q
  show "simple_state_of s (task_id t) = None \<and>
        (\<exists>st. simple_state_of s' (task_id t) = Some st \<and> st \<in> {Queued, Ready, Canceled}) \<and>
        (\<forall>j. j \<noteq> task_id t \<longrightarrow> simple_state_of s' j = simple_state_of s j)"
    by (auto simp: simple_state_of_def find_entry_append split: option.splits)
next
  fix now s t stg s' evs d
  assume "simple_submit now s t stg = (s', evs, Ok)" "d \<in> set (deps t)"
  then show "simple_state_of s d \<noteq> None"
    using simple_submit_Ok by (fastforce simp: simple_state_of_def)
qed

lemma simple_cancel_cases:
  assumes "simple_cancel now s i = (s', evs, r)"
  obtains "find_entry (entries s) i = None" "s' = s" "evs = []" "r = Inl (err_not_found i)"
  | e where "find_entry (entries s) i = Some e" "is_terminal (estate e)" "evs = []"
      "entries s' = entries s" "is_err r"
  | e where "find_entry (entries s) i = Some e" "\<not> is_terminal (estate e)" "r = Ok"
      "evs = [StateEvent i Canceled (progress (etask e))]"
      "entries s' = update_entry i (on_task (\<lambda>_. apply_transition now (etask e) Canceled)) (entries s)"
proof (cases "find_entry (entries s) i")
  case None
  with assms show ?thesis by (intro that(1)) (simp_all add: simple_cancel_def)
next
  case (Some e)
  show ?thesis
  proof (cases "is_terminal (estate e)")
    case True
    with assms Some show ?thesis
      by (intro that(2) [of e])
         (auto simp: simple_cancel_def Let_def transition_to_def legal_cancel)
  next
    case False
    then have "tstate (etask e) \<noteq> Failed" by auto
    with False assms Some show ?thesis
      by (intro that(3) [of e])
         (auto simp: simple_cancel_def Let_def transition_to_def legal_cancel)
  qed
qed

lemma simple_cancel_inv:
  assumes "simple_inv s" "simple_cancel now s i = (s', evs, r)"
  shows "simple_inv s'"
  using assms(2)
proof (cases rule: simple_cancel_cases)
  case (3 e)
  then have "eid (on_task (\<lambda>_. apply_transition now (etask e) Canceled) e) = i"
    using find_entry_Some by fastforce
  with 3 assms(1) show ?thesis by (simp add: simple_inv_def map_eid_update)
qed (use assms(1) in \<open>auto simp: simple_inv_def\<close>)

lemma simple_cancel_state:
  assumes "simple_cancel now s i = (s', evs, r)"
  shows "simple_state_of s' j =
    (if j = i \<and> (\<exists>st. simple_state_of s i = Some st \<and> \<not> is_terminal st) then Some Canceled
     else simple_state_of s j)"
  using assms
proof (cases rule: simple_cancel_cases)
  case (3 e)
  then have "eid (on_task (\<lambda>_. apply_transition now (etask e) Canceled) e) = i"
    using find_entry_Some by fastforce
  with 3 show ?thesis
    by (simp add: simple_state_of_def find_entry_update_same)
qed (auto simp: simple_state_of_def)

lemma simple_pending_iff:
  assumes "simple_inv s"
  shows "simple_has_pending s \<longleftrightarrow> (\<exists>i st. simple_state_of s i = Some st \<and> \<not> is_terminal st)"
proof
  assume "simple_has_pending s"
  then obtain e where "e \<in> set (entries s)" "\<not> is_terminal (estate e)"
    by (auto simp: simple_has_pending_def list_ex_iff)
  with assms have "simple_state_of s (eid e) = Some (estate e)"
    by (simp add: simple_state_of_def simple_inv_def find_entry_in)
  with \<open>\<not> is_terminal (estate e)\<close> show "\<exists>i st. simple_state_of s i = Some st \<and> \<not> is_terminal st"
    by blast
next
  assume "\<exists>i st. simple_state_of s i = Some st \<and> \<not> is_terminal st"
  then obtain i e where "find_entry (entries s) i = Some e" "\<not> is_terminal (estate e)"
    by (auto simp: simple_state_of_iff)
  then show "simple_has_pending s"
    using find_entry_Some by (fastforce simp: simple_has_pending_def list_ex_iff)
qed

interpretation simple_sched: scheduler simple_state_of simple_inv simple_submit simple_cancel
  simple_has_pending
proof unfold_locales
  fix now s i s' evs r
  assume "simple_inv s" "simple_cancel now s i = (s', evs, r)"
  then show "simple_inv s'" by (rule simple_cancel_inv)
next
  fix now s i s' evs r
  assume "simple_state_of s i = None" "simple_cancel now s i = (s', evs, r)"
  then show "simple_state_of s' = simple_state_of s \<and> evs = [] \<and> is_err r"
    by (auto simp: simple_cancel_def simple_state_of_def)
next
  fix now s i st s' evs r
  assume st: "simple_state_of s i = Some st" "\<not> is_terminal st"
    and c: "simple_cancel now s i = (s', evs, r)"
  from c st have "r = Ok"
    by (cases rule: simple_cancel_cases) (auto simp: simple_state_of_def)
  with st simple_cancel_state [OF c, of i] show "r = Ok \<and> simple_state_of s' i = Some Canceled"
    by simp
next
  fix now s i s' evs r j
  assume "simple_cancel now s i = (s', evs, r)"
  from simple_cancel_state [OF this, of j]
  show "simple_state_of s' j = simple_state_of s j \<or>
      (\<exists>st. simple_state_of s j = Some st \<and> \<not> is_terminal st \<and> simple_state_of s' j = Some Canceled)"
    by auto
next
  fix s
  assume "simple_inv s"
  then show "simple_has_pending s \<longleftrightarrow> (\<exists>i st. simple_state_of s i = Some st \<and> \<not> is_terminal st)"
    by (rule simple_pending_iff)
qed

end
