(* ===== verification/Simple_Safety.thy ===== *)
theory Simple_Safety
  imports Simple_Scheduler
begin

text \<open>
  What every run of the single-threaded scheduler keeps: unique task ids, well-formed descriptors,
  known dependencies, and the dependency order itself. The steps are the locked operations, with
  \<open>tick\<close> in its two halves and the stage's progress reports between them, so that the calls of
  other threads during a stage are runs of the same relation.
\<close>

section \<open>Promotion and selection in closed form\<close>

definition promotable :: "entry list \<Rightarrow> entry \<Rightarrow> bool" where
  "promotable es e \<longleftrightarrow> estate e = Queued \<and> deps (etask e) \<noteq> [] \<and> all_deps_met es (deps (etask e))"

definition promote_entry :: "int \<Rightarrow> entry \<Rightarrow> entry" where
  "promote_entry now e = on_task (\<lambda>t. apply_transition now t Ready) e"

definition promoted :: "int \<Rightarrow> entry list \<Rightarrow> entry \<Rightarrow> entry" where
  "promoted now es e = (if promotable es e then promote_entry now e else e)"

lemma promote_entry_fields [simp]:
  "eid (promote_entry now e) = eid e" "deps (etask (promote_entry now e)) = deps (etask e)"
  "estate (promote_entry now e) = Ready" "elast_outputs (promote_entry now e) = elast_outputs e"
  "estage (promote_entry now e) = estage e"
  "priority (etask (promote_entry now e)) = priority (etask e)"
  by (simp_all add: promote_entry_def)

lemma all_deps_met_promoted:
  assumes "estate e = Queued"
  shows "all_deps_met (front @ promote_entry now e # rest) ds = all_deps_met (front @ e # rest) ds"
  using assms by (auto simp: all_deps_met_iff find_entry_append split: option.splits)

lemma promote_eq:
  "promote now front rest =
     (front @ map (promoted now (front @ rest)) rest,
      map (\<lambda>e. StateEvent (eid e) Ready flt_zero) (filter (promotable (front @ rest)) rest))"
proof (induction now front rest rule: promote.induct)
  case (1 now front)
  then show ?case by simp
next
  case (2 now front e rest)
  show ?case
  proof (cases "promotable (front @ e # rest) e")
    case True
    then have q: "estate e = Queued" and c: "estate e = Queued \<and> deps (etask e) \<noteq> [] \<and>
        all_deps_met (front @ e # rest) (deps (etask e))" by (auto simp: promotable_def)
    have step: "on_task (\<lambda>t. transition_ignoring now t Ready) e = promote_entry now e"
      using q by (simp add: promote_entry_def on_task_def transition_ignoring_eq)
    have same: "promotable (front @ promote_entry now e # rest) = promotable (front @ e # rest)"
      using all_deps_met_promoted [OF q] by (simp add: promotable_def fun_eq_iff)
    show ?thesis
      using 2(1) [OF c] True c same step by (simp add: promoted_def fun_eq_iff cong: map_cong)
  next
    case False
    then have c: "\<not> (estate e = Queued \<and> deps (etask e) \<noteq> [] \<and>
        all_deps_met (front @ e # rest) (deps (etask e)))" by (auto simp: promotable_def)
    show ?thesis unfolding promote.simps if_not_P [OF c] using 2(2) [OF c] False by (simp add: promoted_def)
  qed
qed

definition more_urgent :: "entry \<Rightarrow> entry \<Rightarrow> bool" where
  "more_urgent a b \<longleftrightarrow> priority (etask b) < priority (etask a)"

interpretation urgency: strict_weak more_urgent
  by unfold_locales (auto simp: more_urgent_def)

lemma pick_best_fold:
  "pick_best best es = fold_best more_urgent best (filter (\<lambda>e. estate e = Ready) es)"
  by (induction best es rule: pick_best.induct) (auto simp: more_urgent_def split: option.splits)

section \<open>Steps\<close>

inductive simple_step :: "simple \<Rightarrow> state_event list \<Rightarrow> simple \<Rightarrow> bool" where
  submit: "fresh_task t \<Longrightarrow> simple_submit now s t stg = (s', evs, r) \<Longrightarrow> simple_step s evs s'"
| cancel: "simple_cancel now s i = (s', evs, r) \<Longrightarrow> simple_step s evs s'"
| pause: "simple_pause now s i = (s', evs, r) \<Longrightarrow> simple_step s evs s'"
| resume: "simple_resume now s i = (s', evs, r) \<Longrightarrow> simple_step s evs s'"
| begin_tick: "tick_begin now s = (s', evs, d) \<Longrightarrow> simple_step s evs s'"
| stage_progress: "simple_progress s i p = (s', evs) \<Longrightarrow> simple_step s evs s'"
| finish_tick: "tick_finish now s i outs res = (s', evs) \<Longrightarrow> simple_step s evs s'"
| register: "simple_step s [] (simple_on_state_change s cb)"

inductive simple_reach :: "simple \<Rightarrow> bool" where
  start: "simple_reach (create_simple_scheduler h)"
| step: "simple_reach s \<Longrightarrow> simple_step s evs s' \<Longrightarrow> simple_reach s'"

section \<open>Dependency safety\<close>

definition simple_safe :: "simple \<Rightarrow> bool" where
  "simple_safe s \<longleftrightarrow> simple_inv s \<and>
     (\<forall>e \<in> set (entries s). task_wf (etask e) \<and>
        (\<forall>d \<in> set (deps (etask e)). find_entry (entries s) d \<noteq> None) \<and>
        (started (etask e) \<longrightarrow> all_deps_met (entries s) (deps (etask e))))"

text \<open>
  One descriptor is rewritten: the id and the dependencies stay, a success is not taken back, and
  the new descriptor is well-formed and started only with its dependencies met.
\<close>

definition good_update :: "entry list \<Rightarrow> entry \<Rightarrow> entry \<Rightarrow> bool" where
  "good_update es e e' \<longleftrightarrow> eid e' = eid e \<and> deps (etask e') = deps (etask e) \<and>
     (estate e = Succeeded \<longrightarrow> estate e' = Succeeded) \<and> task_wf (etask e') \<and>
     (started (etask e') \<longrightarrow> all_deps_met es (deps (etask e)))"

lemma all_deps_met_mono:
  assumes "all_deps_met es ds"
    and "\<And>d e. find_entry es d = Some e \<Longrightarrow> estate e = Succeeded \<Longrightarrow>
           \<exists>e'. find_entry es' d = Some e' \<and> estate e' = Succeeded"
  shows "all_deps_met es' ds"
  using assms by (fastforce simp: all_deps_met_iff)

lemma simple_safe_update:
  assumes safe: "simple_safe s" and e: "find_entry (entries s) i = Some e"
    and good: "good_update (entries s) e (f e)"
  shows "simple_safe (s\<lparr>entries := update_entry i f (entries s)\<rparr>)"
proof -
  let ?es = "entries s" and ?es' = "update_entry i f (entries s)"
  have i: "eid e = i" and e_in: "e \<in> set ?es" using find_entry_Some [OF e] by auto
  with good have fi: "eid (f e) = i" by (simp add: good_update_def)
  have lookup: "find_entry ?es' j = (if j = i then Some (f e) else find_entry ?es j)" for j
    using e fi by (rule find_entry_update_same)
  have met: "all_deps_met ?es' ds" if "all_deps_met ?es ds" for ds
    using that e good by (elim all_deps_met_mono) (auto simp: lookup good_update_def)
  show ?thesis
    unfolding simple_safe_def
  proof (intro conjI ballI)
    show "simple_inv (s\<lparr>entries := ?es'\<rparr>)"
      using safe by (simp add: simple_safe_def simple_inv_def map_eid_update [where f = f, OF e fi])
    fix x
    assume "x \<in> set (entries (s\<lparr>entries := ?es'\<rparr>))"
    then consider "x \<in> set ?es" | "x = f e"
      using set_update_entry [of x i f ?es] e by auto
    then have "task_wf (etask x) \<and> (\<forall>d \<in> set (deps (etask x)). find_entry ?es d \<noteq> None) \<and>
        (started (etask x) \<longrightarrow> all_deps_met ?es (deps (etask x)))"
      using safe good e_in by cases (auto simp: simple_safe_def good_update_def)
    then show "task_wf (etask x)"
      and "started (etask x) \<longrightarrow> all_deps_met (entries (s\<lparr>entries := ?es'\<rparr>)) (deps (etask x))"
      and "\<And>d. d \<in> set (deps (etask x)) \<Longrightarrow> find_entry (entries (s\<lparr>entries := ?es'\<rparr>)) d \<noteq> None"
      using met by (auto simp: lookup)
  qed
qed

lemma simple_safe_transition:
  assumes safe: "simple_safe s" and e: "find_entry (entries s) i = Some e"
    and leg: "legal (estate e) n"
    and start: "started (apply_transition now (etask e) n) \<Longrightarrow> started (etask e)"
  shows "simple_safe (s\<lparr>entries := update_entry i (on_task (\<lambda>_. apply_transition now (etask e) n)) (entries s)\<rparr>)"
proof (rule simple_safe_update [OF safe e])
  have "e \<in> set (entries s)" using find_entry_Some [OF e] by simp
  with safe have "task_wf (etask e)"
    and "started (etask e) \<longrightarrow> all_deps_met (entries s) (deps (etask e))"
    by (auto simp: simple_safe_def)
  with leg start show "good_update (entries s) e (on_task (\<lambda>_. apply_transition now (etask e) n) e)"
    by (auto simp: good_update_def intro: task_wf_apply)
qed

lemma simple_safe_entry:
  assumes "simple_safe s" "find_entry (entries s) i = Some e"
  shows "task_wf (etask e)" "started (etask e) \<longrightarrow> all_deps_met (entries s) (deps (etask e))"
  using assms find_entry_Some [OF assms(2)] by (auto simp: simple_safe_def)

lemma simple_safe_heap [simp]: "simple_safe (s\<lparr>simple_heap := h\<rparr>) = simple_safe s"
  by (simp add: simple_safe_def simple_inv_def)

lemma simple_safe_callbacks [simp]: "simple_safe (s\<lparr>simple_callbacks := c\<rparr>) = simple_safe s"
  by (simp add: simple_safe_def simple_inv_def)

subsection \<open>Each operation\<close>

lemma simple_safe_submit:
  assumes safe: "simple_safe s" and fresh: "fresh_task t"
    and sub: "simple_submit now s t stg = (s', evs, r)"
  shows "simple_safe s'"
proof (cases r)
  case (Inl e)
  with sub simple_submit_Err safe show ?thesis by blast
next
  case (Inr u)
  with sub have "simple_submit now s t stg = (s', evs, Ok)" by simp
  from simple_submit_Ok [OF this] obtain sg t' where
    new: "find_entry (entries s) (task_id t) = None"
      "\<forall>d \<in> set (deps t). find_entry (entries s) d \<noteq> None"
      "t' = (if deps t = [] then apply_transition now t Ready else t)"
      "s' = s\<lparr>entries := entries s @ [\<lparr>etask = t', estage = sg, elast_outputs = Map.empty\<rparr>]\<rparr>"
    by blast
  let ?ne = "\<lparr>etask = t', estage = sg, elast_outputs = Map.empty\<rparr>"
  have t': "task_wf t'" "deps t' = deps t" "task_id t' = task_id t" "started t' \<longrightarrow> deps t' = []"
    using fresh by (auto simp: new(3) fresh_task_def started_def intro!: task_wf_apply)
  have lookup: "find_entry (entries s') d = Some e" if "find_entry (entries s) d = Some e" for d e
    using that by (simp add: new(4) find_entry_append)
  have met: "all_deps_met (entries s') ds" if "all_deps_met (entries s) ds" for ds
    using that by (rule all_deps_met_mono) (blast intro: lookup)
  show ?thesis
    unfolding simple_safe_def
  proof (intro conjI ballI)
    show "simple_inv s'"
      using safe sub simple_submit_inv by (auto simp: simple_safe_def)
    fix x
    assume "x \<in> set (entries s')"
    then consider "x \<in> set (entries s)" | "x = ?ne" by (auto simp: new(4))
    then have x: "task_wf (etask x) \<and> (\<forall>d \<in> set (deps (etask x)). find_entry (entries s) d \<noteq> None) \<and>
        (started (etask x) \<longrightarrow> all_deps_met (entries s) (deps (etask x)))"
      using safe t' new(2) by cases (auto simp: simple_safe_def)
    then show "task_wf (etask x)" and "started (etask x) \<longrightarrow> all_deps_met (entries s') (deps (etask x))"
      using met by auto
    fix d
    assume "d \<in> set (deps (etask x))"
    with x lookup show "find_entry (entries s') d \<noteq> None" by fastforce
  qed
qed

lemma simple_safe_cancel:
  assumes safe: "simple_safe s" and "simple_cancel now s i = (s', evs, r)"
  shows "simple_safe s'"
  using assms(2)
proof (cases rule: simple_cancel_cases)
  case (3 e)
  have "simple_safe (s\<lparr>entries := update_entry i (on_task (\<lambda>_. apply_transition now (etask e) Canceled)) (entries s)\<rparr>)"
    using 3 by (intro simple_safe_transition [OF safe]) (auto simp: legal_cancel started_def)
  with 3 show ?thesis by (simp add: simple_safe_def simple_inv_def)
qed (use safe in \<open>simp_all add: simple_safe_def simple_inv_def\<close>)

lemma simple_safe_pause:
  assumes safe: "simple_safe s" and p: "simple_pause now s i = (s', evs, r)"
  shows "simple_safe s'"
proof (cases "\<exists>e. find_entry (entries s) i = Some e \<and> legal (estate e) Paused")
  case True
  then obtain e where e: "find_entry (entries s) i = Some e" "legal (estate e) Paused" by blast
  with p have s': "s' = s\<lparr>entries := update_entry i (on_task (\<lambda>_. apply_transition now (etask e) Paused)) (entries s)\<rparr>"
    by (auto simp: simple_pause_def)
  have "estate e \<noteq> Failed" using e by auto
  with e show ?thesis
    unfolding s' by (intro simple_safe_transition [OF safe])
      (auto simp: started_def apply_transition_paused_from)
next
  case False
  with p safe show ?thesis by (auto simp: simple_pause_def split: option.splits)
qed

lemma simple_safe_resume:
  assumes safe: "simple_safe s" and p: "simple_resume now s i = (s', evs, r)"
  shows "simple_safe s'"
proof (cases "\<exists>e. find_entry (entries s) i = Some e \<and> legal (estate e) (resume_target (etask e))")
  case True
  then obtain e where e: "find_entry (entries s) i = Some e" "legal (estate e) (resume_target (etask e))"
    by blast
  with p have s': "s' = s\<lparr>entries := update_entry i
      (on_task (\<lambda>_. apply_transition now (etask e) (resume_target (etask e)))) (entries s)\<rparr>"
    by (auto simp: simple_resume_def Let_def)
  have "started (etask e)" if "started (apply_transition now (etask e) (resume_target (etask e)))"
    using that e(2) simple_safe_entry(1) [OF safe e(1)]
    by (cases "estate e") (auto simp: started_def task_wf_def resume_target_def)
  with e show ?thesis
    unfolding s' by (intro simple_safe_transition [OF safe]) auto
next
  case False
  with p safe show ?thesis
    by (auto simp: simple_resume_def Let_def split: option.splits)
qed

lemma simple_safe_progress:
  assumes safe: "simple_safe s" and p: "simple_progress s i p = (s', evs)"
  shows "simple_safe s'"
proof (cases "find_entry (entries s) i")
  case None
  with p safe show ?thesis by (simp add: simple_progress_def)
next
  case (Some e)
  then have "good_update (entries s) e (on_task (\<lambda>t. set_progress t p) e)"
    using simple_safe_entry [OF safe Some] by (simp add: good_update_def started_def)
  with p Some safe show ?thesis
    by (auto simp: simple_progress_def intro: simple_safe_update)
qed

lemma promoted_fields [simp]:
  "eid (promoted now es e) = eid e" "deps (etask (promoted now es e)) = deps (etask e)"
  "elast_outputs (promoted now es e) = elast_outputs e" "estage (promoted now es e) = estage e"
  "priority (etask (promoted now es e)) = priority (etask e)"
  by (simp_all add: promoted_def)

lemma promoted_state: "estate (promoted now es e) = (if promotable es e then Ready else estate e)"
  by (simp add: promoted_def)

lemma find_entry_map:
  "(\<And>e. eid (g e) = eid e) \<Longrightarrow> find_entry (map g xs) d = map_option g (find_entry xs d)"
  by (induction xs) auto

lemma simple_safe_promote:
  assumes safe: "simple_safe s"
  shows "simple_safe (s\<lparr>entries := fst (promote now [] (entries s))\<rparr>)"
proof -
  let ?es = "entries s"
  let ?g = "promoted now ?es"
  have es': "fst (promote now [] ?es) = map ?g ?es" by (simp add: promote_eq)
  have lookup: "find_entry (map ?g ?es) d = map_option ?g (find_entry ?es d)" for d
    by (rule find_entry_map) simp
  have met: "all_deps_met (map ?g ?es) ds" if "all_deps_met ?es ds" for ds
    using that
    by (rule all_deps_met_mono) (auto simp: lookup promoted_state promotable_def)
  have each: "task_wf (etask (?g e)) \<and> (\<forall>d \<in> set (deps (etask e)). find_entry (map ?g ?es) d \<noteq> None) \<and>
      (started (etask (?g e)) \<longrightarrow> all_deps_met (map ?g ?es) (deps (etask e)))"
    if "e \<in> set ?es" for e
  proof -
    from safe that have e: "task_wf (etask e)" "\<forall>d \<in> set (deps (etask e)). find_entry ?es d \<noteq> None"
      "started (etask e) \<longrightarrow> all_deps_met ?es (deps (etask e))" by (auto simp: simple_safe_def)
    have "task_wf (etask (?g e))"
      using e(1) by (auto simp: promoted_def promotable_def promote_entry_def intro: task_wf_apply)
    moreover have "all_deps_met ?es (deps (etask e))" if "started (etask (?g e))"
      using that e(3) by (cases "promotable ?es e") (auto simp: promoted_def promotable_def)
    ultimately show ?thesis using e(2) met by (auto simp: lookup)
  qed
  have "simple_inv (s\<lparr>entries := map ?g ?es\<rparr>)"
    using safe by (simp add: simple_safe_def simple_inv_def comp_def)
  then show ?thesis
    unfolding es' simple_safe_def using each by auto
qed

lemma simple_safe_begin:
  assumes safe: "simple_safe s" and t: "tick_begin now s = (s', evs, d)"
  shows "simple_safe s'"
proof -
  let ?es = "fst (promote now [] (entries s))"
  let ?s1 = "s\<lparr>entries := ?es\<rparr>"
  have s1: "simple_safe ?s1" using safe by (rule simple_safe_promote)
  show ?thesis
  proof (cases "pick_best None ?es")
    case None
    with t s1 show ?thesis by (auto simp: tick_begin_def split: prod.splits)
  next
    case (Some b)
    then have b: "b \<in> set ?es" "estate b = Ready"
      using urgency.fold_best_in [of "filter (\<lambda>e. estate e = Ready) ?es" b]
      by (auto simp: pick_best_fold)
    have find: "find_entry (entries ?s1) (eid b) = Some b"
      using s1 b(1) by (simp add: simple_safe_def simple_inv_def find_entry_in)
    have upd: "update_entry (eid b) (on_task (\<lambda>t. transition_ignoring now t Running)) ?es =
        update_entry (eid b) (on_task (\<lambda>_. apply_transition now (etask b) Running)) ?es"
      using find b(2) by (intro update_entry_cong) (auto simp: on_task_def transition_ignoring_eq)
    have "simple_safe (?s1\<lparr>entries := update_entry (eid b)
        (on_task (\<lambda>_. apply_transition now (etask b) Running)) (entries ?s1)\<rparr>)"
      using b(2) by (intro simple_safe_transition [OF s1 find]) (auto simp: started_def)
    with t Some upd show ?thesis
      by (auto simp: tick_begin_def Let_def split: prod.splits)
  qed
qed


lemma simple_safe_finish:
  assumes safe: "simple_safe s" and t: "tick_finish now s i outs res = (s', evs)"
  shows "simple_safe s'"
proof (cases "find_entry (entries s) i")
  case None
  with t safe show ?thesis by (simp add: tick_finish_def)
next
  case (Some e)
  note wf = simple_safe_entry [OF safe Some]
  have wf_trans: "task_wf (transition_ignoring now t n)" if "task_wf t" for t n
    using that by (simp add: transition_ignoring_eq task_wf_apply)
  have keeps: "tstate (transition_ignoring now t n) = Succeeded" if "tstate t = Succeeded" for t n
    using that by (simp add: transition_ignoring_eq)
  have fields: "deps (transition_ignoring now t n) = deps t"
    "task_id (transition_ignoring now t n) = task_id t" for t n
    by (simp_all add: transition_ignoring_eq)
  have start: "started t" if "started (transition_ignoring now t n)" "n \<in> {Succeeded, Failed, Canceled}" for t n
    using that by (cases "tstate t"; cases n) (auto simp: transition_ignoring_eq started_def)
  show ?thesis
  proof (cases res)
    case (Inr u)
    let ?f = "\<lambda>e. e\<lparr>etask := set_progress (transition_ignoring now (etask e) Succeeded) flt_one,
                    elast_outputs := outs\<rparr>"
    have st: "started (set_progress t p) = started t" for t p by (simp add: started_def)
    have "good_update (entries s) e (?f e)"
      using wf wf_trans keeps start by (auto simp: good_update_def fields st)
    with t Some Inr safe show ?thesis
      by (auto simp: tick_finish_def intro: simple_safe_update)
  next
    case (Inl err)
    let ?n = "if category err = Cat_Canceled then Canceled else Failed"
    let ?t = "transition_ignoring now ((etask e)\<lparr>terror := Some err\<rparr>) ?n"
    have err: "task_wf ((etask e)\<lparr>terror := Some err\<rparr>) = task_wf (etask e)"
      "started ((etask e)\<lparr>terror := Some err\<rparr>) = started (etask e)"
      by (simp_all add: task_wf_def started_def)
    have "started (etask e)" if "started ?t"
      using start [OF that] err by simp
    then have "good_update (entries s) e (on_task (\<lambda>_. ?t) e)"
      using wf wf_trans err keeps by (auto simp: good_update_def fields)
    with t Some Inl safe show ?thesis
      by (auto simp: tick_finish_def Let_def intro: simple_safe_update)
  qed
qed

lemma simple_safe_step: "simple_step s evs s' \<Longrightarrow> simple_safe s \<Longrightarrow> simple_safe s'"
proof (induction rule: simple_step.induct)
  case (register s cb)
  then show ?case by (simp add: simple_on_state_change_def)
qed (auto intro: simple_safe_submit simple_safe_cancel simple_safe_pause simple_safe_resume
    simple_safe_begin simple_safe_progress simple_safe_finish)

lemma simple_reach_safe: "simple_reach s \<Longrightarrow> simple_safe s"
proof (induction rule: simple_reach.induct)
  case (start h)
  then show ?case by (simp add: create_simple_scheduler_def simple_safe_def simple_inv_def)
next
  case (step s evs s')
  then show ?case by (blast intro: simple_safe_step)
qed

text \<open>The reachable states are closed under whole runs of actions during a stage.\<close>

definition fresh_action :: "sim_action \<Rightarrow> bool" where
  "fresh_action a = (case a of Act_submit t stg \<Rightarrow> fresh_task t | _ \<Rightarrow> True)"

lemma run_action_step:
  assumes "fresh_action a" "run_action now i s a = (s', evs)"
  shows "simple_step s evs s'"
  using assms by (cases a) (auto simp: fresh_action_def intro: simple_step.intros split: prod.splits)

lemma simple_reach_actions:
  "simple_reach s \<Longrightarrow> list_all fresh_action as \<Longrightarrow> run_actions now i s as = (s', evs) \<Longrightarrow> simple_reach s'"
proof (induction as arbitrary: s evs)
  case Nil
  then show ?case by simp
next
  case (Cons a as)
  obtain s1 ev1 where a: "run_action now i s a = (s1, ev1)" by fastforce
  obtain ev2 where as: "run_actions now i s1 as = (s', ev2)"
    using Cons.prems(3) a by (auto split: prod.splits)
  have "simple_reach s1"
    using Cons.prems a by (auto intro: simple_reach.step run_action_step)
  with Cons.IH Cons.prems(2) as show ?case by auto
qed

lemma simple_reach_tick:
  assumes "simple_reach s" and "simple_tick now behave s = (s', evs)"
    and "\<And>d. list_all fresh_action (fst (behave d))"
  shows "simple_reach s'"
proof -
  obtain s1 ev1 d where b: "tick_begin now s = (s1, ev1, d)" by (metis prod_cases3)
  have s1: "simple_reach s1" using assms(1) b by (blast intro: simple_reach.step simple_step.begin_tick)
  show ?thesis
  proof (cases d)
    case None
    with assms(2) b s1 show ?thesis by (simp add: simple_tick_def)
  next
    case (Some dd)
    obtain as outs res where be: "behave dd = (as, outs, res)" by (metis prod_cases3)
    obtain s2 ev2 where r: "run_actions now (dtask dd) s1 as = (s2, ev2)" by fastforce
    have "list_all fresh_action as" using assms(3) [of dd] be by simp
    with s1 r have "simple_reach s2" by (blast intro: simple_reach_actions)
    moreover obtain ev3 where "tick_finish now s2 (dtask dd) outs res = (s', ev3)"
      using assms(2) b Some be r by (auto simp: simple_tick_def split: prod.splits)
    ultimately show ?thesis by (blast intro: simple_reach.step simple_step.finish_tick)
  qed
qed

end
