(* ===== verification/Pool_Contract.thy ===== *)
theory Pool_Contract
  imports Pool_Steps
begin

text \<open>
  The thread-pool scheduler honours the scheduler contract: the interpretations of \<open>submission\<close>
  and \<open>scheduler\<close> on its operations. The contract needs only the index of tasks, so it also
  covers submissions with unknown dependencies.
\<close>

lemma link_deps_all_known:
  "link_deps s i ds u = (s', Linked v) \<Longrightarrow> d \<in> set ds \<Longrightarrow> nodes s d \<noteq> None"
proof (induction s i ds u arbitrary: s' v rule: link_deps.induct)
  case (1 s i unmet)
  then show ?case by simp
next
  case (2 s i e ds unmet)
  from 2(3) obtain en where e: "e \<noteq> i" "nodes s e = Some en"
    by (auto split: if_splits option.splits)
  let ?s1 = "s\<lparr>successors := add_edge e i (successors s)\<rparr>"
  show ?case
  proof (cases "d = e")
    case True
    with e show ?thesis by simp
  next
    case False
    with 2(4) have d: "d \<in> set ds" by simp
    consider (ok) "nstate en = Succeeded" "link_deps ?s1 i ds unmet = (s', Linked v)"
      | (live) "nstate en \<noteq> Succeeded" "\<not> (nstate en = Failed \<or> nstate en = Canceled)"
          "link_deps ?s1 i ds (Suc unmet) = (s', Linked v)"
      using 2(3) e by (auto simp: Let_def split: if_splits)
    then show ?thesis
    proof cases
      case ok
      from 2(1) [OF e refl ok d] show ?thesis by simp
    next
      case live
      from 2(2) [OF e refl live d] show ?thesis by simp
    qed
  qed
qed

lemma pool_submit_ok:
  assumes sub: "pool_submit now s t stg = (s', evs, Ok)" and q: "tstate t = Queued"
  shows "nodes s (task_id t) = None \<and> (\<exists>n. nodes s' = (nodes s)(task_id t \<mapsto> n) \<and>
    node_order s' = node_order s @ [task_id t] \<and> task_id (ntask n) = task_id t \<and>
    nstate n \<in> {Queued, Ready, Canceled} \<and>
    (nstate n \<noteq> Canceled \<longrightarrow> (\<forall>d \<in> set (deps t). nodes s d \<noteq> None)))"
  using sub q
proof (cases rule: pool_submit_outcome)
  case (inserted sg h g lr n)
  have "\<forall>d \<in> set (deps t). nodes s d \<noteq> None" if "lr = Linked v" for v
    using link_deps_all_known [OF inserted(5) [unfolded that]] by simp
  with inserted(2,11,16) show ?thesis
    by (intro conjI exI [of _ n]) (auto simp: inserted(6) emplace_node_def)
qed simp

lemma pool_submit_err:
  assumes sub: "pool_submit now s t stg = (s', evs, Inl e)"
  shows "nodes s' = nodes s \<and> node_order s' = node_order s \<and> evs = []"
  using sub
proof (cases rule: pool_submit_cases)
  case (rejected h e')
  then show ?thesis by simp
next
  case (linked sg h tk t2 s2 lr)
  from link_deps_frame [OF linked(7)] obtain g where s2: "s2 = s\<lparr>pool_heap := h, successors := g\<rparr>" by auto
  with linked(8) show ?thesis
    by (auto simp: insert_linked_def Let_def split: link_result.splits if_splits sum.splits)
qed

lemma pool_state_of_cong: "nodes s' = nodes s \<Longrightarrow> pool_state_of s' = pool_state_of s"
  by (intro ext) (simp add: pool_state_of_def)

lemma pool_submit_index:
  assumes w: "wf_index s" and q: "tstate t = Queued" and sub: "pool_submit now s t stg = (s', evs, r)"
  shows "wf_index s'"
proof (cases r)
  case (Inl e)
  with sub have "pool_submit now s t stg = (s', evs, Inl e)" by simp
  from pool_submit_err [OF this] w show ?thesis by (simp add: wf_index_def)
next
  case (Inr u)
  with sub have "pool_submit now s t stg = (s', evs, Ok)" by simp
  from pool_submit_ok [OF this q] obtain n where n: "nodes s (task_id t) = None"
    "nodes s' = (nodes s)(task_id t \<mapsto> n)" "node_order s' = node_order s @ [task_id t]"
    "task_id (ntask n) = task_id t" by (elim conjE exE) (rule that)
  from w have d: "distinct (node_order s)" "set (node_order s) = dom (nodes s)"
    and ids: "\<And>i m. nodes s i = Some m \<Longrightarrow> task_id (ntask m) = i" by (simp_all add: wf_index_def)
  from n(1) d(2) have "task_id t \<notin> set (node_order s)" by auto
  then show ?thesis
    unfolding wf_index_def n(2,3) using d ids n(4) by auto
qed

interpretation pool_submission: submission pool_state_of wf_index pool_submit
proof
  fix s s' :: pool and t now stg evs r
  assume "wf_index s" "tstate t = Queued" "pool_submit now s t stg = (s', evs, r)"
  then show "wf_index s'" by (rule pool_submit_index)
next
  fix s s' :: pool and t now stg evs e
  assume "pool_submit now s t stg = (s', evs, Inl e)"
  from pool_submit_err [OF this] pool_state_of_cong [of s' s]
  show "pool_state_of s' = pool_state_of s \<and> evs = []" by blast
next
  fix s s' :: pool and t now stg evs
  assume "tstate t = Queued" "pool_submit now s t stg = (s', evs, Ok)"
  from pool_submit_ok [OF this(2,1)]
  show "pool_state_of s (task_id t) = None \<and>
      (\<exists>st. pool_state_of s' (task_id t) = Some st \<and> st \<in> {Queued, Ready, Canceled}) \<and>
      (\<forall>j. j \<noteq> task_id t \<longrightarrow> pool_state_of s' j = pool_state_of s j)"
    by (auto simp: pool_state_of_def)
next
  fix s s' :: pool and t now stg evs d
  assume "pool_submit now s t stg = (s', evs, Ok)" "tstate t = Queued"
    and "pool_state_of s' (task_id t) \<noteq> Some Canceled" "d \<in> set (deps t)"
  with pool_submit_ok [OF this(1,2)] show "pool_state_of s d \<noteq> None"
    by (auto simp: pool_state_of_def)
qed

lemma pool_cancel_states:
  assumes c: "pool_cancel now s i = (s', evs, r)"
  shows "pool_state_of s' j = pool_state_of s j \<or>
    (\<exists>st. pool_state_of s j = Some st \<and> \<not> is_terminal st \<and> pool_state_of s' j = Some Canceled)"
proof (cases "nodes s i")
  case None
  with c show ?thesis by (simp add: pool_cancel_unknown)
next
  case (Some n)
  show ?thesis
  proof (cases "is_terminal (nstate n)")
    case True
    with c Some show ?thesis by (auto simp: pool_cancel_terminal pool_state_of_def)
  next
    case False
    obtain s2 evs2 where p: "propagate now i (cancel_self now s i n) = (s2, evs2)" by fastforce
    have s': "s' = s2" using c by (simp add: pool_cancel_live [OF Some False p])
    have self: "pool_state_of (cancel_self now s i n) j = (if j = i then Some Canceled else pool_state_of s j)"
      by (simp add: pool_state_of_def cancel_self_def canceled_node_def)
    from prop_rel_nodes [OF prop_rel_propagate [OF p], of j]
    consider (same) "pool_state_of s' j = pool_state_of (cancel_self now s i n) j"
      | (dep) m m' where "nodes (cancel_self now s i n) j = Some m" "nodes s' j = Some m'"
          "dep_canceled now m m'"
      unfolding s' by (auto simp: pool_state_of_def)
    then show ?thesis
    proof cases
      case same
      with self Some False show ?thesis by (auto simp: pool_state_of_def)
    next
      case dep
      note f = dep_canceled_fields(1,8) [OF dep(3)]
      have "j \<noteq> i" using self f(2) dep(1) by (auto simp: pool_state_of_def split: if_splits)
      with self dep(1) have "pool_state_of s j = Some (nstate m)" by (simp add: pool_state_of_def)
      moreover have "pool_state_of s' j = Some Canceled" using f(1) dep(2) by (simp add: pool_state_of_def)
      ultimately show ?thesis using f(2) by blast
    qed
  qed
qed

interpretation pool_sched: scheduler pool_state_of wf_index pool_submit pool_cancel pool_has_pending
proof
  fix s s' :: pool and now i evs r
  assume "wf_index s" and c: "pool_cancel now s i = (s', evs, r)"
  with core_wf_index [OF calm_core_changes [OF calm_cancel [OF c]]] show "wf_index s'" by simp
next
  fix s s' :: pool and now i evs r
  assume "pool_state_of s i = None" "pool_cancel now s i = (s', evs, r)"
  then show "pool_state_of s' = pool_state_of s \<and> evs = [] \<and> is_err r"
    by (auto simp: pool_state_of_def pool_cancel_unknown)
next
  fix s s' :: pool and now i evs r st
  assume st: "pool_state_of s i = Some st" "\<not> is_terminal st" and c: "pool_cancel now s i = (s', evs, r)"
  then obtain n where n: "nodes s i = Some n" "\<not> is_terminal (nstate n)" by (auto simp: pool_state_of_def)
  obtain s2 evs2 where p: "propagate now i (cancel_self now s i n) = (s2, evs2)" by fastforce
  have "nodes (cancel_self now s i n) i = Some (canceled_node now n)" by (simp add: cancel_self_def)
  from prop_rel_terminal [OF prop_rel_propagate [OF p] this] c
  show "r = Ok \<and> pool_state_of s' i = Some Canceled"
    by (simp add: pool_cancel_live [OF n p] pool_state_of_def canceled_node_def)
next
  fix s s' :: pool and now i j evs r
  assume "pool_cancel now s i = (s', evs, r)"
  then show "pool_state_of s' j = pool_state_of s j \<or>
      (\<exists>st. pool_state_of s j = Some st \<and> \<not> is_terminal st \<and> pool_state_of s' j = Some Canceled)"
    by (rule pool_cancel_states)
next
  fix s :: pool
  assume "wf_index s"
  then have "set (node_order s) = dom (nodes s)" by (simp add: wf_index_def)
  then show "pool_has_pending s \<longleftrightarrow> (\<exists>i st. pool_state_of s i = Some st \<and> \<not> is_terminal st)"
    by (auto simp: pool_has_pending_def pool_state_of_def list_ex_iff split: option.splits)
qed

end
