(* ===== verification/Workflows.thy ===== *)
theory Workflows
  imports Orchestrator Simple_Safety Pool_Contract
begin

text \<open>
  The workflow engine on the two schedulers: both host workflows, so what is proved of
  \<open>start_workflow\<close> and \<open>cancel_workflow\<close> for any scheduler holds for each of them. The cancel
  tokens of a host live in the heap of its state.
\<close>

definition simple_alloc :: "simple \<Rightarrow> simple \<times> nat" where
  "simple_alloc s = (case create_token (simple_heap s) of (h, a) \<Rightarrow> (s\<lparr>simple_heap := h\<rparr>, a))"

definition pool_alloc :: "pool \<Rightarrow> pool \<times> nat" where
  "pool_alloc s = (case create_token (pool_heap s) of (h, a) \<Rightarrow> (s\<lparr>pool_heap := h\<rparr>, a))"

interpretation simple_host: workflow_host simple_state_of simple_inv simple_submit simple_cancel
  simple_has_pending simple_alloc
proof unfold_locales
  fix s s' tok
  assume "simple_alloc s = (s', tok)"
  then show "simple_state_of s' = simple_state_of s"
    by (intro ext) (auto simp: simple_alloc_def simple_state_of_def split: prod.splits)
next
  fix s s' tok
  assume "simple_inv s" "simple_alloc s = (s', tok)"
  then show "simple_inv s'" by (auto simp: simple_alloc_def simple_inv_def split: prod.splits)
qed

interpretation pool_host: workflow_host pool_state_of wf_index pool_submit pool_cancel
  pool_has_pending pool_alloc
proof unfold_locales
  fix s s' :: pool and tok
  assume "pool_alloc s = (s', tok)"
  then show "pool_state_of s' = pool_state_of s"
    by (intro ext) (auto simp: pool_alloc_def pool_state_of_def split: prod.splits)
next
  fix s s' :: pool and tok
  assume "wf_index s" "pool_alloc s = (s', tok)"
  then show "wf_index s'" by (auto simp: pool_alloc_def wf_index_def split: prod.splits)
qed

end
