(* ===== verification/Presenter.thy ===== *)
theory Presenter
  imports Workflows Platform
begin

text \<open>
  \<open>app/src/presenter.cpp\<close>: \<open>Presenter\<close>, the bridge between the window, the workflow engine and the
  scheduler. The engine's callbacks run on whatever thread delivers an event; they post a closure
  to the window's thread, which runs the closures later, in order. The scheduler is given by its
  operations. Qt's number and time formatting are parameters: the texts of the two percentages
  and of the clock. Every operation returns the new state and the signals it emits.
\<close>

section \<open>State and setters\<close>

record presenter =
  busy :: bool
  shown_progress :: flt
  status_text :: string
  output_path :: string
  log_text :: string
  current_trace_id :: string
  timer_active :: bool

definition create_presenter :: presenter where
  "create_presenter = \<lparr>busy = False, shown_progress = flt_zero, status_text = [], output_path = [],
     log_text = [], current_trace_id = [], timer_active = False\<rparr>"

datatype ui_signal =
    Busy_changed | Progress_changed | Status_changed | Output_changed | Log_changed
  | Generation_completed bool string

type_synonym ui_op = "presenter \<Rightarrow> presenter \<times> ui_signal list"

text \<open>One operation after the other, the signals in order.\<close>

definition ui_then :: "ui_op \<Rightarrow> ui_op \<Rightarrow> ui_op" where
  "ui_then f g p = (case f p of (p1, s1) \<Rightarrow> (case g p1 of (p2, s2) \<Rightarrow> (p2, s1 @ s2)))"

fun ui_all :: "ui_op list \<Rightarrow> ui_op" where
  "ui_all [] p = (p, [])"
| "ui_all (f # fs) p = ui_then f (ui_all fs) p"

definition append_log :: "string \<Rightarrow> ui_op" where
  "append_log line p = (p\<lparr>log_text := log_text p @ line @ [newline]\<rparr>, [Log_changed])"

definition set_busy :: "bool \<Rightarrow> ui_op" where
  "set_busy b p = (if busy p \<noteq> b then (p\<lparr>busy := b\<rparr>, [Busy_changed]) else (p, []))"

text \<open>
  \<open>std::abs(progress_ - p) > 0.001f\<close>. The constant is \<open>8589935 / 2 ^ 33\<close>, an odd multiple of the
  spacing of floats there, so the rounded difference exceeds it exactly if the difference lies at
  least half a spacing above it. A difference with NaN, or of equal infinities, is NaN.
\<close>

definition progress_step :: rat where
  "progress_step = 17179871 / 17179869184"

fun moved :: "flt \<Rightarrow> flt \<Rightarrow> bool" where
  "moved (Fin a) (Fin b) = (progress_step \<le> \<bar>a - b\<bar>)"
| "moved NaN y = False"
| "moved x NaN = False"
| "moved PInf PInf = False"
| "moved NInf NInf = False"
| "moved x y = True"

definition set_shown_progress :: "flt \<Rightarrow> ui_op" where
  "set_shown_progress x p =
     (if moved (shown_progress p) x then (p\<lparr>shown_progress := x\<rparr>, [Progress_changed]) else (p, []))"

definition set_status_text :: "string \<Rightarrow> ui_op" where
  "set_status_text s p =
     (if status_text p \<noteq> s then (p\<lparr>status_text := s\<rparr>, [Status_changed]) else (p, []))"

definition set_output_path :: "string \<Rightarrow> ui_op" where
  "set_output_path s p = (p\<lparr>output_path := s\<rparr>, [Output_changed])"

definition clear_log :: ui_op where
  "clear_log p = (p\<lparr>log_text := []\<rparr>, [Log_changed])"

definition emit_completed :: "bool \<Rightarrow> ui_op" where
  "emit_completed ok p = (p, [Generation_completed ok (output_path p)])"

section \<open>What the callbacks post\<close>

datatype posted = Post_completion bool string | Post_progress string task_state flt

fun post_of :: "engine_call \<Rightarrow> posted" where
  "post_of (Completion_call k trace ok path) = Post_completion ok path"
| "post_of (Progress_call k trace i st x) = Post_progress i st x"

record ui_format =
  percent_text :: "flt \<Rightarrow> string"
  percent_decimal :: "flt \<Rightarrow> string"
  clock_text :: "int \<Rightarrow> string"

definition progress_status :: "ui_format \<Rightarrow> string \<Rightarrow> task_state \<Rightarrow> flt \<Rightarrow> string" where
  "progress_status fm i st x =
     ''['' @ state_to_string st @ ''] '' @ take 8 i @ '' ('' @ percent_text fm x @ ''%)''"

definition progress_log :: "ui_format \<Rightarrow> string \<Rightarrow> string \<Rightarrow> task_state \<Rightarrow> flt \<Rightarrow> string" where
  "progress_log fm clock i st x =
     ''['' @ clock @ ''] task='' @ take 8 i @ '' state='' @ state_to_string st @
     '' progress='' @ percent_decimal fm x @ ''%''"

fun show_posted :: "ui_format \<Rightarrow> string \<Rightarrow> posted \<Rightarrow> ui_op" where
  "show_posted fm clock (Post_completion ok path) p =
     ui_all ((if ok
        then [set_output_path path, set_status_text ''Generation completed'',
              append_log ''=== Workflow completed successfully ==='', append_log (''Output: '' @ path)]
        else [set_status_text ''Generation failed'', append_log ''=== Workflow failed ===''])
       @ [set_busy False, set_shown_progress flt_one, emit_completed ok]) p"
| "show_posted fm clock (Post_progress i st x) p =
     ui_all [set_status_text (progress_status fm i st x), set_shown_progress x,
             append_log (progress_log fm clock i st x)] p"

section \<open>The running application\<close>

record 's host_ops =
  op_submit :: "'s submit_op"
  op_cancel :: "'s cancel_op"
  op_alloc :: "'s \<Rightarrow> 's \<times> nat"
  op_tick :: "int \<Rightarrow> 's \<Rightarrow> 's \<times> state_event list"
  op_pending :: "'s \<Rightarrow> bool"

record 's app =
  app_ui :: presenter
  app_engine :: engine
  app_sched :: 's
  app_posted :: "posted list"

text \<open>The constructor: the engine has one completion and one progress callback.\<close>

definition create_app :: "stage_factory \<Rightarrow> 's \<Rightarrow> 's app" where
  "create_app fac s = \<lparr>app_ui = create_presenter,
     app_engine = set_stage_factory (on_progress (on_completion create_engine (Some 0)) (Some 1)) (Some fac),
     app_sched = s, app_posted = []\<rparr>"

definition start_texts :: "string \<Rightarrow> string \<Rightarrow> int \<Rightarrow> ui_op list" where
  "start_texts story style n =
     [set_busy True, set_shown_progress flt_zero, set_status_text ''Starting generation...'',
      clear_log, set_output_path [], append_log ''=== Starting new workflow ==='',
      append_log (''Story: '' @ take 50 story @ (if length story > 50 then ''...'' else [])),
      append_log (''Style: '' @ style), append_log (''Scenes: '' @ to_string_int n)]"

definition start_failed :: "task_error \<Rightarrow> ui_op list" where
  "start_failed e =
     [set_busy False, set_status_text ''Failed to start generation'',
      append_log (''Failed to start workflow: '' @
        (if user_message e = [] then internal_message e else user_message e)),
      \<lambda>p. (p, [Generation_completed False []])]"

definition start_succeeded :: "string \<Rightarrow> ui_op list" where
  "start_succeeded trace =
     [\<lambda>p. (p\<lparr>current_trace_id := trace\<rparr>, []), append_log (''trace_id: '' @ trace),
      \<lambda>p. (p\<lparr>timer_active := True\<rparr>, [])]"

definition start_generation ::
  "'s host_ops \<Rightarrow> rng \<Rightarrow> int \<Rightarrow> string \<Rightarrow> string \<Rightarrow> int \<Rightarrow> 's app \<Rightarrow> 's app \<times> ui_signal list" where
  "start_generation ops dis now story style n a =
     (if busy (app_ui a)
      then (case append_log ''Already generating; ignoring request.'' (app_ui a) of
              (p, sigs) \<Rightarrow> (a\<lparr>app_ui := p\<rparr>, sigs))
      else (case ui_all (start_texts story style n) (app_ui a) of
              (p1, sigs1) \<Rightarrow>
                (case start_workflow (op_submit ops) (op_cancel ops) (op_alloc ops) dis now
                        (app_engine a) (app_sched a) story style n of
                   (eng, s, calls, r) \<Rightarrow>
                     (case ui_all (case r of Inl e \<Rightarrow> start_failed e | Inr trace \<Rightarrow> start_succeeded trace) p1 of
                        (p2, sigs2) \<Rightarrow>
                          (\<lparr>app_ui = p2, app_engine = eng, app_sched = s,
                            app_posted = app_posted a @ map post_of calls\<rparr>, sigs1 @ sigs2)))))"

definition cancel_generation :: "'s host_ops \<Rightarrow> int \<Rightarrow> 's app \<Rightarrow> 's app \<times> ui_signal list" where
  "cancel_generation ops now a =
     (if \<not> busy (app_ui a) \<or> current_trace_id (app_ui a) = [] then (a, [])
      else (case append_log ''Canceling workflow...'' (app_ui a) of
              (p1, sigs1) \<Rightarrow>
                (case cancel_workflow (op_cancel ops) now (app_engine a) (app_sched a) (current_trace_id p1) of
                   (eng, s, calls, r) \<Rightarrow>
                     (case set_status_text ''Canceling...'' p1 of
                        (p2, sigs2) \<Rightarrow>
                          (\<lparr>app_ui = p2, app_engine = eng, app_sched = s,
                            app_posted = app_posted a @ map post_of calls\<rparr>, sigs1 @ sigs2)))))"

text \<open>Events that the scheduler delivers, from a tick or from a worker.\<close>

definition deliver_to_app :: "state_event list \<Rightarrow> 's app \<Rightarrow> 's app" where
  "deliver_to_app evs a =
     (case deliver (app_engine a) evs of
        (eng, calls) \<Rightarrow> a\<lparr>app_engine := eng, app_posted := app_posted a @ map post_of calls\<rparr>)"

definition on_tick :: "'s host_ops \<Rightarrow> int \<Rightarrow> 's app \<Rightarrow> 's app" where
  "on_tick ops now a =
     (case op_tick ops now (app_sched a) of
        (s, evs) \<Rightarrow>
          (let a1 = deliver_to_app evs (a\<lparr>app_sched := s\<rparr>)
           in if \<not> op_pending ops s then a1\<lparr>app_ui := (app_ui a1)\<lparr>timer_active := False\<rparr>\<rparr> else a1))"

text \<open>The window's thread runs the oldest posted closure.\<close>

definition run_posted :: "ui_format \<Rightarrow> string \<Rightarrow> 's app \<Rightarrow> 's app \<times> ui_signal list" where
  "run_posted fm clock a =
     (case app_posted a of
        [] \<Rightarrow> (a, [])
      | q # qs \<Rightarrow> (case show_posted fm clock q (app_ui a) of
                    (p, sigs) \<Rightarrow> (a\<lparr>app_ui := p, app_posted := qs\<rparr>, sigs)))"

section \<open>What the operations leave alone\<close>

lemmas ui_defs = ui_then_def append_log_def set_busy_def set_shown_progress_def set_status_text_def
  set_output_path_def clear_log_def emit_completed_def

lemma ui_then_fst: "fst (ui_then f g p) = fst (g (fst (f p)))"
  by (simp add: ui_then_def split: prod.splits)

lemma ui_then_snd: "snd (ui_then f g p) = snd (f p) @ snd (g (fst (f p)))"
  by (simp add: ui_then_def split: prod.splits)

lemma append_log_fields [simp, frame]:
  "busy (fst (append_log l p)) = busy p" "shown_progress (fst (append_log l p)) = shown_progress p"
  "output_path (fst (append_log l p)) = output_path p" "status_text (fst (append_log l p)) = status_text p"
  "current_trace_id (fst (append_log l p)) = current_trace_id p" "timer_active (fst (append_log l p)) = timer_active p"
  "snd (append_log l p) = [Log_changed]"
  by (simp_all add: append_log_def)

lemma set_status_fields [simp, frame]:
  "busy (fst (set_status_text l p)) = busy p" "shown_progress (fst (set_status_text l p)) = shown_progress p"
  "output_path (fst (set_status_text l p)) = output_path p" "status_text (fst (set_status_text l p)) = l"
  "current_trace_id (fst (set_status_text l p)) = current_trace_id p" "timer_active (fst (set_status_text l p)) = timer_active p"
  by (simp_all add: set_status_text_def)

lemma shown_progress_fields [simp, frame]:
  "busy (fst (set_shown_progress x p)) = busy p" "status_text (fst (set_shown_progress x p)) = status_text p"
  "output_path (fst (set_shown_progress x p)) = output_path p" "log_text (fst (set_shown_progress x p)) = log_text p"
  "current_trace_id (fst (set_shown_progress x p)) = current_trace_id p" "timer_active (fst (set_shown_progress x p)) = timer_active p"
  by (simp_all add: set_shown_progress_def)

lemma set_busy_fields [simp, frame]:
  "busy (fst (set_busy b p)) = b" "shown_progress (fst (set_busy b p)) = shown_progress p"
  "output_path (fst (set_busy b p)) = output_path p" "status_text (fst (set_busy b p)) = status_text p"
  "current_trace_id (fst (set_busy b p)) = current_trace_id p" "timer_active (fst (set_busy b p)) = timer_active p"
  by (simp_all add: set_busy_def)

lemma other_setter_fields [simp, frame]:
  "busy (fst (set_output_path l p)) = busy p" "output_path (fst (set_output_path l p)) = l"
  "current_trace_id (fst (set_output_path l p)) = current_trace_id p" "timer_active (fst (set_output_path l p)) = timer_active p"
  "busy (fst (clear_log p)) = busy p" "output_path (fst (clear_log p)) = output_path p"
  "current_trace_id (fst (clear_log p)) = current_trace_id p" "timer_active (fst (clear_log p)) = timer_active p"
  "fst (emit_completed ok p) = p" "snd (emit_completed ok p) = [Generation_completed ok (output_path p)]"
  "shown_progress (fst (set_output_path l p)) = shown_progress p"
  "shown_progress (fst (clear_log p)) = shown_progress p"
  by (simp_all add: set_output_path_def clear_log_def emit_completed_def)

text \<open>The signal of a finished generation comes from a completion or a failed start only.\<close>

definition finishes :: "ui_signal list \<Rightarrow> bool" where
  "finishes sigs \<longleftrightarrow> (\<exists>ok path. Generation_completed ok path \<in> set sigs)"

lemma finishes_append [simp]: "finishes (xs @ ys) \<longleftrightarrow> finishes xs \<or> finishes ys"
  by (auto simp: finishes_def)

lemma finishes_Cons [simp]:
  "finishes (x # xs) \<longleftrightarrow> (\<exists>ok path. x = Generation_completed ok path) \<or> finishes xs"
  by (auto simp: finishes_def)

lemma no_finish [simp]:
  "\<not> finishes []" "\<not> finishes (snd (set_status_text l p))"
  "\<not> finishes (snd (set_shown_progress x p))" "\<not> finishes (snd (set_busy b p))"
  "\<not> finishes (snd (set_output_path l p))" "\<not> finishes (snd (clear_log p))"
  by (simp_all add: finishes_def set_status_text_def set_shown_progress_def set_busy_def
      set_output_path_def clear_log_def)

fun is_post_completion :: "posted \<Rightarrow> bool" where
  "is_post_completion (Post_completion ok path) = True"
| "is_post_completion (Post_progress i st x) = False"

lemma show_progress_keeps:
  assumes "\<not> is_post_completion q" "show_posted fm clock q p = (p', sigs)"
  shows "busy p' = busy p \<and> output_path p' = output_path p \<and>
    current_trace_id p' = current_trace_id p \<and> \<not> finishes sigs"
proof (cases q)
  case (Post_progress i st x)
  let ?r = "show_posted fm clock q p"
  have "busy (fst ?r) = busy p \<and> output_path (fst ?r) = output_path p \<and>
      current_trace_id (fst ?r) = current_trace_id p \<and> \<not> finishes (snd ?r)"
    unfolding Post_progress by (simp add: ui_then_fst ui_then_snd)
  with assms(2) show ?thesis by simp
qed (use assms(1) in simp)

lemma show_completion:
  "busy (fst (show_posted fm clock (Post_completion ok path) p)) = False"
  "output_path (fst (show_posted fm clock (Post_completion ok path) p)) = (if ok then path else output_path p)"
  "Generation_completed ok (if ok then path else output_path p) \<in>
     set (snd (show_posted fm clock (Post_completion ok path) p))"
  by (simp_all add: ui_then_fst ui_then_snd)

section \<open>The completion call reaches the posted closures\<close>

definition no_completion :: "engine_call list \<Rightarrow> bool" where
  "no_completion calls \<longleftrightarrow> (\<forall>c \<in> set calls. \<not> is_post_completion (post_of c))"

text \<open>
  Events of tasks of the last workflow, or of none, leave the others alone; and as long as they
  do not bring enough successes there is no completion call at all.
\<close>

lemma handle_in_last:
  assumes "\<forall>u \<in> set us. ev_task ev \<notin> set (wf_tasks u)"
    and "handle_in ccb pcb (us @ [w]) ev = (wfs, calls)"
  shows "if ev_task ev \<in> set (wf_tasks w)
    then \<exists>w'. workflow_event ccb pcb w ev = (w', calls) \<and> wfs = us @ [w']
    else wfs = us @ [w] \<and> calls = []"
  using assms by (induction us arbitrary: wfs) (auto split: prod.splits if_splits)

lemma deliver_last_incomplete:
  assumes "active_workflows eng = us @ [w]" "\<forall>u \<in> set us. \<forall>ev \<in> set evs. ev_task ev \<notin> set (wf_tasks u)"
    and "0 \<le> wf_completed w" "wf_total w \<le> INT_MAX"
    and "wf_completed w + int (successes (wf_tasks w) evs) < wf_total w"
    and "deliver eng evs = (eng', calls)"
  shows "no_completion calls \<and> (\<exists>w'. active_workflows eng' = us @ [w'] \<and> wf_tasks w' = wf_tasks w \<and>
    wf_total w' = wf_total w \<and> wf_completed w' = wf_completed w + int (successes (wf_tasks w) evs))"
  using assms
proof (induction evs arbitrary: eng w calls eng')
  case Nil
  then show ?case by (auto simp: no_completion_def successes_def)
next
  case (Cons ev evs)
  obtain wfs c1 where h: "handle_in (completion_cb eng) (progress_cb eng) (us @ [w]) ev = (wfs, c1)" by fastforce
  let ?eng1 = "eng\<lparr>active_workflows := wfs\<rparr>"
  obtain eng2 c2 where d: "deliver ?eng1 evs = (eng2, c2)" by fastforce
  have eqs: "eng' = eng2" "calls = c1 @ c2"
    using Cons.prems(1,6) h d by (simp_all add: handle_state_change_def)
  have hit: "successes (wf_tasks w) (ev # evs) =
      (if ev_task ev \<in> set (wf_tasks w) \<and> ev_state ev = Succeeded then 1 else 0) + successes (wf_tasks w) evs"
    by (simp add: successes_def)
  have one: "\<exists>w1. wfs = us @ [w1] \<and> wf_tasks w1 = wf_tasks w \<and> wf_total w1 = wf_total w \<and>
      wf_completed w1 = wf_completed w +
        (if ev_task ev \<in> set (wf_tasks w) \<and> ev_state ev = Succeeded then 1 else 0) \<and> no_completion c1"
  proof (cases "ev_task ev \<in> set (wf_tasks w)")
    case True
    then obtain w1 where w1: "workflow_event (completion_cb eng) (progress_cb eng) w ev = (w1, c1)" "wfs = us @ [w1]"
      using handle_in_last [OF _ h] Cons.prems(2) by auto
    have small: "i32 (wf_completed w + 1) = wf_completed w + 1"
      using Cons.prems(3-5) by (intro i32_id) (auto simp: INT_MAX_def)
    have "wf_completed w1 \<noteq> wf_total w"
      using workflow_event_fields(4) [OF w1(1)] small Cons.prems(5) True hit by (auto split: if_splits)
    then have "no_completion c1"
      using w1(1) workflow_event_fields(3) [OF w1(1)]
      by (auto simp: workflow_event_def no_completion_def Let_def split: if_splits option.splits)
    with w1 workflow_event_fields [OF w1(1)] small True show ?thesis by auto
  next
    case False
    with handle_in_last [OF _ h] Cons.prems(2) have "wfs = us @ [w]" "c1 = []" by auto
    with False show ?thesis by (auto simp: no_completion_def)
  qed
  then obtain w1 where w1: "active_workflows ?eng1 = us @ [w1]" "wf_tasks w1 = wf_tasks w"
    "wf_total w1 = wf_total w" "no_completion c1"
    "wf_completed w1 + int (successes (wf_tasks w1) evs) = wf_completed w + int (successes (wf_tasks w) (ev # evs))"
    "0 \<le> wf_completed w1"
    using Cons.prems(3) hit by auto
  have "no_completion c2 \<and> (\<exists>w'. active_workflows eng2 = us @ [w'] \<and> wf_tasks w' = wf_tasks w1 \<and>
      wf_total w' = wf_total w1 \<and> wf_completed w' = wf_completed w1 + int (successes (wf_tasks w1) evs))"
    using Cons.prems w1 by (intro Cons.IH [OF w1(1) _ w1(6) _ _ d]) auto
  with w1 eqs show ?case by (auto simp: no_completion_def)
qed

section \<open>Runs of the application\<close>

text \<open>
  What can happen, one thing at a time: clicks, the timer, a worker that changed the scheduler and
  delivers events, the window's thread taking up a posted closure.
\<close>

datatype 's action =
    Click_start string string int
  | Click_cancel
  | Timer_tick
  | Worker_events 's "state_event list"
  | Show_next

fun app_act ::
  "'s host_ops \<Rightarrow> rng \<Rightarrow> ui_format \<Rightarrow> int \<Rightarrow> 's action \<Rightarrow> 's app \<Rightarrow> 's app \<times> ui_signal list" where
  "app_act ops dis fm now (Click_start story style n) a = start_generation ops dis now story style n a"
| "app_act ops dis fm now Click_cancel a = cancel_generation ops now a"
| "app_act ops dis fm now Timer_tick a = (if timer_active (app_ui a) then on_tick ops now a else a, [])"
| "app_act ops dis fm now (Worker_events s evs) a = (deliver_to_app evs (a\<lparr>app_sched := s\<rparr>), [])"
| "app_act ops dis fm now Show_next a = run_posted fm (clock_text fm now) a"

text \<open>The events that an action hands to the engine while the window is busy.\<close>

fun busy_events :: "'s host_ops \<Rightarrow> int \<Rightarrow> 's action \<Rightarrow> 's app \<Rightarrow> state_event list" where
  "busy_events ops now Click_cancel a =
     (if current_trace_id (app_ui a) = [] then []
      else (case List.find (\<lambda>w. wf_trace w = current_trace_id (app_ui a)) (active_workflows (app_engine a)) of
              None \<Rightarrow> []
            | Some w \<Rightarrow> snd (cancel_all (op_cancel ops) now (app_sched a) (wf_tasks w))))"
| "busy_events ops now Timer_tick a = (if timer_active (app_ui a) then snd (op_tick ops now (app_sched a)) else [])"
| "busy_events ops now (Worker_events s evs) a = evs"
| "busy_events ops now act a = []"

fun app_run ::
  "'s host_ops \<Rightarrow> rng \<Rightarrow> ui_format \<Rightarrow> (int \<times> 's action) list \<Rightarrow> 's app \<Rightarrow>
   's app \<times> ui_signal list \<times> state_event list" where
  "app_run ops dis fm [] a = (a, [], [])"
| "app_run ops dis fm ((now, act) # acts) a =
     (case app_act ops dis fm now act a of
        (a1, sigs1) \<Rightarrow>
          (case app_run ops dis fm acts a1 of
             (a2, sigs2, evs2) \<Rightarrow> (a2, sigs1 @ sigs2, busy_events ops now act a @ evs2)))"

text \<open>An action on a busy application, as the engine and the queue see it.\<close>

definition quiet :: "'s app \<Rightarrow> bool" where
  "quiet a \<longleftrightarrow> busy (app_ui a) \<and> \<not> list_ex is_post_completion (app_posted a)"

lemma quiet_deliver:
  assumes "quiet a" "deliver (app_engine a) evs = (eng, calls)" "no_completion calls"
    and "busy p" "output_path p = output_path (app_ui a)"
  shows "quiet \<lparr>app_ui = p, app_engine = eng, app_sched = s, app_posted = app_posted a @ map post_of calls\<rparr>"
  using assms by (auto simp: quiet_def no_completion_def list_ex_iff)

lemma cancel_busy:
  assumes q: "quiet a" and act: "cancel_generation ops now a = (a', sigs)"
    and d: "deliver (app_engine a) (busy_events ops now Click_cancel a) = (eng, calls)" and c: "no_completion calls"
  shows "quiet a' \<and> app_engine a' = eng \<and> \<not> finishes sigs \<and> output_path (app_ui a') = output_path (app_ui a)"
proof (cases "current_trace_id (app_ui a) = []")
  case True
  with act d q show ?thesis by (auto simp: cancel_generation_def finishes_def)
next
  case False
  have b: "busy (app_ui a)" using q by (simp add: quiet_def)
  obtain p1 g1 where p1: "append_log ''Canceling workflow...'' (app_ui a) = (p1, g1)" by fastforce
  obtain p2 g2 where p2: "set_status_text ''Canceling...'' p1 = (p2, g2)" by fastforce
  have f1: "busy p1" "output_path p1 = output_path (app_ui a)" "\<not> finishes g1"
    "current_trace_id p1 = current_trace_id (app_ui a)"
    using p1 b by (auto simp: append_log_def finishes_def)
  have f2: "busy p2" "output_path p2 = output_path (app_ui a)" "\<not> finishes g2"
    using p2 f1 by (auto simp: set_status_text_def finishes_def split: if_splits)
  have "\<exists>s r. cancel_workflow (op_cancel ops) now (app_engine a) (app_sched a) (current_trace_id p1) = (eng, s, calls, r)"
    using d False f1(4) by (auto simp: cancel_workflow_def split: option.splits prod.splits)
  then obtain s r where cw: "cancel_workflow (op_cancel ops) now (app_engine a) (app_sched a)
      (current_trace_id p1) = (eng, s, calls, r)" by blast
  have "a' = \<lparr>app_ui = p2, app_engine = eng, app_sched = s,
      app_posted = app_posted a @ map post_of calls\<rparr>" "sigs = g1 @ g2"
    using act False b p1 p2 cw by (simp_all add: cancel_generation_def)
  with quiet_deliver [OF q d c f2(1,2), of s] f1 f2 show ?thesis by simp
qed

lemma tick_busy:
  assumes q: "quiet a" and act: "on_tick ops now a = a'"
    and d: "deliver (app_engine a) (busy_events ops now Timer_tick a) = (eng, calls)" and c: "no_completion calls"
    and t: "timer_active (app_ui a)"
  shows "quiet a' \<and> app_engine a' = eng \<and> output_path (app_ui a') = output_path (app_ui a)"
proof -
  obtain s evs where tick: "op_tick ops now (app_sched a) = (s, evs)" by fastforce
  with d t have d': "deliver (app_engine a) evs = (eng, calls)" by simp
  have "a' = (if op_pending ops s then id else app_ui_update (timer_active_update (\<lambda>_. False)))
      \<lparr>app_ui = app_ui a, app_engine = eng, app_sched = s, app_posted = app_posted a @ map post_of calls\<rparr>"
    using act tick d' by (auto simp: on_tick_def deliver_to_app_def Let_def)
  moreover have "busy (app_ui a)" using q by (simp add: quiet_def)
  ultimately show ?thesis using quiet_deliver [OF q d' c, of "app_ui a" s] by (auto simp: quiet_def)
qed

lemma app_act_busy:
  assumes q: "quiet a" and act: "app_act ops dis fm now act a = (a', sigs)"
    and d: "deliver (app_engine a) (busy_events ops now act a) = (eng, calls)" and c: "no_completion calls"
  shows "quiet a' \<and> app_engine a' = eng \<and> \<not> finishes sigs \<and> output_path (app_ui a') = output_path (app_ui a)"
proof (cases act)
  case (Click_start story style n)
  with act d q show ?thesis
    by (auto simp: start_generation_def quiet_def append_log_def finishes_def split: prod.splits)
next
  case Click_cancel
  with act have "cancel_generation ops now a = (a', sigs)" by simp
  from cancel_busy [OF q this d [unfolded Click_cancel] c] show ?thesis .
next
  case Timer_tick
  show ?thesis
  proof (cases "timer_active (app_ui a)")
    case True
    with act Timer_tick have "on_tick ops now a = a'" "sigs = []" by simp_all
    with tick_busy [OF q _ d [unfolded Timer_tick] c True] show ?thesis by simp
  next
    case False
    with act d Timer_tick q show ?thesis by auto
  qed
next
  case (Worker_events s evs)
  with d have d': "deliver (app_engine a) evs = (eng, calls)" by simp
  have b: "busy (app_ui a)" using q by (simp add: quiet_def)
  have "a' = \<lparr>app_ui = app_ui a, app_engine = eng, app_sched = s, app_posted = app_posted a @ map post_of calls\<rparr>"
    "sigs = []" using act d' unfolding Worker_events by (auto simp: deliver_to_app_def)
  with quiet_deliver [OF q d' c, of "app_ui a" s] b show ?thesis by simp
next
  case Show_next
  show ?thesis
  proof (cases "app_posted a")
    case Nil
    with act d Show_next q show ?thesis by (auto simp: run_posted_def)
  next
    case (Cons x xs)
    obtain p sg where sp: "show_posted fm (clock_text fm now) x (app_ui a) = (p, sg)" by fastforce
    have "\<not> is_post_completion x" using q Cons by (simp add: quiet_def)
    from show_progress_keeps [OF this sp] act d Show_next q Cons sp show ?thesis
      by (auto simp: run_posted_def quiet_def)
  qed
qed

lemma successes_append: "successes ids (xs @ ys) = successes ids xs + successes ids ys"
  by (simp add: successes_def)

lemma start_texts_effect:
  assumes "ui_all (start_texts story style n) p = (p1, g1)"
  shows "busy p1 \<and> output_path p1 = [] \<and> timer_active p1 = timer_active p \<and>
    current_trace_id p1 = current_trace_id p \<and> \<not> finishes g1"
proof -
  have "busy (fst (ui_all (start_texts story style n) p)) \<and>
      output_path (fst (ui_all (start_texts story style n) p)) = [] \<and>
      timer_active (fst (ui_all (start_texts story style n) p)) = timer_active p \<and>
      current_trace_id (fst (ui_all (start_texts story style n) p)) = current_trace_id p \<and>
      \<not> finishes (snd (ui_all (start_texts story style n) p))"
    unfolding start_texts_def by (simp add: ui_then_fst ui_then_snd)
  with assms show ?thesis by simp
qed

section \<open>Properties\<close>

text \<open>No event of the list completes the workflow: it gets none, or it misses a success after all of them.\<close>

definition incomplete_after :: "state_event list \<Rightarrow> workflow \<Rightarrow> bool" where
  "incomplete_after evs w \<longleftrightarrow> (\<forall>ev \<in> set evs. ev_task ev \<notin> set (wf_tasks w)) \<or>
     (0 \<le> wf_completed w \<and> wf_total w \<le> INT_MAX \<and>
      wf_completed w + int (successes (wf_tasks w) evs) < wf_total w)"

lemma incomplete_event:
  assumes i: "incomplete_after (ev # evs) w" and ev: "ev_task ev \<in> set (wf_tasks w)"
    and w': "workflow_event ccb pcb w ev = (w', calls)"
  shows "no_completion calls \<and> incomplete_after evs w'"
proof -
  let ?d = "if ev_state ev = Succeeded then 1 else 0"
  have lt: "0 \<le> wf_completed w" "wf_total w \<le> INT_MAX"
    "wf_completed w + ?d + int (successes (wf_tasks w) evs) < wf_total w"
    using i ev by (auto simp: incomplete_after_def successes_def)
  then have c: "wf_completed w' = wf_completed w + ?d"
    using workflow_event_fields(4) [OF w'] by (auto simp: i32_id INT_MAX_def)
  with lt workflow_event_fields(1,3) [OF w'] have "incomplete_after evs w'" "wf_completed w' \<noteq> wf_total w"
    by (auto simp: incomplete_after_def)
  with w' workflow_event_fields(4) [OF w'] show ?thesis
    by (auto simp: workflow_event_def no_completion_def Let_def split: if_splits option.splits)
qed

lemma incomplete_tail: "incomplete_after (ev # evs) w \<Longrightarrow> incomplete_after evs w"
  by (auto simp: incomplete_after_def successes_def split: if_splits)

lemma incomplete_handle:
  "handle_in ccb pcb wfs ev = (wfs', calls) \<Longrightarrow> \<forall>w \<in> set wfs. incomplete_after (ev # evs) w \<Longrightarrow>
    no_completion calls \<and> (\<forall>w \<in> set wfs'. incomplete_after evs w)"
proof (induction wfs arbitrary: wfs' calls)
  case Nil
  then show ?case by (simp add: no_completion_def)
next
  case (Cons w wfs)
  show ?case
  proof (cases "ev_task ev \<in> set (wf_tasks w)")
    case True
    then obtain w' where w': "workflow_event ccb pcb w ev = (w', calls)" "wfs' = w' # wfs"
      using Cons.prems(1) by (auto split: prod.splits)
    from incomplete_event [OF _ True w'(1)] Cons.prems(2) w'(2) show ?thesis by (auto intro: incomplete_tail)
  next
    case False
    then obtain wfs1 where "handle_in ccb pcb wfs ev = (wfs1, calls)" "wfs' = w # wfs1"
      using Cons.prems(1) by (auto split: prod.splits)
    with Cons show ?thesis by (auto intro: incomplete_tail)
  qed
qed

lemma incomplete_deliver:
  "deliver eng evs = (eng', calls) \<Longrightarrow> \<forall>w \<in> set (active_workflows eng). incomplete_after (evs @ rest) w \<Longrightarrow>
    no_completion calls \<and> (\<forall>w \<in> set (active_workflows eng'). incomplete_after rest w)"
proof (induction evs arbitrary: eng calls)
  case Nil
  then show ?case by (simp add: no_completion_def)
next
  case (Cons ev evs)
  obtain wfs c1 where h: "handle_in (completion_cb eng) (progress_cb eng) (active_workflows eng) ev = (wfs, c1)"
    by fastforce
  obtain eng2 c2 where d: "deliver (eng\<lparr>active_workflows := wfs\<rparr>) evs = (eng2, c2)" by fastforce
  have e: "eng' = eng2" "calls = c1 @ c2" using Cons.prems(1) h d by (simp_all add: handle_state_change_def)
  from incomplete_handle [OF h, of "evs @ rest"] Cons.prems(2)
  have "no_completion c1" "\<forall>w \<in> set wfs. incomplete_after (evs @ rest) w" by simp_all
  with Cons.IH [OF d [folded e(1)]] e(2) show ?case by (auto simp: no_completion_def)
qed

text \<open>C22: The window stays busy until a workflow is complete. Let the window be busy with no completion queued. Then
  whatever is clicked, ticked, delivered or shown, in any order: as long as no event of the run reaches a
  workflow of the engine that is complete with it, or was complete before, the window stays busy, reports
  nothing and shows no output. So after a task of the only workflow has failed or was canceled it
  stays busy for ever. Workflows of earlier generations count too, since the window does not ask whose
  completion it is told of.\<close>

theorem presenter_busy_until_done:
  assumes "busy (app_ui a)" and "\<not> list_ex is_post_completion (app_posted a)"
    and "app_run ops dis fm acts a = (a', sigs, evs)"
    and "\<forall>w \<in> set (active_workflows (app_engine a)). (\<forall>ev \<in> set evs. ev_task ev \<notin> set (wf_tasks w)) \<or>
      (0 \<le> wf_completed w \<and> wf_total w \<le> INT_MAX \<and>
       wf_completed w + int (successes (wf_tasks w) evs) < wf_total w)"
  shows "busy (app_ui a') \<and> (\<forall>ok path. Generation_completed ok path \<notin> set sigs) \<and>
    output_path (app_ui a') = output_path (app_ui a)"
proof -
  have "quiet a" using assms(1,2) by (simp add: quiet_def)
  moreover have "\<forall>w \<in> set (active_workflows (app_engine a)). incomplete_after evs w"
    using assms(4) by (simp add: incomplete_after_def)
  ultimately have "quiet a' \<and> \<not> finishes sigs \<and> output_path (app_ui a') = output_path (app_ui a)"
    using assms(3)
  proof (induction acts arbitrary: a sigs evs)
    case Nil
    then show ?case by simp
  next
    case (Cons x acts)
    obtain now act where x: "x = (now, act)" by fastforce
    obtain a1 sigs1 where act: "app_act ops dis fm now act a = (a1, sigs1)" by fastforce
    obtain a2 sigs2 evs2 where run: "app_run ops dis fm acts a1 = (a2, sigs2, evs2)" by (metis prod_cases3)
    let ?ev = "busy_events ops now act a"
    have eqs: "a' = a2" "sigs = sigs1 @ sigs2" "evs = ?ev @ evs2" using Cons.prems(3) x act run by simp_all
    obtain eng calls where d: "deliver (app_engine a) ?ev = (eng, calls)" by fastforce
    note quiet = incomplete_deliver [OF d Cons.prems(2) [unfolded eqs(3)]]
    from app_act_busy [OF Cons.prems(1) act d conjunct1 [OF quiet]] have q1: "quiet a1" "app_engine a1 = eng"
      "\<not> finishes sigs1" "output_path (app_ui a1) = output_path (app_ui a)" by auto
    with Cons.IH [OF q1(1) _ run [folded eqs(1)]] quiet eqs(2) show ?case by simp
  qed
  then show ?thesis by (auto simp: quiet_def finishes_def)
qed

text \<open>The single-threaded scheduler as the host of the window; its stages fail at once.\<close>

definition failing_stage :: "dispatch \<Rightarrow> sim_action list \<times> any_map \<times> void_result" where
  "failing_stage d = ([], Map.empty, Inl (TaskError_Pipeline ''broken''))"

definition simple_ops :: "(dispatch \<Rightarrow> sim_action list \<times> any_map \<times> void_result) \<Rightarrow> simple host_ops" where
  "simple_ops behave = \<lparr>op_submit = simple_submit, op_cancel = simple_cancel, op_alloc = simple_alloc,
     op_tick = \<lambda>now. simple_tick now behave, op_pending = simple_has_pending\<rparr>"

definition plain_format :: ui_format where
  "plain_format = \<lparr>percent_text = \<lambda>x. ''?'', percent_decimal = \<lambda>x. ''?'', clock_text = to_string_int\<rparr>"

definition busy_window :: "simple app" where
  "busy_window = \<lparr>app_ui = create_presenter\<lparr>busy := True, current_trace_id := ''w'', timer_active := True\<rparr>,
     app_engine = create_engine\<lparr>completion_cb := Some 0, progress_cb := Some 1,
       active_workflows := [\<lparr>wf_trace = ''w'', wf_tasks = [''a'', ''b''], wf_completed = 0, wf_total = 2,
         wf_failed = False, wf_output = []\<rparr>]\<rparr>,
     app_sched = create_simple_scheduler empty_heap, app_posted = []\<rparr>"

theorem presenter_busy_until_done_witness:
  "busy (app_ui (fst (app_run (simple_ops failing_stage) (\<lambda>_. 0) plain_format
     [(1, Worker_events (create_simple_scheduler empty_heap)
            [StateEvent ''a'' Succeeded flt_one, StateEvent ''b'' Failed flt_zero]),
      (2, Show_next), (3, Click_cancel), (4, Show_next), (5, Show_next)] busy_window)))"
proof -
  let ?acts = "[(1, Worker_events (create_simple_scheduler empty_heap)
            [StateEvent ''a'' Succeeded flt_one, StateEvent ''b'' Failed flt_zero]),
      (2, Show_next), (3, Click_cancel), (4, Show_next), (5, Show_next)] :: (int \<times> simple action) list"
  let ?run = "app_run (simple_ops failing_stage) (\<lambda>_. 0) plain_format ?acts busy_window"
  obtain a' sigs evs where run: "?run = (a', sigs, evs)" by (metis prod_cases3)
  have "successes [''a'', ''b''] (snd (snd ?run)) = 1" by code_simp
  with run have "successes [''a'', ''b''] evs = 1" by simp
  with presenter_busy_until_done [OF _ _ run] run show ?thesis by (simp add: busy_window_def INT_MAX_def)
qed

text \<open>A click on start is all or nothing for the window. While it is busy only a line is logged.
  Otherwise, if the engine takes the workflow, the window is busy, polls the scheduler and knows
  the trace id; if the engine refuses it, the window is idle again, has reported the failure, and
  has not started to poll. The output of the last generation is gone in both cases.\<close>

theorem start_generation_outcome:
  assumes "start_generation ops dis now story style n a = (a', sigs)"
  shows "(busy (app_ui a) \<longrightarrow> sigs = [Log_changed] \<and> a' = a\<lparr>app_ui := app_ui a'\<rparr> \<and>
      app_ui a' = (app_ui a)\<lparr>log_text := log_text (app_ui a) @ ''Already generating; ignoring request.'' @ [newline]\<rparr>) \<and>
    (\<not> busy (app_ui a) \<longrightarrow> output_path (app_ui a') = [] \<and>
      (case snd (snd (snd (start_workflow (op_submit ops) (op_cancel ops) (op_alloc ops) dis now
               (app_engine a) (app_sched a) story style n))) of
         Inr trace \<Rightarrow> busy (app_ui a') \<and> timer_active (app_ui a') \<and> current_trace_id (app_ui a') = trace \<and>
           (\<forall>ok path. Generation_completed ok path \<notin> set sigs)
       | Inl e \<Rightarrow> \<not> busy (app_ui a') \<and> timer_active (app_ui a') = timer_active (app_ui a) \<and>
           current_trace_id (app_ui a') = current_trace_id (app_ui a) \<and> last sigs = Generation_completed False []))"
proof (cases "busy (app_ui a)")
  case True
  with assms show ?thesis by (auto simp: start_generation_def append_log_def)
next
  case False
  obtain eng s calls r where st: "start_workflow (op_submit ops) (op_cancel ops) (op_alloc ops) dis now
      (app_engine a) (app_sched a) story style n = (eng, s, calls, r)" by (metis prod_cases4)
  obtain p1 g1 where t: "ui_all (start_texts story style n) (app_ui a) = (p1, g1)" by fastforce
  note f1 = start_texts_effect [OF t]
  obtain p2 g2 where u: "ui_all (case r of Inl e \<Rightarrow> start_failed e | Inr trace \<Rightarrow> start_succeeded trace) p1 = (p2, g2)"
    by fastforce
  have a': "app_ui a' = p2" "sigs = g1 @ g2"
    using assms False st t u by (auto simp: start_generation_def)
  have f2: "p2 = fst (ui_all (case r of Inl e \<Rightarrow> start_failed e | Inr trace \<Rightarrow> start_succeeded trace) p1)"
    "g2 = snd (ui_all (case r of Inl e \<Rightarrow> start_failed e | Inr trace \<Rightarrow> start_succeeded trace) p1)"
    using u by simp_all
  show ?thesis
  proof (cases r)
    case (Inl e)
    with False st a' f1 f2 show ?thesis by (simp add: start_failed_def ui_then_fst ui_then_snd)
  next
    case (Inr trace)
    with f2 f1 have "busy p2 \<and> timer_active p2 \<and> current_trace_id p2 = trace \<and> output_path p2 = [] \<and> \<not> finishes g2"
      by (simp add: start_succeeded_def ui_then_fst ui_then_snd)
    with False st a' f1 Inr show ?thesis by (auto simp: finishes_def)
  qed
qed

theorem start_generation_outcome_witness:
  "\<not> busy (app_ui (fst (start_generation (simple_ops failing_stage) (\<lambda>_. 0) 5 ''once'' ''ink'' 0
     (create_app (\<lambda>ty. Some (create_mock_stage ty)) (create_simple_scheduler empty_heap)))))"
proof -
  let ?a = "create_app (\<lambda>ty. Some (create_mock_stage ty)) (create_simple_scheduler empty_heap)"
  obtain a' sigs where g: "start_generation (simple_ops failing_stage) (\<lambda>_. 0) 5 ''once'' ''ink'' 0 ?a = (a', sigs)"
    by fastforce
  have "\<exists>e. snd (snd (snd (start_workflow (op_submit (simple_ops failing_stage)) (op_cancel (simple_ops failing_stage))
      (op_alloc (simple_ops failing_stage)) (\<lambda>_. 0) 5 (app_engine ?a) (app_sched ?a) ''once'' ''ink'' 0))) = Inl e"
    by (simp add: start_workflow_def Let_def create_app_def set_stage_factory_def split: prod.splits)
  with start_generation_outcome [OF g] g show ?thesis
    by (auto simp: create_app_def create_presenter_def)
qed

text \<open>What the window shows is what was reported. After a report the shown progress is within 0.0011 of it
  if it is a number, a report that is not a number changes nothing, the change is signalled
  exactly when it is made, and a window that shows a number never comes to show none.\<close>

theorem shown_progress_close:
  assumes "shown_progress p \<noteq> NaN"
  shows "(case set_shown_progress x p of (p', sigs) \<Rightarrow>
      shown_progress p' \<noteq> NaN \<and> (sigs = [Progress_changed] \<longleftrightarrow> shown_progress p' \<noteq> shown_progress p) \<and>
      (case x of NaN \<Rightarrow> p' = p
       | Fin b \<Rightarrow> (\<exists>c. shown_progress p' = Fin c \<and> \<bar>c - b\<bar> < 11 / 10000)
       | _ \<Rightarrow> shown_progress p' = x))"
  using assms by (cases "shown_progress p"; cases x) (auto simp: set_shown_progress_def progress_step_def)

theorem shown_progress_close_witness:
  "shown_progress (fst (set_shown_progress (Fin (1 / 2000)) create_presenter)) = flt_zero \<and>
   snd (set_shown_progress NaN create_presenter) = []"
proof -
  have n: "shown_progress create_presenter \<noteq> NaN" by (simp add: create_presenter_def)
  from shown_progress_close [OF n, of NaN] have "snd (set_shown_progress NaN create_presenter) = []"
    by (simp add: set_shown_progress_def create_presenter_def)
  then show ?thesis by (simp add: set_shown_progress_def create_presenter_def progress_step_def)
qed

section \<open>Success reaches the window\<close>

lemma ui_all_snoc: "ui_all (fs @ [f]) p = ui_then (ui_all fs) f p"
proof (induction fs arbitrary: p)
  case Nil
  show ?case by (simp add: ui_then_def split: prod.splits)
next
  case (Cons g fs)
  then show ?case by (simp add: ui_then_def split: prod.splits)
qed

lemma run_show_all:
  "app_run ops dis fm (replicate (length (app_posted a)) (now, Show_next)) a =
    (a\<lparr>app_ui := fst (ui_all (map (show_posted fm (clock_text fm now)) (app_posted a)) (app_ui a)),
       app_posted := []\<rparr>,
     snd (ui_all (map (show_posted fm (clock_text fm now)) (app_posted a)) (app_ui a)), [])"
proof (induction "app_posted a" arbitrary: a)
  case Nil
  then have "app_posted a = []" by simp
  then show ?case by simp
next
  case (Cons q qs)
  let ?clk = "clock_text fm now"
  obtain p1 s1 where q1: "show_posted fm ?clk q (app_ui a) = (p1, s1)" by fastforce
  let ?a1 = "a\<lparr>app_ui := p1, app_posted := qs\<rparr>"
  have posted: "app_posted a = q # qs" using Cons.hyps(2) by simp
  have "app_run ops dis fm (replicate (length (app_posted ?a1)) (now, Show_next)) ?a1 =
    (?a1\<lparr>app_ui := fst (ui_all (map (show_posted fm ?clk) (app_posted ?a1)) (app_ui ?a1)), app_posted := []\<rparr>,
     snd (ui_all (map (show_posted fm ?clk) (app_posted ?a1)) (app_ui ?a1)), [])"
    by (rule Cons.hyps(1)) simp
  with posted q1 show ?case by (simp add: run_posted_def ui_then_def split: prod.splits)
qed

lemma show_all_completion:
  "busy (fst (ui_all (map (show_posted fm clock) (qs @ [Post_completion True path])) p)) = False"
  "output_path (fst (ui_all (map (show_posted fm clock) (qs @ [Post_completion True path])) p)) = path"
  "Generation_completed True path \<in> set (snd (ui_all (map (show_posted fm clock) (qs @ [Post_completion True path])) p))"
  using show_completion [where fm = fm and clock = clock and ok = True and path = path
      and p = "fst (ui_all (map (show_posted fm clock) qs) p)"]
  by (simp_all only: map_append list.map ui_all_snoc ui_then_fst ui_then_snd set_append if_True Un_iff simp_thms)

lemma deliver_last_complete:
  assumes "active_workflows eng = us @ [w]" "\<forall>u \<in> set us. \<forall>e \<in> set (evs @ [ev]). ev_task e \<notin> set (wf_tasks u)"
    and "0 \<le> wf_completed w" "wf_total w \<le> INT_MAX"
    and "wf_completed w + int (successes (wf_tasks w) evs) + 1 = wf_total w"
    and ev: "ev_task ev \<in> set (wf_tasks w)" "ev_state ev = Succeeded"
    and cb: "completion_cb eng = Some k"
    and d: "deliver eng (evs @ [ev]) = (eng', calls)"
  shows "\<exists>calls1 trace. calls = calls1 @ [Completion_call k trace True mock_output_path]"
proof -
  obtain eng1 c1 where d1: "deliver eng evs = (eng1, c1)" by fastforce
  from deliver_last_incomplete [OF assms(1) _ assms(3,4) _ d1] assms(2,5) obtain w1 where
    w1: "active_workflows eng1 = us @ [w1]" "wf_tasks w1 = wf_tasks w" "wf_total w1 = wf_total w"
      "wf_completed w1 + 1 = wf_total w1" by auto
  have keep: "completion_cb (fst (deliver e xs)) = completion_cb e" for e xs
    by (induction xs arbitrary: e) (simp_all add: handle_state_change_def split_beta)
  have cb1: "completion_cb eng1 = Some k" using keep [of eng evs] d1 cb by simp
  obtain wfs c2 where h: "handle_in (Some k) (progress_cb eng1) (us @ [w1]) ev = (wfs, c2)" by fastforce
  from handle_in_last [OF _ h] ev(1) w1(2) assms(2) obtain w2 where
    w2: "workflow_event (Some k) (progress_cb eng1) w1 ev = (w2, c2)" by auto
  have "i32 (wf_completed w1 + 1) = wf_total w1"
    using w1(3,4) assms(3-5) by (simp add: i32_id INT_MAX_def)
  with w2 ev(2) have "\<exists>cs tr. c2 = cs @ [Completion_call k tr True mock_output_path]"
    by (auto simp: workflow_event_def Let_def)
  moreover have "calls = c1 @ c2"
    using d d1 h w1(1) cb1 by (simp add: deliver_append handle_state_change_def)
  ultimately show ?thesis by (metis append_assoc)
qed

text \<open>When the last missing success is delivered, the window finds out: once its thread has run
  what was posted, it is idle, shows the output and has reported success, and nothing is left to
  run.\<close>

theorem presenter_shows_success:
  assumes "active_workflows (app_engine a) = us @ [w]"
    and "\<forall>u \<in> set us. \<forall>e \<in> set (evs @ [ev]). ev_task e \<notin> set (wf_tasks u)"
    and "0 \<le> wf_completed w" and "wf_total w \<le> INT_MAX"
    and "wf_completed w + int (successes (wf_tasks w) evs) + 1 = wf_total w"
    and "ev_task ev \<in> set (wf_tasks w)" and "ev_state ev = Succeeded"
    and "completion_cb (app_engine a) = Some k"
    and "b = deliver_to_app (evs @ [ev]) a"
    and "app_run ops dis fm (replicate (length (app_posted b)) (now, Show_next)) b = (c, sigs, rest)"
  shows "\<not> busy (app_ui c) \<and> output_path (app_ui c) = mock_output_path \<and> app_posted c = [] \<and>
    Generation_completed True mock_output_path \<in> set sigs"
proof -
  obtain eng calls where d: "deliver (app_engine a) (evs @ [ev]) = (eng, calls)" by fastforce
  from deliver_last_complete [OF assms(1-8) d] obtain calls1 trace where
    calls: "calls = calls1 @ [Completion_call k trace True mock_output_path]" by blast
  have b: "app_posted b = (app_posted a @ map post_of calls1) @ [Post_completion True mock_output_path]"
    using assms(9) d calls by (simp add: deliver_to_app_def)
  let ?shown = "ui_all (map (show_posted fm (clock_text fm now)) (app_posted b)) (app_ui b)"
  have "c = b\<lparr>app_ui := fst ?shown, app_posted := []\<rparr>" "sigs = snd ?shown"
    using assms(10) run_show_all [of ops dis fm b now] by simp_all
  with show_all_completion [where fm = fm and clock = "clock_text fm now" and
      qs = "app_posted a @ map post_of calls1" and path = mock_output_path and p = "app_ui b"]
  show ?thesis unfolding b by simp
qed

theorem presenter_shows_success_witness:
  "\<exists>c sigs rest. app_run (simple_ops failing_stage) (\<lambda>_. 0) plain_format
     (replicate (length (app_posted (deliver_to_app ([StateEvent ''b'' Succeeded flt_one] @
        [StateEvent ''a'' Succeeded flt_one]) busy_window))) (9, Show_next))
     (deliver_to_app ([StateEvent ''b'' Succeeded flt_one] @ [StateEvent ''a'' Succeeded flt_one]) busy_window)
     = (c, sigs, rest) \<and> \<not> busy (app_ui c)"
proof -
  let ?w = "\<lparr>wf_trace = ''w'', wf_tasks = [''a'', ''b''], wf_completed = 0, wf_total = 2,
    wf_failed = False, wf_output = []\<rparr>"
  let ?b = "deliver_to_app ([StateEvent ''b'' Succeeded flt_one] @ [StateEvent ''a'' Succeeded flt_one]) busy_window"
  obtain c sigs rest where run: "app_run (simple_ops failing_stage) (\<lambda>_. 0) plain_format
     (replicate (length (app_posted ?b)) (9, Show_next)) ?b = (c, sigs, rest)" by (metis prod_cases3)
  from presenter_shows_success [OF _ _ _ _ _ _ _ _ refl run, where us = "[]" and w = ?w and k = 0]
  have "\<not> busy (app_ui c)" by (simp add: busy_window_def INT_MAX_def successes_def)
  with run show ?thesis by blast
qed

text \<open>C23: A late event ends the wrong generation. Let a workflow of the engine be complete and one more event of
  one of its tasks be delivered, such as a report that another worker still had in hand. Then, once the
  window has run what was posted, it is idle, shows the output and has reported success, whatever
  generation it was busy with and whatever the scheduler still has to do for it.\<close>

theorem late_event_ends_generation:
  assumes "active_workflows (app_engine a) = us @ w # vs" and "\<forall>u \<in> set us. ev_task ev \<notin> set (wf_tasks u)"
    and "ev_task ev \<in> set (wf_tasks w)" and "ev_state ev \<noteq> Succeeded" and "wf_completed w = wf_total w"
    and "completion_cb (app_engine a) = Some k"
    and "b = deliver_to_app [ev] a"
    and "app_run ops dis fm (replicate (length (app_posted b)) (now, Show_next)) b = (c, sigs, rest)"
  shows "\<not> busy (app_ui c) \<and> output_path (app_ui c) = mock_output_path \<and>
    Generation_completed True mock_output_path \<in> set sigs \<and> app_sched c = app_sched a"
proof -
  have "handle_in (Some k) pcb (us @ w # vs) ev =
      (us @ fst (workflow_event (Some k) pcb w ev) # vs, snd (workflow_event (Some k) pcb w ev))" for pcb
    using assms(2) by (induction us) (simp_all add: assms(3) split_beta)
  moreover have "\<exists>cs tr. snd (workflow_event (Some k) pcb w ev) = cs @ [Completion_call k tr True mock_output_path]" for pcb
    using assms(4,5) by (simp add: workflow_event_def Let_def)
  ultimately obtain eng cs tr where d: "deliver (app_engine a) [ev] = (eng, cs @ [Completion_call k tr True mock_output_path])"
    using assms(1,6) by (auto simp: handle_state_change_def split: prod.splits) metis
  then have b: "app_posted b = (app_posted a @ map post_of cs) @ [Post_completion True mock_output_path]"
    "app_sched b = app_sched a" using assms(7) by (simp_all add: deliver_to_app_def)
  let ?shown = "ui_all (map (show_posted fm (clock_text fm now)) (app_posted b)) (app_ui b)"
  have "c = b\<lparr>app_ui := fst ?shown, app_posted := []\<rparr>" "sigs = snd ?shown"
    using assms(8) run_show_all [of ops dis fm b now] by simp_all
  with b(2) show_all_completion [where fm = fm and clock = "clock_text fm now" and
      qs = "app_posted a @ map post_of cs" and path = mock_output_path and p = "app_ui b"]
  show ?thesis unfolding b(1) by simp
qed

text \<open>The window is busy with the workflow \<open>w\<close> when a report of a task of \<open>old\<close> arrives.\<close>

definition second_window :: "simple app" where
  "second_window = busy_window\<lparr>app_engine := (app_engine busy_window)\<lparr>active_workflows :=
     \<lparr>wf_trace = ''old'', wf_tasks = [''x''], wf_completed = 1, wf_total = 1, wf_failed = False,
      wf_output = mock_output_path\<rparr> # active_workflows (app_engine busy_window)\<rparr>\<rparr>"

theorem late_event_ends_generation_witness:
  "\<exists>c sigs rest. app_run (simple_ops failing_stage) (\<lambda>_. 0) plain_format
     (replicate (length (app_posted (deliver_to_app [StateEvent ''x'' Ready flt_zero] second_window))) (9, Show_next))
     (deliver_to_app [StateEvent ''x'' Ready flt_zero] second_window) = (c, sigs, rest) \<and>
   busy (app_ui second_window) \<and> current_trace_id (app_ui second_window) = ''w'' \<and> \<not> busy (app_ui c)"
proof -
  let ?w = "\<lparr>wf_trace = ''old'', wf_tasks = [''x''], wf_completed = 1, wf_total = 1,
    wf_failed = False, wf_output = mock_output_path\<rparr>"
  let ?b = "deliver_to_app [StateEvent ''x'' Ready flt_zero] second_window"
  obtain c sigs rest where run: "app_run (simple_ops failing_stage) (\<lambda>_. 0) plain_format
     (replicate (length (app_posted ?b)) (9, Show_next)) ?b = (c, sigs, rest)" by (metis prod_cases3)
  have "active_workflows (app_engine second_window) = [] @ ?w # active_workflows (app_engine busy_window)"
    by (simp add: second_window_def)
  from late_event_ends_generation [OF this _ _ _ _ _ refl run, where k = 0]
  have "\<not> busy (app_ui c)" by (simp add: second_window_def busy_window_def)
  moreover have "busy (app_ui second_window)" "current_trace_id (app_ui second_window) = ''w''"
    by (simp_all add: second_window_def busy_window_def)
  ultimately show ?thesis using run by blast
qed

end
