(* ===== verification/Simple_Liveness.thy ===== *)
theory Simple_Liveness
  imports Simple_Safety
begin

text \<open>
  The single-threaded scheduler makes progress: as long as stages succeed and nobody interferes,
  every tick finishes one task, until none is left. The reason is the order of submission: a task
  can only name tasks submitted before it, so the first unfinished task is never blocked.
\<close>

section \<open>The order of submission\<close>

fun deps_backward :: "string list \<Rightarrow> entry list \<Rightarrow> bool" where
  "deps_backward seen [] = True"
| "deps_backward seen (e # es) =
     (set (deps (etask e)) \<subseteq> set seen \<and> deps_backward (seen @ [eid e]) es)"

definition unfinished :: "entry list \<Rightarrow> nat" where
  "unfinished es = length (filter (\<lambda>e. estate e \<noteq> Succeeded) es)"

text \<open>Nothing failed, was canceled or paused, nothing runs, and what is queued waits for something.\<close>

definition drainable :: "entry list \<Rightarrow> bool" where
  "drainable es \<longleftrightarrow> distinct (map eid es) \<and> deps_backward [] es \<and>
     (\<forall>e \<in> set es. estate e \<in> {Queued, Ready, Succeeded} \<and> (estate e = Queued \<longrightarrow> deps (etask e) \<noteq> []))"

lemma deps_backward_cong:
  "map (\<lambda>e. (eid e, deps (etask e))) es = map (\<lambda>e. (eid e, deps (etask e))) es' \<Longrightarrow>
    deps_backward seen es = deps_backward seen es'"
proof (induction es arbitrary: es' seen)
  case Nil
  then show ?case by simp
next
  case (Cons e es)
  then obtain e' es1 where "es' = e' # es1" by (cases es') auto
  with Cons.prems Cons.IH [of es1] show ?case by simp
qed

lemma deps_backward_append:
  "deps_backward seen (es @ [e]) \<longleftrightarrow>
    deps_backward seen es \<and> set (deps (etask e)) \<subseteq> set seen \<union> eid ` set es"
  by (induction es arbitrary: seen) auto

lemma deps_backward_split:
  "deps_backward seen (us @ e # vs) \<Longrightarrow> set (deps (etask e)) \<subseteq> set seen \<union> eid ` set us"
proof (induction us arbitrary: seen)
  case (Cons u us)
  from Cons.IH [of "seen @ [eid u]"] Cons.prems show ?case by auto
qed simp

section \<open>One tick\<close>

lemma first_unfinished_ready:
  assumes d: "drainable es" and u: "unfinished es \<noteq> 0"
  shows "\<exists>e \<in> set (map (promoted now es) es). estate e = Ready"
proof -
  have "\<exists>e \<in> set es. estate e \<noteq> Succeeded"
    using u by (auto simp: unfinished_def filter_empty_conv)
  then obtain us e vs where es: "es = us @ e # vs" "estate e \<noteq> Succeeded" "\<forall>x \<in> set us. estate x = Succeeded"
    using split_list_first_prop [of es "\<lambda>e. estate e \<noteq> Succeeded"] by auto
  have "estate (promoted now es e) = Ready"
  proof (cases "estate e = Ready")
    case True
    then show ?thesis by (simp add: promoted_state)
  next
    case False
    with es(1,2) d have q: "estate e = Queued" "deps (etask e) \<noteq> []" by (auto simp: drainable_def)
    have "set (deps (etask e)) \<subseteq> eid ` set us"
      using d es(1) deps_backward_split [of "[]" us e vs] by (auto simp: drainable_def)
    have "\<exists>x. find_entry es j = Some x \<and> estate x = Succeeded" if "j \<in> set (deps (etask e))" for j
    proof -
      from that \<open>set (deps (etask e)) \<subseteq> eid ` set us\<close> obtain x where x: "x \<in> set us" "j = eid x" by blast
      with es(1) d have "find_entry es j = Some x" by (simp add: drainable_def find_entry_in)
      with x es(3) show ?thesis by simp
    qed
    then have "promotable es e" using q by (simp add: promotable_def all_deps_met_iff)
    then show ?thesis by (simp add: promoted_state)
  qed
  with es(1) show ?thesis by auto
qed

text \<open>What the rest of the argument needs of an update: ids and dependencies stay.\<close>

lemma update_entry_view:
  assumes "find_entry es i = Some e" "eid (f e) = eid e" "deps (etask (f e)) = deps (etask e)"
  shows "map (\<lambda>e. (eid e, deps (etask e))) (update_entry i f es) = map (\<lambda>e. (eid e, deps (etask e))) es"
  using assms by (induction es) (auto split: if_splits)

lemma update_entry_set:
  assumes "find_entry es i = Some e" "distinct (map eid es)"
  shows "set (update_entry i f es) = insert (f e) (set es - {e})"
  using assms
proof (induction es)
  case Nil
  then show ?case by simp
next
  case (Cons x es)
  show ?case
  proof (cases "eid x = i")
    case True
    then have "e = x" "x \<notin> set es" using Cons.prems by auto
    with True show ?thesis by auto
  next
    case False
    then have f: "find_entry es i = Some e" using Cons.prems(1) by simp
    then have "e \<noteq> x" "eid e = i" using False find_entry_Some [OF f] by auto
    with Cons.IH [OF f] Cons.prems(2) False show ?thesis by auto
  qed
qed

lemma update_entry_unfinished:
  assumes "find_entry es i = Some e"
  shows "unfinished (update_entry i f es) + (if estate e \<noteq> Succeeded then 1 else 0) =
    unfinished es + (if estate (f e) \<noteq> Succeeded then 1 else 0)"
  using assms by (induction es) (auto simp: unfinished_def split: if_splits)

lemma drainable_promoted:
  assumes "drainable es"
  shows "drainable (map (promoted now es) es)" "unfinished (map (promoted now es) es) = unfinished es"
    "map eid (map (promoted now es) es) = map eid es"
proof -
  have "map (\<lambda>e. (eid e, deps (etask e))) (map (promoted now es) es) = map (\<lambda>e. (eid e, deps (etask e))) es"
    by simp
  from deps_backward_cong [OF this, of "[]"] assms show "drainable (map (promoted now es) es)"
    by (auto simp: drainable_def comp_def promoted_state)
  have "(estate (promoted now es e) \<noteq> Succeeded) = (estate e \<noteq> Succeeded)" for e
    by (simp add: promoted_state promotable_def)
  then show "unfinished (map (promoted now es) es) = unfinished es"
    by (simp add: unfinished_def filter_map comp_def)
  show "map eid (map (promoted now es) es) = map eid es" by simp
qed

text \<open>The state while the stage of \<open>i\<close> runs.\<close>

definition running_only :: "string \<Rightarrow> entry list \<Rightarrow> bool" where
  "running_only i es \<longleftrightarrow> distinct (map eid es) \<and> deps_backward [] es \<and>
     (\<exists>e. find_entry es i = Some e \<and> estate e = Running) \<and>
     (\<forall>e \<in> set es. eid e \<noteq> i \<longrightarrow>
        estate e \<in> {Queued, Ready, Succeeded} \<and> (estate e = Queued \<longrightarrow> deps (etask e) \<noteq> []))"

lemma update_keeps_order:
  assumes "distinct (map eid es)" "deps_backward [] es" "find_entry es i = Some e"
    and "eid (f e) = eid e" "deps (etask (f e)) = deps (etask e)"
  shows "distinct (map eid (update_entry i f es))" "deps_backward [] (update_entry i f es)"
    "map eid (update_entry i f es) = map eid es" "find_entry (update_entry i f es) i = Some (f e)"
proof -
  have i: "eid e = i" using find_entry_Some [OF assms(3)] by simp
  with assms(4) show ids: "map eid (update_entry i f es) = map eid es"
    by (intro map_eid_update [OF assms(3)]) simp
  with assms(1) show "distinct (map eid (update_entry i f es))" by simp
  show "deps_backward [] (update_entry i f es)"
    using deps_backward_cong [OF update_entry_view [where f = f, OF assms(3-5)]] assms(2) by blast
  show "find_entry (update_entry i f es) i = Some (f e)"
    using i assms(4) find_entry_update_same [OF assms(3), of f i] by simp
qed

lemma start_running:
  assumes d: "drainable es" and b: "b \<in> set es" "estate b = Ready"
  shows "running_only (eid b) (update_entry (eid b) (on_task (\<lambda>t. transition_ignoring now t Running)) es)"
    "map eid (update_entry (eid b) (on_task (\<lambda>t. transition_ignoring now t Running)) es) = map eid es"
    "unfinished (update_entry (eid b) (on_task (\<lambda>t. transition_ignoring now t Running)) es) = unfinished es"
proof -
  let ?f = "on_task (\<lambda>t. transition_ignoring now t Running)"
  have dist: "distinct (map eid es)" "deps_backward [] es" using d by (auto simp: drainable_def)
  have f: "find_entry es (eid b) = Some b" using dist(1) b(1) by (rule find_entry_in)
  have fb: "eid (?f b) = eid b" "deps (etask (?f b)) = deps (etask b)" "estate (?f b) = Running"
    using b(2) by (simp_all add: transition_ignoring_eq)
  note keep = update_keeps_order [where f = ?f, OF dist f fb(1,2)]
  have "set (update_entry (eid b) ?f es) = insert (?f b) (set es - {b})"
    by (rule update_entry_set [OF f dist(1)])
  with keep fb d show "running_only (eid b) (update_entry (eid b) ?f es)"
    by (auto simp: running_only_def drainable_def)
  show "map eid (update_entry (eid b) ?f es) = map eid es" by (rule keep(3))
  show "unfinished (update_entry (eid b) ?f es) = unfinished es"
    using update_entry_unfinished [OF f, of ?f] fb(3) b(2) by simp
qed

lemma report_progress:
  assumes "running_only i es"
  shows "running_only i (update_entry i (on_task (\<lambda>t. set_progress t p)) es)"
    "map eid (update_entry i (on_task (\<lambda>t. set_progress t p)) es) = map eid es"
    "unfinished (update_entry i (on_task (\<lambda>t. set_progress t p)) es) = unfinished es"
proof -
  let ?f = "on_task (\<lambda>t. set_progress t p)"
  from assms obtain e where e: "find_entry es i = Some e" "estate e = Running"
    and dist: "distinct (map eid es)" "deps_backward [] es" by (auto simp: running_only_def)
  have fe: "eid (?f e) = eid e" "deps (etask (?f e)) = deps (etask e)" "estate (?f e) = Running"
    using e(2) by simp_all
  note keep = update_keeps_order [where f = ?f, OF dist e(1) fe(1,2)]
  have "set (update_entry i ?f es) = insert (?f e) (set es - {e})"
    by (rule update_entry_set [OF e(1) dist(1)])
  moreover have "eid (?f e) = i" using fe(1) find_entry_Some [OF e(1)] by simp
  ultimately show "running_only i (update_entry i ?f es)"
    using keep fe assms by (auto simp: running_only_def)
  show "map eid (update_entry i ?f es) = map eid es" by (rule keep(3))
  show "unfinished (update_entry i ?f es) = unfinished es"
    using update_entry_unfinished [OF e(1), of ?f] fe(3) e(2) by simp
qed

lemma finish_running:
  assumes "running_only i (entries s)" "tick_finish now s i outs Ok = (s', evs)"
  shows "drainable (entries s')" "map eid (entries s') = map eid (entries s)"
    "unfinished (entries s') + 1 = unfinished (entries s)" "evs = [StateEvent i Succeeded flt_one]"
proof -
  let ?es = "entries s"
  let ?f = "\<lambda>e. e\<lparr>etask := set_progress (transition_ignoring now (etask e) Succeeded) flt_one,
                 elast_outputs := outs\<rparr>"
  from assms(1) obtain e where e: "find_entry ?es i = Some e" "estate e = Running"
    and dist: "distinct (map eid ?es)" "deps_backward [] ?es" by (auto simp: running_only_def)
  have s': "entries s' = update_entry i ?f ?es" "evs = [StateEvent i Succeeded flt_one]"
    using assms(2) e(1) by (auto simp: tick_finish_def)
  have fe: "eid (?f e) = eid e" "deps (etask (?f e)) = deps (etask e)" "estate (?f e) = Succeeded"
    using e(2) by (simp_all add: transition_ignoring_eq)
  note keep = update_keeps_order [where f = ?f, OF dist e(1) fe(1,2)]
  have "set (update_entry i ?f ?es) = insert (?f e) (set ?es - {e})"
    by (rule update_entry_set [OF e(1) dist(1)])
  moreover have "x = e" if "x \<in> set ?es" "eid x = i" for x
    using find_entry_in [OF dist(1) that(1)] that(2) e(1) by simp
  ultimately show "drainable (entries s')"
    using keep fe assms(1) s'(1) by (auto simp: drainable_def running_only_def)
  show "map eid (entries s') = map eid ?es" using keep(3) s'(1) by simp
  show "unfinished (entries s') + 1 = unfinished ?es"
    using update_entry_unfinished [OF e(1), of ?f] fe(3) e(2) s'(1) by simp
  show "evs = [StateEvent i Succeeded flt_one]" by (rule s'(2))
qed

lemma run_progress:
  assumes "running_only i (entries s)" "run_actions now i s (map Act_progress ps) = (s', evs)"
  shows "running_only i (entries s') \<and> map eid (entries s') = map eid (entries s) \<and>
    unfinished (entries s') = unfinished (entries s) \<and> (\<forall>ev \<in> set evs. ev_task ev = i \<and> ev_state ev = Running)"
  using assms
proof (induction ps arbitrary: s evs s')
  case Nil
  then show ?case by simp
next
  case (Cons p ps)
  let ?s1 = "s\<lparr>entries := update_entry i (on_task (\<lambda>t. set_progress t p)) (entries s)\<rparr>"
  obtain s2 ev2 where r: "run_actions now i ?s1 (map Act_progress ps) = (s2, ev2)" by fastforce
  from Cons.prems(1) obtain e where "find_entry (entries s) i = Some e" by (auto simp: running_only_def)
  with Cons.prems(2) r have eqs: "s' = s2" "evs = StateEvent i Running p # ev2"
    by (simp_all add: simple_progress_def)
  note rep = report_progress [OF Cons.prems(1), of p]
  have "running_only i (entries ?s1)" using rep(1) by simp
  from Cons.IH [OF this r] rep eqs show ?case by simp
qed

text \<open>Stages that succeed, and of which nobody hears but by their progress.\<close>

definition succeeding :: "(dispatch \<Rightarrow> sim_action list \<times> any_map \<times> void_result) \<Rightarrow> bool" where
  "succeeding behave \<longleftrightarrow> (\<forall>d. \<exists>ps outs. behave d = (map Act_progress ps, outs, Ok))"

lemma tick_finishes_one:
  assumes d: "drainable (entries s)" and u: "unfinished (entries s) \<noteq> 0" and b: "succeeding behave"
    and t: "simple_tick now behave s = (s', evs)"
  shows "drainable (entries s') \<and> unfinished (entries s') + 1 = unfinished (entries s) \<and>
    map eid (entries s') = map eid (entries s) \<and>
    (\<exists>i evs0. evs = evs0 @ [StateEvent i Succeeded flt_one] \<and> i \<in> eid ` set (entries s) \<and>
       (\<forall>ev \<in> set evs0. ev_state ev \<noteq> Succeeded \<and> ev_task ev \<in> eid ` set (entries s)))"
proof -
  let ?es = "map (promoted now (entries s)) (entries s)"
  let ?pevs = "map (\<lambda>e. StateEvent (eid e) Ready flt_zero) (filter (promotable (entries s)) (entries s))"
  note pr = drainable_promoted [OF d, of now]
  from first_unfinished_ready [OF d u] obtain r where "r \<in> set ?es" "estate r = Ready" by blast
  then have "filter (\<lambda>e. estate e = Ready) ?es \<noteq> []" by (auto simp: filter_empty_conv)
  then have "fold_best more_urgent None (filter (\<lambda>e. estate e = Ready) ?es) \<noteq> None"
    by (simp only: fold_best_None_iff not_False_eq_True)
  then have "pick_best None ?es \<noteq> None" unfolding pick_best_fold .
  then obtain b1 where b1: "pick_best None ?es = Some b1" by blast
  then have bin: "b1 \<in> set ?es" "estate b1 = Ready"
    using urgency.fold_best_in [of "filter (\<lambda>e. estate e = Ready) ?es" b1] by (auto simp: pick_best_fold)
  note run = start_running [OF pr(1) bin, of now]
  let ?es1 = "update_entry (eid b1) (on_task (\<lambda>t. transition_ignoring now t Running)) ?es"
  let ?s1 = "s\<lparr>entries := ?es1\<rparr>"
  obtain dd where tb: "tick_begin now s = (?s1, ?pevs @ [StateEvent (eid b1) Running flt_zero], Some dd)"
    and dd: "dtask dd = eid b1"
    using b1 by (simp add: tick_begin_def promote_eq Let_def)
  from b obtain ps outs where bh: "behave dd = (map Act_progress ps, outs, Ok)"
    unfolding succeeding_def by blast
  obtain s2 ev2 where ra: "run_actions now (eid b1) ?s1 (map Act_progress ps) = (s2, ev2)" by fastforce
  obtain s3 ev3 where tf: "tick_finish now s2 (eid b1) outs Ok = (s3, ev3)" by fastforce
  have eqs: "s' = s3" "evs = (?pevs @ [StateEvent (eid b1) Running flt_zero]) @ ev2 @ ev3"
    using t tb bh dd ra tf by (simp_all add: simple_tick_def)
  have r1: "running_only (eid b1) (entries ?s1)" using run(1) by simp
  note mid = run_progress [OF r1 ra]
  note fin = finish_running [OF conjunct1 [OF mid] tf]
  have ids: "map eid (entries s') = map eid (entries s)"
    using fin(2) mid run(2) pr(3) eqs(1) by simp
  have i: "eid b1 \<in> eid ` set (entries s)"
    using bin(1) pr(3) by (auto simp: image_iff)
  have "unfinished (entries s') + 1 = unfinished (entries s)"
    using fin(3) mid run(3) pr(2) eqs(1) by simp
  with fin(1,4) eqs ids i mid show ?thesis
    by (intro conjI exI [of _ "eid b1"] exI [of _ "?pevs @ [StateEvent (eid b1) Running flt_zero] @ ev2"]) auto
qed

lemma tick_idle:
  assumes "unfinished (entries s) = 0"
  shows "simple_tick now behave s = (s, [])"
proof -
  have all: "\<forall>e \<in> set (entries s). estate e = Succeeded"
    using assms by (auto simp: unfinished_def filter_empty_conv)
  then have p: "promoted now (entries s) e = e \<and> \<not> promotable (entries s) e" if "e \<in> set (entries s)" for e
    using that by (auto simp: promoted_def promotable_def)
  then have "map (promoted now (entries s)) (entries s) = entries s"
    "filter (promotable (entries s)) (entries s) = []" by (simp_all add: map_idI filter_empty_conv)
  moreover have "filter (\<lambda>e. estate e = Ready) (entries s) = []" using all by (simp add: filter_empty_conv)
  ultimately show ?thesis
    by (simp add: simple_tick_def tick_begin_def promote_eq pick_best_fold fold_best_None_iff)
qed

section \<open>Submissions and ticks\<close>

lemma submit_drainable:
  assumes d: "drainable (entries s)" and q: "tstate t = Queued"
    and sub: "simple_submit now s t stg = (s', evs, r)"
  shows "drainable (entries s')" "r = Ok \<Longrightarrow> map eid (entries s') = map eid (entries s) @ [task_id t]"
    "r = Ok \<Longrightarrow> unfinished (entries s') = unfinished (entries s) + 1" "evs = []"
proof -
  have "drainable (entries s') \<and> (r = Ok \<longrightarrow> map eid (entries s') = map eid (entries s) @ [task_id t] \<and>
      unfinished (entries s') = unfinished (entries s) + 1) \<and> evs = []"
  proof (cases r)
    case (Inl e)
    with sub have "simple_submit now s t stg = (s', evs, Inl e)" by simp
    from simple_submit_Err [OF this] d Inl show ?thesis by simp
  next
    case (Inr u)
    with sub have ok: "simple_submit now s t stg = (s', evs, Ok)" by simp
    let ?t = "if deps t = [] then apply_transition now t Ready else t"
    from simple_submit_Ok [OF ok] obtain sg where sg: "find_entry (entries s) (task_id t) = None"
      "\<forall>d \<in> set (deps t). find_entry (entries s) d \<noteq> None" "evs = []"
      "s' = s\<lparr>entries := entries s @ [\<lparr>etask = ?t, estage = sg, elast_outputs = Map.empty\<rparr>]\<rparr>" by blast
    have f: "task_id ?t = task_id t" "deps ?t = deps t" "tstate ?t \<in> {Queued, Ready}"
      "tstate ?t = Queued \<longrightarrow> deps ?t \<noteq> []" using q by simp_all
    have "set (deps t) \<subseteq> eid ` set (entries s)" using sg(2) by (auto simp: find_entry_None)
    with d f sg(1,4) have "drainable (entries s')"
      by (auto simp: drainable_def deps_backward_append find_entry_None)
    moreover have "map eid (entries s') = map eid (entries s) @ [task_id t]" using sg(4) f(1) by simp
    moreover have "unfinished (entries s') = unfinished (entries s) + 1"
      using sg(4) f(3) by (auto simp: unfinished_def)
    ultimately show ?thesis using sg(3) by simp
  qed
  then show "drainable (entries s')" "r = Ok \<Longrightarrow> map eid (entries s') = map eid (entries s) @ [task_id t]"
    "r = Ok \<Longrightarrow> unfinished (entries s') = unfinished (entries s) + 1" "evs = []" by blast+
qed

fun submit_all :: "(int \<times> task_descriptor \<times> stage option) list \<Rightarrow> simple \<Rightarrow> simple" where
  "submit_all [] s = s"
| "submit_all ((now, t, stg) # subs) s = submit_all subs (fst (simple_submit now s t stg))"

fun tick_all ::
  "int list \<Rightarrow> (dispatch \<Rightarrow> sim_action list \<times> any_map \<times> void_result) \<Rightarrow> simple \<Rightarrow> simple \<times> state_event list" where
  "tick_all [] behave s = (s, [])"
| "tick_all (now # nows) behave s =
     (case simple_tick now behave s of
        (s1, ev1) \<Rightarrow> (case tick_all nows behave s1 of (s2, ev2) \<Rightarrow> (s2, ev1 @ ev2)))"

lemma submit_all_drainable:
  "drainable (entries s) \<Longrightarrow> list_all (\<lambda>(now, t, stg). tstate t = Queued) subs \<Longrightarrow>
    drainable (entries (submit_all subs s))"
proof (induction subs arbitrary: s)
  case (Cons x subs)
  obtain now t stg where x: "x = (now, t, stg)" by (metis prod_cases3)
  obtain s1 evs r where sub: "simple_submit now s t stg = (s1, evs, r)" by (metis prod_cases3)
  from Cons.prems(2) x have "tstate t = Queued" by simp
  from submit_drainable(1) [OF Cons.prems(1) this sub] Cons x sub show ?case by simp
qed simp

definition success_count :: "state_event list \<Rightarrow> nat" where
  "success_count evs = length (filter (\<lambda>ev. ev_state ev = Succeeded) evs)"

lemma tick_all_drains:
  assumes "drainable (entries s)" "succeeding behave" "tick_all nows behave s = (s', evs)"
  shows "drainable (entries s') \<and> unfinished (entries s') = unfinished (entries s) - length nows \<and>
    map eid (entries s') = map eid (entries s) \<and>
    success_count evs + unfinished (entries s') = unfinished (entries s)"
  using assms
proof (induction nows arbitrary: s evs)
  case Nil
  then show ?case by (simp add: success_count_def)
next
  case (Cons now nows)
  obtain s1 ev1 where t: "simple_tick now behave s = (s1, ev1)" by fastforce
  obtain s2 ev2 where r: "tick_all nows behave s1 = (s2, ev2)" by fastforce
  have eqs: "s' = s2" "evs = ev1 @ ev2" using Cons.prems(3) t r by simp_all
  have r': "tick_all nows behave s1 = (s', ev2)" using r eqs(1) by simp
  show ?case
  proof (cases "unfinished (entries s) = 0")
    case True
    with tick_idle [OF True] t have "s1 = s" "ev1 = []" by auto
    with Cons.IH [OF Cons.prems(1,2), of ev2] r' eqs True show ?thesis by (simp add: success_count_def)
  next
    case False
    from tick_finishes_one [OF Cons.prems(1) False Cons.prems(2) t] obtain i ev0 where
      one: "drainable (entries s1)" "unfinished (entries s1) + 1 = unfinished (entries s)"
        "map eid (entries s1) = map eid (entries s)" "ev1 = ev0 @ [StateEvent i Succeeded flt_one]"
        "\<forall>ev \<in> set ev0. ev_state ev \<noteq> Succeeded" by blast
    then have "success_count ev1 = 1" by (simp add: success_count_def filter_empty_conv)
    with Cons.IH [OF one(1) Cons.prems(2) r'] one(2,3) eqs(2) show ?thesis
      by (simp add: success_count_def)
  qed
qed

section \<open>Properties\<close>



end
