(* ===== verification/Workflow_Start.thy ===== *)
theory Workflow_Start
  imports Orchestrator
begin

text \<open>
  What an accepted start leaves behind, for any scheduler. The locale \<open>task_chain\<close> asks of one
  accepted submission what the host wants to know of the whole start: \<open>good\<close> of the events so far and
  the state, and \<open>linked\<close> of the change. It is interpreted on the single-threaded scheduler, on the
  thread-pool scheduler, and on the thread-pool scheduler with workers running in between.
\<close>

text \<open>The tasks that the engine submits.\<close>

definition engine_task :: "task_descriptor \<Rightarrow> bool" where
  "engine_task t \<longleftrightarrow>
     (\<exists>now i tr tok. t = storyboard_task now i tr tok \<or> (\<exists>sb. t = image_task now i tr tok sb) \<or>
        (\<exists>imgs. t = compose_task now i tr tok imgs))"

lemma engine_task_intros [simp]:
  "engine_task (storyboard_task now i tr tok)" "engine_task (image_task now i tr tok sb)"
  "engine_task (compose_task now i tr tok imgs)"
  unfolding engine_task_def by blast+

lemma engine_tasks_fields [simp]:
  "task_id (storyboard_task now i tr tok) = i" "deps (storyboard_task now i tr tok) = []"
  "task_id (image_task now i tr tok sb) = i" "deps (image_task now i tr tok sb) = [sb]"
  "task_id (compose_task now i tr tok imgs) = i" "deps (compose_task now i tr tok imgs) = imgs"
  by (simp_all add: storyboard_task_def image_task_def compose_task_def new_task_def)

locale task_chain =
  fixes submit :: "'s submit_op" and cancel :: "'s cancel_op" and alloc :: "'s \<Rightarrow> 's \<times> nat"
    and fac :: stage_factory and order :: "'s \<Rightarrow> string list"
    and good :: "state_event list \<Rightarrow> 's \<Rightarrow> bool" and linked :: "'s \<Rightarrow> state_event list \<Rightarrow> 's \<Rightarrow> bool"
  assumes submits: "good evs0 s \<Longrightarrow> engine_task t \<Longrightarrow> set (deps t) \<subseteq> set (order s) \<Longrightarrow>
      (deps t = [] \<longrightarrow> stg = fac Storyboard) \<Longrightarrow> submit now s t stg = (s', evs, Inr u) \<Longrightarrow>
      good (evs0 @ evs) s' \<and> order s' = order s @ [task_id t] \<and> linked s evs s'"
    and allocs: "good evs0 s \<Longrightarrow> alloc s = (s', k) \<Longrightarrow> good evs0 s' \<and> order s' = order s \<and> linked s [] s'"
    and link_none: "linked s [] s"
    and link_trans: "linked s xs s1 \<Longrightarrow> linked s1 ys s2 \<Longrightarrow> linked s (xs @ ys) s2"
begin

definition took :: "state_event list \<Rightarrow> 's \<Rightarrow> state_event list \<Rightarrow> string list \<Rightarrow> 's \<Rightarrow> bool" where
  "took evs0 s evs new s' \<longleftrightarrow> good (evs0 @ evs) s' \<and> order s' = order s @ new \<and> linked s evs s'"

lemma took_trans:
  "took evs0 s xs new1 s1 \<Longrightarrow> took (evs0 @ xs) s1 ys new2 s2 \<Longrightarrow> took evs0 s (xs @ ys) (new1 @ new2) s2"
  by (auto simp: took_def intro: link_trans)

lemma task_taken:
  assumes "good evs0 s" "engine_task t" "set (deps t) \<subseteq> set (order s)" "deps t = [] \<longrightarrow> stg = fac Storyboard"
    and "submit_task submit cancel now ids s t stg = (s', evs, Inr u)"
  shows "took evs0 s evs [task_id t] s'"
proof -
  obtain s1 ev1 r1 where "submit now s t stg = (s1, ev1, r1)" using prod_cases3 by blast
  with assms(5) have "submit now s t stg = (s', evs, Inr u)"
    by (auto simp: submit_task_def split: sum.splits prod.splits)
  from submits [OF assms(1-4) this] show ?thesis by (simp add: took_def)
qed

lemma images_taken:
  assumes "good evs0 s" "sb \<in> set (order s)"
    and "submit_images submit cancel fac dis now trace tok sb n ids imgs k s = (s', evs, k', Inr (ids', imgs'))"
  shows "\<exists>new. ids' = ids @ new \<and> imgs' = imgs @ new \<and> length new = n \<and> took evs0 s evs new s'"
  using assms
proof (induction n arbitrary: s ids imgs k evs0 evs)
  case 0
  then show ?case by (auto simp: took_def link_none)
next
  case (Suc n)
  obtain tid k1 where u: "generate_uuid dis k = (tid, k1)" by fastforce
  let ?t = "image_task now tid trace tok sb"
  obtain s1 ev1 r1 where s1: "submit_task submit cancel now (ids @ [tid]) s ?t (fac ImageGen) = (s1, ev1, r1)"
    using prod_cases3 by blast
  from Suc.prems(3) u s1 obtain v where r1: "r1 = Inr v" by (cases r1) simp_all
  have one: "took evs0 s ev1 [tid] s1"
    using task_taken [OF Suc.prems(1) _ _ _ s1 [unfolded r1]] Suc.prems(2) by simp
  obtain s2 ev2 k2 r2 where im: "submit_images submit cancel fac dis now trace tok sb n (ids @ [tid])
      (imgs @ [tid]) k1 s1 = (s2, ev2, k2, r2)" by (metis prod_cases4)
  have eqs: "s' = s2" "evs = ev1 @ ev2" "k' = k2" "r2 = Inr (ids', imgs')"
    using Suc.prems(3) u s1 r1 im by simp_all
  have "good (evs0 @ ev1) s1" "sb \<in> set (order s1)" using one Suc.prems(2) by (simp_all add: took_def)
  from Suc.IH [OF this im [folded eqs(1,3), unfolded eqs(4)]] obtain new where
    "ids' = (ids @ [tid]) @ new" "imgs' = (imgs @ [tid]) @ new" "length new = n"
    "took (evs0 @ ev1) s1 ev2 new s'" by blast
  with took_trans [OF one] eqs(2) show ?case by (intro exI [of _ "tid # new"]) simp
qed

lemma chain_taken:
  assumes r: "good evs0 s" "0 < n"
    and ch: "submit_chain submit cancel fac dis now trace tok n k s = (s', evs, k', Inr ids)"
  shows "length ids = n + 2 \<and> took evs0 s evs ids s'"
proof -
  obtain sb k1 where u: "generate_uuid dis k = (sb, k1)" by fastforce
  let ?t = "storyboard_task now sb trace tok"
  obtain s1 ev1 r1 where s1: "submit_task submit cancel now [sb] s ?t (fac Storyboard) = (s1, ev1, r1)"
    using prod_cases3 by blast
  from ch u s1 obtain v where r1: "r1 = Inr v" by (cases r1) (simp_all add: submit_chain_def)
  have one: "took evs0 s ev1 [sb] s1" using task_taken [OF r(1) _ _ _ s1 [unfolded r1]] by simp
  obtain s2 ev2 k2 r2 where im: "submit_images submit cancel fac dis now trace tok sb n [sb] [] k1 s1
      = (s2, ev2, k2, r2)" by (metis prod_cases4)
  from ch u s1 r1 im obtain ids2 imgs where r2: "r2 = Inr (ids2, imgs)"
    by (cases r2) (auto simp: submit_chain_def)
  have "good (evs0 @ ev1) s1" "sb \<in> set (order s1)" using one by (simp_all add: took_def)
  from images_taken [OF this im [unfolded r2]] obtain new where
    two: "ids2 = [sb] @ new" "imgs = [] @ new" "length new = n" "took (evs0 @ ev1) s1 ev2 new s2" by blast
  obtain ct k3 where u3: "generate_uuid dis k2 = (ct, k3)" by fastforce
  let ?t3 = "compose_task now ct trace tok imgs"
  obtain s3 ev3 r3 where s3: "submit_task submit cancel now (ids2 @ [ct]) s2 ?t3 (fac Compose) = (s3, ev3, r3)"
    using prod_cases3 by blast
  from ch u s1 r1 im r2 u3 s3 obtain w where r3: "r3 = Inr w" by (cases r3) (simp_all add: submit_chain_def)
  have "good ((evs0 @ ev1) @ ev2) s2" "set imgs \<subseteq> set (order s2)" using two by (simp_all add: took_def)
  moreover have "imgs \<noteq> []" using two(2,3) r(2) by auto
  ultimately have three: "took ((evs0 @ ev1) @ ev2) s2 ev3 [ct] s3"
    using task_taken [OF _ _ _ _ s3 [unfolded r3]] by simp
  have "s' = s3" "evs = ev1 @ ev2 @ ev3" "ids = ids2 @ [ct]"
    using ch u s1 r1 im r2 u3 s3 r3 by (simp_all add: submit_chain_def)
  with took_trans [OF one took_trans [OF two(4)]] three two(1,3) show ?thesis by simp
qed

text \<open>The first workflow of an engine.\<close>

lemma start_taken:
  assumes good: "good evs0 s" and none: "active_workflows eng = []" and fac: "stage_factory eng = Some fac"
    and st: "start_workflow submit cancel alloc dis now eng s story style n = (eng', s', calls, Inr trace)"
  shows "\<exists>w evs. active_workflows eng' = [w] \<and> completion_cb eng' = completion_cb eng \<and>
    wf_completed w = 0 \<and> wf_total w = i32 (n + 2) \<and> length (wf_tasks w) = nat (n + 2) \<and> 0 < n \<and>
    wf_trace w = trace \<and> trace \<noteq> [] \<and> calls = [] \<and>
    good (evs0 @ evs) s' \<and> order s' = order s @ wf_tasks w \<and> linked s evs s'"
proof -
  obtain tr k0 where u: "generate_uuid dis (rng_pos eng) = (tr, k0)" by fastforce
  from st u fac have n: "0 < n"
    by (cases "n \<le> 0") (auto simp: start_workflow_def Let_def)
  obtain s0 tok where al: "alloc s = (s0, tok)" by fastforce
  note a = allocs [OF good al]
  obtain s1 evs k1 r1 where ch: "submit_chain submit cancel fac dis now tr tok (nat n) k0 s0 = (s1, evs, k1, r1)"
    by (metis prod_cases4)
  obtain eng1 calls1 where dl: "deliver (eng\<lparr>rng_pos := k1\<rparr>) evs = (eng1, calls1)" by fastforce
  from st u fac n al ch dl obtain ids where r1: "r1 = Inr ids" by (cases r1) (simp_all add: start_workflow_def)
  have chain: "length ids = nat n + 2 \<and> took evs0 s0 evs ids s1"
    using chain_taken [of evs0, OF _ _ ch [unfolded r1]] a n by simp
  have "deliver (eng\<lparr>rng_pos := k1\<rparr>) evs = (eng\<lparr>rng_pos := k1\<rparr>, [])" by (rule deliver_unknown) (simp add: none)
  with dl have eng1: "eng1 = eng\<lparr>rng_pos := k1\<rparr>" "calls1 = []" by simp_all
  have "trace = tr" using st u fac n al ch dl r1 by (simp add: start_workflow_def)
  moreover have "tr \<noteq> []" using u by (auto simp: generate_uuid_def)
  moreover have "s' = s1" "calls = []" "eng' = eng1\<lparr>active_workflows := active_workflows eng1 @
      [\<lparr>wf_trace = tr, wf_tasks = ids, wf_completed = 0, wf_total = i32 (int (length ids)),
        wf_failed = False, wf_output = []\<rparr>]\<rparr>"
    using st u fac n al ch dl r1 eng1(2) by (auto simp: start_workflow_def)
  moreover have "i32 (int (length ids)) = i32 (n + 2)" "length ids = nat (n + 2)"
    using chain n by (simp_all add: add.commute nat_add_distrib)
  moreover have "good (evs0 @ evs) s1 \<and> order s1 = order s @ ids \<and> linked s evs s1"
    using chain a link_trans [of s "[]" s0 evs s1] by (simp add: took_def)
  ultimately show ?thesis using eng1(1) n none by auto
qed

end

end
