(* ===== verification/App_Liveness.thy ===== *)
theory App_Liveness
  imports Presenter Simple_Liveness Workflow_Start "HOL-Library.Code_Target_Nat"
begin

text \<open>
  From the click to the result: on the single-threaded scheduler, with stages that succeed, the
  window of a generation becomes idle again and shows the output after as many timer ticks as the
  workflow has tasks. It joins the three components: the presenter, the workflow engine and the
  scheduler.
\<close>

section \<open>A start that is accepted\<close>

lemma start_accepted:
  assumes g: "start_generation ops dis now story style n a0 = (a, sigs)"
    and idle: "\<not> busy (app_ui a0)" and busy: "busy (app_ui a)"
  obtains eng s' calls trace p2 where
    "start_workflow (op_submit ops) (op_cancel ops) (op_alloc ops) dis now (app_engine a0) (app_sched a0)
      story style n = (eng, s', calls, Inr trace)"
    "a = \<lparr>app_ui = p2, app_engine = eng, app_sched = s', app_posted = app_posted a0 @ map post_of calls\<rparr>"
    "timer_active p2" "busy p2" "output_path p2 = []" "current_trace_id p2 = trace"
proof -
  obtain p1 g1 where p1: "ui_all (start_texts story style n) (app_ui a0) = (p1, g1)" by fastforce
  obtain eng s' calls r where st: "start_workflow (op_submit ops) (op_cancel ops) (op_alloc ops) dis now
      (app_engine a0) (app_sched a0) story style n = (eng, s', calls, r)" by (metis prod_cases4)
  obtain p2 g2 where p2: "ui_all (case r of Inl e \<Rightarrow> start_failed e | Inr trace \<Rightarrow> start_succeeded trace) p1 = (p2, g2)"
    by fastforce
  have a: "a = \<lparr>app_ui = p2, app_engine = eng, app_sched = s', app_posted = app_posted a0 @ map post_of calls\<rparr>"
    using g idle p1 st p2 by (simp add: start_generation_def)
  obtain trace where r: "r = Inr trace"
  proof (cases r)
    case (Inl e)
    have "\<not> busy (fst (ui_all (start_failed e) p1))"
      by (simp add: start_failed_def ui_then_fst)
    with busy a p2 Inl have False by simp
    then show ?thesis ..
  qed
  from p2 r have "p2 = fst (ui_all (start_succeeded trace) p1)" by simp
  then have "timer_active p2" "busy p2" "output_path p2 = []" "current_trace_id p2 = trace"
    using start_texts_effect [OF p1] by (simp_all add: start_succeeded_def ui_then_fst)
  with that st a r show thesis by blast
qed

lemma created_app:
  "\<not> busy (app_ui (create_app fac s))" "app_posted (create_app fac s) = []"
  "active_workflows (app_engine (create_app fac s)) = []"
  "completion_cb (app_engine (create_app fac s)) = Some 0" "app_sched (create_app fac s) = s"
  "stage_factory (app_engine (create_app fac s)) = Some fac"
  by (simp_all add: create_app_def create_presenter_def create_engine_def set_stage_factory_def
      on_progress_def on_completion_def)

section \<open>What a successful start leaves in the scheduler\<close>

text \<open>One entry for each task, nothing reported.\<close>

interpretation simple_chain: task_chain simple_submit simple_cancel simple_alloc fac
  "\<lambda>s. map eid (entries s)" "\<lambda>evs s. drainable (entries s)"
  "\<lambda>s evs s'. unfinished (entries s') + length (entries s) = unfinished (entries s) + length (entries s') \<and> evs = []"
  for fac
proof (unfold_locales, goal_cases)
  case (1 evs0 s t stg now s' evs u)
  then have "tstate t = Queued"
    by (auto simp: engine_task_def storyboard_task_def image_task_def compose_task_def new_task_def)
  from submit_drainable [OF 1(1) this 1(5)] have d: "drainable (entries s')"
    "map eid (entries s') = map eid (entries s) @ [task_id t]"
    "unfinished (entries s') = Suc (unfinished (entries s))" "evs = []" by simp_all
  from arg_cong [where f = length, OF d(2)] have "length (entries s') = Suc (length (entries s))" by simp
  with d show ?case by simp
next
  case (2 evs0 s s' k)
  then show ?case by (auto simp: simple_alloc_def split: prod.splits)
qed simp_all

section \<open>The ticks\<close>

text \<open>A generation under way: what is not finished in the scheduler is missing in the count.\<close>

definition generating :: "nat \<Rightarrow> simple app \<Rightarrow> bool" where
  "generating left a \<longleftrightarrow> quiet a \<and> timer_active (app_ui a) \<and> completion_cb (app_engine a) = Some 0 \<and>
     drainable (entries (app_sched a)) \<and> unfinished (entries (app_sched a)) = left \<and>
     (\<exists>w. active_workflows (app_engine a) = [w] \<and> 0 \<le> wf_completed w \<and> wf_total w \<le> INT_MAX \<and>
        wf_completed w + int left = wf_total w \<and> set (wf_tasks w) = eid ` set (entries (app_sched a)))"

lemma deliver_completion_cb: "deliver eng evs = (eng', calls) \<Longrightarrow> completion_cb eng' = completion_cb eng"
  by (induction evs arbitrary: eng eng' calls) (auto simp: handle_state_change_def split: prod.splits)

lemma pending_unfinished: "drainable (entries s) \<Longrightarrow> simple_has_pending s \<longleftrightarrow> unfinished (entries s) \<noteq> 0"
proof -
  assume "drainable (entries s)"
  then have "\<not> is_terminal (estate e) \<longleftrightarrow> estate e \<noteq> Succeeded" if "e \<in> set (entries s)" for e
    using that by (auto simp: drainable_def)
  then show ?thesis by (auto simp: simple_has_pending_def list_ex_iff unfinished_def filter_empty_conv)
qed

lemma single_success:
  assumes "\<forall>ev \<in> set evs0. ev_state ev \<noteq> Succeeded"
  shows "successes ids evs0 = 0"
  using assms by (auto simp: successes_def filter_empty_conv)

lemma generating_tick:
  assumes g: "generating (Suc (Suc left)) a" and b: "succeeding behave"
    and act: "app_act (simple_ops behave) dis fm now Timer_tick a = (a', sigs)"
  shows "generating (Suc left) a' \<and> \<not> finishes sigs"
proof -
  from g obtain w where q: "quiet a" "timer_active (app_ui a)" "completion_cb (app_engine a) = Some 0"
    and d: "drainable (entries (app_sched a))" "unfinished (entries (app_sched a)) = Suc (Suc left)"
    and w: "active_workflows (app_engine a) = [w]" "0 \<le> wf_completed w" "wf_total w \<le> INT_MAX"
      "wf_completed w + int (Suc (Suc left)) = wf_total w" "set (wf_tasks w) = eid ` set (entries (app_sched a))"
    by (auto simp: generating_def)
  obtain s' evs where t: "simple_tick now behave (app_sched a) = (s', evs)" by fastforce
  from tick_finishes_one [OF d(1) _ b t] d(2) obtain i evs0 where
    one: "drainable (entries s')" "unfinished (entries s') = Suc left"
      "map eid (entries s') = map eid (entries (app_sched a))"
      "evs = evs0 @ [StateEvent i Succeeded flt_one]" "i \<in> eid ` set (entries (app_sched a))"
      "\<forall>ev \<in> set evs0. ev_state ev \<noteq> Succeeded" by auto
  have "successes (wf_tasks w) evs = 1"
    using one(4,5) w(5) single_success [OF one(6), of "wf_tasks w"]
    by (simp add: successes_append) (simp add: successes_def)
  then have lt: "wf_completed w + int (successes (wf_tasks w) evs) < wf_total w" using w(4) by simp
  obtain eng calls where dl: "deliver (app_engine a) evs = (eng, calls)" by fastforce
  from deliver_last_incomplete [of "app_engine a" "[]" w evs eng calls] w lt dl obtain w1 where
    w1: "no_completion calls" "active_workflows eng = [w1]" "wf_tasks w1 = wf_tasks w"
      "wf_total w1 = wf_total w" "wf_completed w1 = wf_completed w + 1"
    using \<open>successes (wf_tasks w) evs = 1\<close> by auto
  have ev: "busy_events (simple_ops behave) now Timer_tick a = evs"
    using q(2) t by (simp add: simple_ops_def)
  from app_act_busy [OF q(1) act dl [folded ev] w1(1)] have a': "quiet a'" "app_engine a' = eng" "\<not> finishes sigs"
    by auto
  have "app_sched a' = s'" "timer_active (app_ui a')"
    using act q(2) t dl pending_unfinished [OF one(1)] one(2)
    by (auto simp: on_tick_def simple_ops_def deliver_to_app_def Let_def)
  moreover have "eid ` set (entries s') = eid ` set (entries (app_sched a))"
    using one(3) by (metis list.set_map)
  ultimately show ?thesis
    using a' one w w1 q(3) deliver_completion_cb [OF dl] by (auto simp: generating_def)
qed

lemma last_tick:
  assumes g: "generating (Suc 0) a" and b: "succeeding behave"
    and act: "app_act (simple_ops behave) dis fm now Timer_tick a = (a', sigs)"
  shows "\<exists>qs. app_posted a' = qs @ [Post_completion True mock_output_path] \<and> sigs = [] \<and>
    \<not> timer_active (app_ui a') \<and> \<not> simple_has_pending (app_sched a')"
proof -
  from g obtain w where q: "timer_active (app_ui a)" "completion_cb (app_engine a) = Some 0"
    and d: "drainable (entries (app_sched a))" "unfinished (entries (app_sched a)) = 1"
    and w: "active_workflows (app_engine a) = [] @ [w]" "0 \<le> wf_completed w" "wf_total w \<le> INT_MAX"
      "wf_completed w + 1 = wf_total w" "set (wf_tasks w) = eid ` set (entries (app_sched a))"
    by (auto simp: generating_def)
  obtain s' evs where t: "simple_tick now behave (app_sched a) = (s', evs)" by fastforce
  from tick_finishes_one [OF d(1) _ b t] d(2) obtain i evs0 where
    one: "drainable (entries s')" "unfinished (entries s') = 0"
      "evs = evs0 @ [StateEvent i Succeeded flt_one]" "i \<in> eid ` set (entries (app_sched a))"
      "\<forall>ev \<in> set evs0. ev_state ev \<noteq> Succeeded" by auto
  obtain eng calls where dl: "deliver (app_engine a) (evs0 @ [StateEvent i Succeeded flt_one]) = (eng, calls)"
    by fastforce
  have "wf_completed w + int (successes (wf_tasks w) evs0) + 1 = wf_total w"
    using w(4) single_success [OF one(5)] by simp
  from deliver_last_complete [OF w(1) _ w(2,3) this _ _ q(2) dl] one(4) w(5) obtain calls1 trace where
    calls: "calls = calls1 @ [Completion_call 0 trace True mock_output_path]" by auto
  show ?thesis
    using act q(1) t one(3) dl calls pending_unfinished [OF one(1)] one(2)
    by (auto simp: on_tick_def simple_ops_def deliver_to_app_def Let_def)
qed

lemma generating_ticks:
  assumes "generating (length nows) a" "nows \<noteq> []" "succeeding behave"
    and "app_run (simple_ops behave) dis fm (map (\<lambda>t. (t, Timer_tick)) nows) a = (b, sigs, evs)"
  shows "\<exists>qs. app_posted b = qs @ [Post_completion True mock_output_path] \<and> \<not> finishes sigs \<and>
    \<not> timer_active (app_ui b) \<and> \<not> simple_has_pending (app_sched b)"
  using assms
proof (induction nows arbitrary: a sigs evs)
  case Nil
  then show ?case by simp
next
  case (Cons now nows)
  obtain a1 sigs1 where act: "app_act (simple_ops behave) dis fm now Timer_tick a = (a1, sigs1)" by fastforce
  obtain b1 sigs2 evs2 where run: "app_run (simple_ops behave) dis fm (map (\<lambda>t. (t, Timer_tick)) nows) a1 = (b1, sigs2, evs2)"
    by (metis prod_cases3)
  have eqs: "b = b1" "sigs = sigs1 @ sigs2" using Cons.prems(4) act run by simp_all
  show ?case
  proof (cases nows)
    case Nil
    with Cons.prems(1) have "generating (Suc 0) a" by simp
    from last_tick [OF this Cons.prems(3) act] Nil run eqs show ?thesis by auto
  next
    case (Cons now2 nows2)
    with Cons.prems(1) have "generating (Suc (Suc (length nows2))) a" by simp
    from generating_tick [OF this Cons.prems(3) act] Cons have g1: "generating (length nows) a1" "\<not> finishes sigs1"
      by simp_all
    from Cons.IH [OF g1(1) _ Cons.prems(3) run [folded eqs(1)]] Cons g1(2) eqs(2) show ?thesis by auto
  qed
qed

section \<open>Properties\<close>

text \<open>C21: A generation completes. If the first click on start is accepted by an application on the
  single-threaded scheduler and the stages succeed, then after one timer tick per task, the
  storyboard, the images and the composition, and once the window has run what was posted, it is
  idle and shows the output, success was reported, nothing is pending and the timer has stopped.\<close>

theorem generation_completes:
  assumes "succeeding behave" and "n + 2 \<le> INT_MAX"
    and "start_generation (simple_ops behave) dis now story style n
      (create_app fac (create_simple_scheduler h)) = (a, sigs1)"
    and "busy (app_ui a)" and "length nows = nat (n + 2)"
    and "app_run (simple_ops behave) dis fm (map (\<lambda>t. (t, Timer_tick)) nows) a = (b, sigs2, evs2)"
    and "app_run (simple_ops behave) dis fm (replicate (length (app_posted b)) (later, Show_next)) b = (c, sigs3, evs3)"
  shows "\<not> busy (app_ui c) \<and> output_path (app_ui c) = mock_output_path \<and>
    Generation_completed True mock_output_path \<in> set sigs3 \<and> \<not> simple_has_pending (app_sched c) \<and>
    \<not> timer_active (app_ui b) \<and> (\<forall>ok path. Generation_completed ok path \<notin> set sigs2)"
proof -
  let ?a0 = "create_app fac (create_simple_scheduler h)"
  have idle: "drainable (entries (app_sched ?a0))" "unfinished (entries (app_sched ?a0)) = 0"
    "entries (app_sched ?a0) = []"
    by (simp_all add: created_app(5) create_simple_scheduler_def drainable_def unfinished_def)
  obtain eng s' calls trace p2 where
    st0: "start_workflow (op_submit (simple_ops behave)) (op_cancel (simple_ops behave))
      (op_alloc (simple_ops behave)) dis now (app_engine ?a0) (app_sched ?a0) story style n =
      (eng, s', calls, Inr trace)"
    and a0: "a = \<lparr>app_ui = p2, app_engine = eng, app_sched = s', app_posted = app_posted ?a0 @ map post_of calls\<rparr>"
    and timer: "timer_active p2"
    by (rule start_accepted [OF assms(3) created_app(1) assms(4)])
  from st0 have st: "start_workflow simple_submit simple_cancel simple_alloc dis now (app_engine ?a0)
      (app_sched ?a0) story style n = (eng, s', calls, Inr trace)" by (simp add: simple_ops_def)
  from a0 have a: "a = \<lparr>app_ui = p2, app_engine = eng, app_sched = s', app_posted = map post_of calls\<rparr>"
    by (simp add: created_app(2))
  from simple_chain.start_taken [OF idle(1) created_app(3,6) st] obtain w where
    w: "active_workflows eng = [w]" "completion_cb eng = Some 0" "wf_completed w = 0" "wf_total w = i32 (n + 2)"
      "length (wf_tasks w) = nat (n + 2)" "calls = []" "0 < n" "map eid (entries s') = wf_tasks w"
      "drainable (entries s')" "unfinished (entries s') = length (entries s')"
    using idle(2,3) by (auto simp: created_app(4))
  note n = w(7)
  have "i32 (n + 2) = n + 2" using n assms(2) by (intro i32_id) (simp_all add: INT_MAX_def)
  moreover have "eid ` set (entries s') = set (wf_tasks w)" "drainable (entries s')"
    "unfinished (entries s') = nat (n + 2)"
    using w(5,9,10) by (simp_all flip: w(8))
  ultimately have "generating (length nows) a"
    using a w n assms(2,4,5) timer by (simp add: generating_def quiet_def)
  moreover have "nows \<noteq> []" using n assms(5) by auto
  ultimately obtain qs where b: "app_posted b = qs @ [Post_completion True mock_output_path]" "\<not> finishes sigs2"
    "\<not> timer_active (app_ui b)" "\<not> simple_has_pending (app_sched b)"
    using generating_ticks [OF _ _ assms(1,6)] by blast
  let ?shown = "ui_all (map (show_posted fm (clock_text fm later)) (app_posted b)) (app_ui b)"
  have "c = b\<lparr>app_ui := fst ?shown, app_posted := []\<rparr>" "sigs3 = snd ?shown"
    using assms(7) run_show_all [of "simple_ops behave" dis fm b later] by simp_all
  with b show_all_completion [where fm = fm and clock = "clock_text fm later" and qs = qs and
      path = mock_output_path and p = "app_ui b"]
  show ?thesis by (simp add: finishes_def)
qed

definition demo_click :: "simple app \<times> ui_signal list" where
  "demo_click = start_generation (simple_ops (\<lambda>d. ([Act_progress flt_one], Map.empty, Ok))) (\<lambda>k. of_nat k) 5
     ''once'' ''ink'' 1 (create_app (\<lambda>ty. Some (create_mock_stage ty)) (create_simple_scheduler empty_heap))"

theorem generation_completes_witness:
  "\<exists>b c sigs. fst (app_run (simple_ops (\<lambda>d. ([Act_progress flt_one], Map.empty, Ok))) (\<lambda>k. of_nat k) plain_format
      [(10, Timer_tick), (20, Timer_tick), (30, Timer_tick)] (fst demo_click)) = b \<and>
    app_run (simple_ops (\<lambda>d. ([Act_progress flt_one], Map.empty, Ok))) (\<lambda>k. of_nat k) plain_format
      (replicate (length (app_posted b)) (40, Show_next)) b = (c, sigs, []) \<and>
    \<not> busy (app_ui c) \<and> output_path (app_ui c) = mock_output_path"
proof -
  let ?behave = "\<lambda>d :: dispatch. ([Act_progress flt_one], Map.empty :: any_map, Ok)"
  let ?ops = "simple_ops ?behave"
  have ok: "succeeding ?behave"
    unfolding succeeding_def by (intro allI exI [of _ "[flt_one]"] exI [of _ Map.empty]) simp
  obtain a sigs1 where a: "demo_click = (a, sigs1)" by fastforce
  have "busy (app_ui (fst demo_click))" by code_simp
  then have busy: "busy (app_ui a)" unfolding a fst_conv .
  let ?ticks = "map (\<lambda>t. (t, Timer_tick :: simple action)) [10, 20, 30]"
  obtain b sigs2 evs2 where b: "app_run ?ops (\<lambda>k. of_nat k) plain_format ?ticks a = (b, sigs2, evs2)"
    by (metis prod_cases3)
  obtain c sigs3 evs3 where c: "app_run ?ops (\<lambda>k. of_nat k) plain_format
      (replicate (length (app_posted b)) (40, Show_next)) b = (c, sigs3, evs3)" by (metis prod_cases3)
  have e3: "evs3 = []" using c run_show_all [of ?ops "\<lambda>k. of_nat k" plain_format b 40] by simp
  have b': "fst (app_run ?ops (\<lambda>k. of_nat k) plain_format
      [(10, Timer_tick), (20, Timer_tick), (30, Timer_tick)] (fst demo_click)) = b"
    using b unfolding a fst_conv list.map by (simp only: fst_conv)
  have "\<not> busy (app_ui c) \<and> output_path (app_ui c) = mock_output_path"
    using generation_completes [OF ok _ a [unfolded demo_click_def] busy _ b c] by (simp add: INT_MAX_def)
  with b' c [unfolded e3] show ?thesis by blast
qed

end
