(* ===== verification/Scenarios.thy ===== *)
theory Scenarios
  imports Workflows
begin

text \<open>
  Concrete runs of the schedulers. They show that the hypotheses of the properties can hold
  together, and they record behaviours of the code that a caller may not expect.
\<close>

section \<open>Building runs of the thread-pool scheduler\<close>

lemma run_submit:
  assumes "pool_reach hw c evs s ws" "fresh_task t" "sane_demand (config s) (demand t)"
    and "list_all (\<lambda>(d, ks). task_id t \<notin> set ks) (successors s)"
    and "s' = fst (pool_submit now s t stg)" "evs' = evs @ fst (snd (pool_submit now s t stg))"
  shows "pool_reach hw c evs' s' ws"
proof -
  have "pool_step s ws (fst (snd (pool_submit now s t stg))) s' ws"
    by (rule step_submit [where r = "snd (snd (pool_submit now s t stg))" and now = now and stg = stg, OF assms(2,3)])
       (use unleaked_listed [OF assms(4)] assms(5) in auto)
  with assms(1,6) show ?thesis by (blast intro: reach_next)
qed

lemma run_begin:
  assumes "pool_reach hw c evs s ws" "k < length ws" "ws ! k = None"
    and "s' = fst (worker_begin now s)" "evs' = evs @ fst (snd (worker_begin now s))"
    and "ws' = ws[k := map_option dtask (snd (snd (worker_begin now s)))]"
  shows "pool_reach hw c evs' s' ws'"
proof -
  have "pool_step s ws (fst (snd (worker_begin now s))) s' ws'"
    unfolding assms(4,6) by (rule step_begin [OF assms(2,3)]) simp
  with assms(1,5) show ?thesis by (blast intro: reach_next)
qed

lemma run_finish:
  assumes "pool_reach hw c evs s ws" "k < length ws" "ws ! k = Some i" "pool_state_of s i \<noteq> Some Paused"
    and "s' = fst (finalize_execution now s i outs res)" "evs' = evs @ snd (finalize_execution now s i outs res)"
    and "ws' = ws[k := None]"
  shows "pool_reach hw c evs' s' ws'"
proof -
  have "pool_step s ws (snd (finalize_execution now s i outs res)) s' ws'"
    unfolding assms(5,7) by (rule step_finish [OF assms(2,3,4), of now outs res]) simp
  with assms(1,6) show ?thesis by (blast intro: reach_next)
qed

lemma run_pause:
  assumes "pool_reach hw c evs s ws" "s' = fst (pause_begin now s i)"
    and "evs' = evs @ fst (snd (pause_begin now s i))"
  shows "pool_reach hw c evs' s' ws"
proof -
  have "pool_step s ws (fst (snd (pause_begin now s i))) s' ws"
    by (rule step_pause [where out = "snd (snd (pause_begin now s i))"]) (simp add: assms(2))
  with assms(1,3) show ?thesis by (blast intro: reach_next)
qed

lemma run_resume:
  assumes "pool_reach hw c evs s ws" "s' = fst (pool_resume now s i)"
    and "evs' = evs @ fst (snd (pool_resume now s i))"
  shows "pool_reach hw c evs' s' ws"
proof -
  have "pool_step s ws (fst (snd (pool_resume now s i))) s' ws"
    by (rule step_resume [where r = "snd (snd (pool_resume now s i))"]) (simp add: assms(2))
  with assms(1,3) show ?thesis by (blast intro: reach_next)
qed

section \<open>Two tasks, the second depending on the first\<close>

definition demo_config :: scheduler_config where
  "demo_config = default_config\<lparr>worker_count := 2,
     resource_budget := \<lparr>cpu_slots_hard = 2, ram_soft_mb = 300, vram_soft_mb = 0\<rparr>\<rparr>"

definition task_a :: task_descriptor where
  "task_a = new_task 0 ''a'' ''t'' Storyboard"

definition task_b :: task_descriptor where
  "task_b = (new_task 0 ''b'' ''t'' ImageGen)\<lparr>deps := [''a'']\<rparr>"

definition demo0 :: pool where "demo0 = create_pool 4 demo_config empty_heap"
definition demo1 :: pool where "demo1 = fst (pool_submit 10 demo0 task_a (Some MockStoryboardStage))"
definition demo2 :: pool where "demo2 = fst (pool_submit 20 demo1 task_b (Some MockImageGenStage))"
definition demo3 :: pool where "demo3 = fst (worker_begin 30 demo2)"
definition demo4 :: pool where "demo4 = fst (finalize_execution 40 demo3 ''a'' Map.empty Ok)"

definition demo_events2 :: "state_event list" where
  "demo_events2 = [StateEvent ''a'' Ready flt_zero]"
definition demo_events3 :: "state_event list" where
  "demo_events3 = demo_events2 @ [StateEvent ''a'' Running flt_zero]"
definition demo_events4 :: "state_event list" where
  "demo_events4 = demo_events3 @ [StateEvent ''a'' Succeeded flt_one, StateEvent ''b'' Ready flt_zero]"

lemma demo_sane: "sane_config demo_config"
  by code_simp

lemma demo_reach0: "pool_reach 4 demo_config [] demo0 [None, None]"
proof -
  have "replicate (nat (worker_count (normalize_config 4 demo_config))) None = [None, None :: string option]"
    by code_simp
  then show ?thesis unfolding pool_reach_def demo0_def by (metis run_here)
qed

lemma fresh_a: "fresh_task task_a" and fresh_b: "fresh_task task_b"
  by (simp_all add: task_a_def task_b_def fresh_task_def task_wf_def new_task_def)

lemma demo_reach1: "pool_reach 4 demo_config demo_events2 demo1 [None, None]"
  by (rule run_submit [OF demo_reach0 fresh_a, of demo1 10 "Some MockStoryboardStage"], code_simp, code_simp)
     (simp add: demo1_def, code_simp)

lemma demo_reach2: "pool_reach 4 demo_config demo_events2 demo2 [None, None]"
  by (rule run_submit [OF demo_reach1 fresh_b, of demo2 20 "Some MockImageGenStage"], code_simp, code_simp)
     (simp add: demo2_def, code_simp)

lemma demo_reach3: "pool_reach 4 demo_config demo_events3 demo3 [Some ''a'', None]"
  by (rule run_begin [OF demo_reach2, of 0 demo3 30]) (simp, simp, simp add: demo3_def, code_simp, code_simp)

lemma demo_reach4: "pool_reach 4 demo_config demo_events4 demo4 [None, None]"
  by (rule run_finish [OF demo_reach3, of 0 "''a''" demo4 40 Map.empty Ok])
     (simp, simp, code_simp, simp add: demo4_def, code_simp, simp)

definition demo_node :: "pool \<Rightarrow> string \<Rightarrow> node" where
  "demo_node s i = the (nodes s i)"

lemma demo_node: "nodes s i \<noteq> None \<Longrightarrow> nodes s i = Some (demo_node s i)"
  by (simp add: demo_node_def)

text \<open>The dispatch of \<open>a\<close> is the running configuration \<open>demo3\<close>; before and after it nothing runs.\<close>

lemma demo3_a: "nodes demo3 ''a'' = Some (demo_node demo3 ''a'')"
  by (rule demo_node) code_simp

lemma demo4_b: "nodes demo4 ''b'' = Some (demo_node demo4 ''b'')"
  by (rule demo_node) code_simp

section \<open>A wake-up that is lost\<close>

text \<open>
  \<open>b\<close> is paused while it waits for \<open>a\<close>; \<open>a\<close> succeeds in the meantime, and \<open>b\<close> is resumed.
\<close>

definition lost1 :: pool where "lost1 = fst (pause_begin 35 demo3 ''b'')"
definition lost2 :: pool where "lost2 = fst (finalize_execution 40 lost1 ''a'' Map.empty Ok)"
definition lost3 :: pool where "lost3 = fst (pool_resume 50 lost2 ''b'')"

definition lost_events1 :: "state_event list" where
  "lost_events1 = demo_events3 @ [StateEvent ''b'' Paused flt_zero]"
definition lost_events2 :: "state_event list" where
  "lost_events2 = lost_events1 @ [StateEvent ''a'' Succeeded flt_one]"
definition lost_events3 :: "state_event list" where
  "lost_events3 = lost_events2 @ [StateEvent ''b'' Queued flt_zero]"

lemma lost_reach1: "pool_reach 4 demo_config lost_events1 lost1 [Some ''a'', None]"
  by (rule run_pause [OF demo_reach3, of lost1 35 "''b''"]) (simp add: lost1_def, code_simp)

lemma lost_reach2: "pool_reach 4 demo_config lost_events2 lost2 [None, None]"
  by (rule run_finish [OF lost_reach1, of 0 "''a''" lost2 40 Map.empty Ok])
     (simp, simp, code_simp, simp add: lost2_def, code_simp, simp)

lemma lost_reach3: "pool_reach 4 demo_config lost_events3 lost3 [None, None]"
  by (rule run_resume [OF lost_reach2, of lost3 50 "''b''"]) (simp add: lost3_def, code_simp)

end
