(* ===== verification/Pool_Properties.thy ===== *)
theory Pool_Properties
  imports Scenarios
begin

text \<open>
  What holds of every run of the thread-pool scheduler, for any interleaving of clients and
  workers: dependency order, resource and parallelism bounds, exact reporting of terminal states;
  and what its operations do on any state.
\<close>

section \<open>Every reachable configuration\<close>

lemma reach_parts:
  assumes "sane_config c" "pool_reach hw c evs s ws"
  shows "wf_nodes s" "wf_ready s" "wf_running s" "wf_usage s" "within_budget s" "wf_deps [] s"
    "config_ok (config s)" "wf_index s" "pool_core s" "pool_inv s"
  using pool_reach_inv [OF assms] by (simp_all add: sys_inv_def pool_inv_def pool_core_def)

text \<open>C1: Dependency order. In every reachable configuration, a task that is ready, running,
  paused after that, succeeded or failed has only dependencies that succeeded. Workers and clients
  interleave at will; clients submit tasks in their initial state with a demand whose sums fit an
  \<open>int\<close>, also with unknown dependencies, so that refused submissions leave their edges behind, but not
  under an id for which a refused submission has left some.\<close>

theorem pool_dependency_order:
  assumes "sane_config c" and "pool_reach hw c evs s ws"
    and "nodes s i = Some n" and "started (ntask n)" and "d \<in> set (deps (ntask n))"
  shows "pool_state_of s d = Some Succeeded"
  using reach_parts(6) [OF assms(1,2)] assms(3-5)
  by (auto simp: wf_deps_def done_in_def pool_state_of_def)

theorem pool_dependency_order_witness:
  "pool_state_of demo4 ''a'' = Some Succeeded \<and> started (ntask (demo_node demo4 ''b''))"
proof -
  have b: "started (ntask (demo_node demo4 ''b''))" "''a'' \<in> set (deps (ntask (demo_node demo4 ''b'')))"
    by code_simp+
  from pool_dependency_order [OF demo_sane demo_reach4 demo4_b b] b(1) show ?thesis by blast
qed

text \<open>C2: Resource and parallelism bounds. In every reachable configuration the CPU slots in use are
  the sum of what the running tasks asked for and within the hard budget, at most
  \<open>worker_count\<close> tasks run, and while more than one runs, memory and video memory are within
  their soft budgets: only a task that runs alone may exceed them.\<close>

theorem pool_resource_bounds:
  assumes "sane_config c" and "pool_reach hw c evs s ws"
  shows "used_cpu (in_use s) = (\<Sum>i\<leftarrow>running_set s. cpu_slots (node_demand s i)) \<and>
    used_cpu (in_use s) \<le> cpu_slots_hard (budget s) \<and>
    int (length (running_set s)) \<le> worker_count (config s) \<and>
    (1 < length (running_set s) \<longrightarrow>
      (ram_soft_mb (budget s) = 0 \<or> used_ram (in_use s) \<le> ram_soft_mb (budget s)) \<and>
      (vram_soft_mb (budget s) = 0 \<or> used_vram (in_use s) \<le> vram_soft_mb (budget s)))"
  using reach_parts(4,5) [OF assms] by (simp_all add: wf_usage_def within_budget_def)

theorem pool_resource_bounds_witness:
  "running_set demo3 = [''a''] \<and> used_cpu (in_use demo3) \<le> cpu_slots_hard (budget demo3)"
proof
  show "running_set demo3 = [''a'']" by code_simp
  show "used_cpu (in_use demo3) \<le> cpu_slots_hard (budget demo3)"
    using pool_resource_bounds [OF demo_sane demo_reach3] by blast
qed

text \<open>C3: Every terminal state is reported exactly once. Along every run the terminal events for a
  task number one if the task is in a terminal state, and none otherwise.\<close>

theorem pool_reports_once:
  assumes "sane_config c" and "pool_reach hw c evs s ws"
  shows "end_events i evs = (if \<exists>st. pool_state_of s i = Some st \<and> is_terminal st then 1 else 0)"
  using pool_reach_reported [OF assms, of i]
  by (auto simp: ended_def pool_state_of_def split: option.splits if_splits)

theorem pool_reports_once_witness: "end_events ''a'' demo_events4 = 1 \<and> end_events ''b'' demo_events4 = 0"
proof
  have "\<exists>st. pool_state_of demo4 ''a'' = Some st \<and> is_terminal st" by (intro exI [of _ Succeeded]) code_simp
  with pool_reports_once [OF demo_sane demo_reach4, of "''a''"] show "end_events ''a'' demo_events4 = 1" by simp
  have "pool_state_of demo4 ''b'' = Some Ready" by code_simp
  with pool_reports_once [OF demo_sane demo_reach4, of "''b''"] show "end_events ''b'' demo_events4 = 0" by simp
qed

text \<open>C4: Terminal states are final: no step of any client or worker moves a task out of
  succeeded, failed or canceled.\<close>

theorem pool_terminal_final:
  assumes "sane_config c" and "pool_reach hw c evs s ws" and "pool_step s ws evs' s' ws'"
    and "pool_state_of s i = Some st" and "is_terminal st"
  shows "pool_state_of s' i = Some st"
  using absorbing_step [OF assms(3) pool_reach_inv [OF assms(1,2)]] assms(4,5)
  by (simp add: absorbing_def)

theorem pool_terminal_final_witness:
  "pool_state_of (fst (pool_cancel 60 demo4 ''a'')) ''a'' = Some Succeeded"
proof (rule pool_terminal_final [OF demo_sane demo_reach4])
  show "pool_step demo4 [None, None] (fst (snd (pool_cancel 60 demo4 ''a'')))
      (fst (pool_cancel 60 demo4 ''a'')) [None, None]"
    by (rule step_cancel [where now = 60 and i = "''a''" and r = "snd (snd (pool_cancel 60 demo4 ''a''))"]) simp
  show "pool_state_of demo4 ''a'' = Some Succeeded" by code_simp
qed simp

text \<open>C5: The ready set holds exactly the ready tasks and the running set exactly the tasks being
  executed by a worker, which are running, paused at a checkpoint, or canceled while their stage
  is still winding down.\<close>

theorem pool_sets_exact:
  assumes "sane_config c" and "pool_reach hw c evs s ws"
  shows "distinct (ready_set s) \<and> distinct (running_set s) \<and>
    (i \<in> set (ready_set s) \<longleftrightarrow> pool_state_of s i = Some Ready) \<and>
    (i \<in> set (running_set s) \<longleftrightarrow> i \<in> set (busy ws)) \<and>
    (pool_state_of s i = Some Running \<longrightarrow> i \<in> set (busy ws)) \<and>
    (i \<in> set (busy ws) \<longrightarrow> pool_state_of s i \<in> {Some Running, Some Paused, Some Canceled})"
proof (intro conjI impI)
  note inv = pool_reach_inv [OF assms]
  note parts = reach_parts [OF assms]
  show "distinct (ready_set s)" "distinct (running_set s)"
    using parts(2,3) by (simp_all add: wf_ready_def wf_running_def)
  show "i \<in> set (ready_set s) \<longleftrightarrow> pool_state_of s i = Some Ready"
    using parts(2) by (auto simp: wf_ready_def pool_state_of_def)
  show busy: "i \<in> set (running_set s) \<longleftrightarrow> i \<in> set (busy ws)"
    using inv by (simp add: sys_inv_def)
  have exec: "exec_ok n" if "nodes s i = Some n" for n
    using parts(1) that by (simp add: wf_nodes_def node_ok_def)
  have run: "i \<in> set (running_set s) \<longleftrightarrow> (\<exists>n. nodes s i = Some n \<and> nrunning n)"
    using parts(3) by (simp add: wf_running_def)
  show "i \<in> set (busy ws)" if "pool_state_of s i = Some Running"
    using that exec run unfolding busy [symmetric] by (auto simp: exec_ok_def pool_state_of_def)
  show "pool_state_of s i \<in> {Some Running, Some Paused, Some Canceled}" if "i \<in> set (busy ws)"
  proof -
    from that busy run obtain n where "nodes s i = Some n" "nrunning n" by blast
    with exec show ?thesis by (auto simp: exec_ok_def pool_state_of_def)
  qed
qed

theorem pool_sets_exact_witness: "''b'' \<in> set (ready_set demo4) \<and> ''a'' \<in> set (busy [Some ''a'', None])"
proof
  have "pool_state_of demo4 ''b'' = Some Ready" by code_simp
  with pool_sets_exact [OF demo_sane demo_reach4] show "''b'' \<in> set (ready_set demo4)" by blast
  have "pool_state_of demo3 ''a'' = Some Running" by code_simp
  with pool_sets_exact [OF demo_sane demo_reach3] show "''a'' \<in> set (busy [Some ''a'', None])" by blast
qed

text \<open>In a pool that runs nothing every ready task fits, so a worker finds one.\<close>

lemma idle_pool_picks:
  assumes "sane_config c" and "pool_reach hw c evs s ws"
    and "ready_set s \<noteq> []" and "running_set s = []"
  shows "\<exists>cd. pick_candidate now s True = Some cd"
proof -
  note parts = reach_parts [OF assms(1,2)]
  from assms(3) obtain i where i: "i \<in> set (ready_set s)" by (cases "ready_set s") auto
  with parts(2) obtain n where n: "nodes s i = Some n" "nstate n = Ready" by (auto simp: wf_ready_def)
  have dm: "demand_ok (config s) (demand (ntask n))"
    using parts(1) n(1) by (simp add: wf_nodes_def node_ok_def)
  have "used_cpu (in_use s) = 0" using parts(4) assms(4) by (simp add: wf_usage_def)
  moreover have "cpu_slots (demand (ntask n)) \<le> INT_MAX" "1 \<le> cpu_slots (demand (ntask n))"
    using dm parts(7) by (simp_all add: demand_ok_def config_ok_def)
  ultimately have "fits_cpu_hard s (demand (ntask n))"
    using dm by (simp add: fits_cpu_hard_def i32_id INT_MAX_def demand_ok_def)
  with n have "eligible now s i = Some (mk_candidate now s i n)" by (simp add: eligible_def)
  with pick_candidate_None [of now s i] i assms(4) show ?thesis
    by (cases "pick_candidate now s True") auto
qed

text \<open>C6: Progress. In a reachable configuration in which a task is ready and none runs, a worker
  that looks for work finds it: it starts a ready task, whatever the soft budgets say.\<close>

theorem pool_work_conserving:
  assumes "sane_config c" and "pool_reach hw c evs s ws"
    and "ready_set s \<noteq> []" and "running_set s = []"
  shows "\<exists>d s' evs'. worker_begin now s = (s', evs', Some d) \<and> dtask d \<in> set (ready_set s) \<and>
    pool_state_of s' (dtask d) = Some Running"
proof -
  from idle_pool_picks [OF assms] obtain cd where p: "pick_candidate now s True = Some cd" by blast
  obtain s' evs' dd where b: "worker_begin now s = (s', evs', dd)" by (metis prod_cases3)
  from worker_begin_dispatch [OF p b] obtain m d where
    "s' = dispatched now s (cand_id cd) m" "dd = Some d" "dtask d = cand_id cd" by blast
  with b pick_candidate_Some(1) [OF p] show ?thesis by (auto simp: pool_state_of_def)
qed

theorem pool_work_conserving_witness:
  "\<exists>d s' evs'. worker_begin 30 demo2 = (s', evs', Some d) \<and> dtask d \<in> set (ready_set demo2) \<and>
    pool_state_of s' (dtask d) = Some Running"
proof (rule pool_work_conserving [OF demo_sane demo_reach2])
  have "ready_set demo2 = [''a'']" by code_simp
  then show "ready_set demo2 \<noteq> []" by simp
  show "running_set demo2 = []" by code_simp
qed

section \<open>The lost wake-up\<close>

text \<open>C37: A wake-up that was lost never comes again. Take a task that still waits, queued or paused out of
  the queue, although all its dependencies have succeeded; it gets there when it is paused while the
  last of them succeeds. Then in every further run, whatever workers and clients do, resuming it
  included, it is queued, paused or canceled: it is never ready, never runs and never succeeds.\<close>

theorem pool_lost_wakeup:
  assumes "sane_config c" and "pool_reach hw c evs s ws" and "nodes s i = Some n"
    and "nstate n = Queued \<or> nstate n = Paused \<and> paused_from (ntask n) = Some Queued"
    and "\<forall>d \<in> set (deps (ntask n)). pool_state_of s d = Some Succeeded"
    and "pool_run s ws evs' s' ws'"
  shows "pool_state_of s' i = Some Queued \<or> pool_state_of s' i = Some Paused \<or> pool_state_of s' i = Some Canceled"
proof -
  note inv = pool_reach_inv [OF assms(1,2)]
  have "exec_ok n" using reach_parts(1) [OF assms(1,2)] assms(3) by (auto simp: wf_nodes_def node_ok_def)
  with assms(3-5) have "asleep s i" by (auto simp: asleep_def started_def exec_ok_def)
  from asleep_run [OF assms(6) inv this] obtain m where m: "nodes s' i = Some m" "\<not> started (ntask m)"
    by (auto simp: asleep_def)
  then show ?thesis by (cases "nstate m") (simp_all add: pool_state_of_def started_def)
qed

theorem pool_lost_wakeup_witness:
  "pool_reach 4 demo_config lost_events3 lost3 [None, None] \<and> pool_state_of lost3 ''a'' = Some Succeeded \<and>
   \<not> (\<exists>evs s ws. pool_run lost3 [None, None] evs s ws \<and>
      (pool_state_of s ''b'' = Some Ready \<or> pool_state_of s ''b'' = Some Running))"
proof (intro conjI notI)
  show "pool_reach 4 demo_config lost_events3 lost3 [None, None]" by (rule lost_reach3)
  show "pool_state_of lost3 ''a'' = Some Succeeded" by code_simp
  assume "\<exists>evs s ws. pool_run lost3 [None, None] evs s ws \<and>
      (pool_state_of s ''b'' = Some Ready \<or> pool_state_of s ''b'' = Some Running)"
  then obtain evs s ws where run: "pool_run lost3 [None, None] evs s ws"
    and woken: "pool_state_of s ''b'' = Some Ready \<or> pool_state_of s ''b'' = Some Running" by blast
  let ?n = "demo_node lost3 ''b''"
  have n: "nodes lost3 ''b'' = Some ?n" by (rule demo_node) code_simp
  have q: "nstate ?n = Queued" by code_simp
  have "list_all (\<lambda>d. pool_state_of lost3 d = Some Succeeded) (deps (ntask ?n))" by code_simp
  then have d: "\<forall>d \<in> set (deps (ntask ?n)). pool_state_of lost3 d = Some Succeeded" by (simp add: list_all_iff)
  from pool_lost_wakeup [OF demo_sane lost_reach3 n disjI1 [OF q] d run] woken show False by auto
qed

end
