(* ===== verification/Pool_Operations.thy ===== *)
theory Pool_Operations
  imports Pool_Properties
begin

text \<open>
  What single operations of the thread-pool scheduler compute, on any state: the dependency
  graph's cycle guard, the reach of a cancellation or a failure, the choice of the next task and
  its aging, the pause protocol, the configuration, and what a rejected submission leaves behind.
\<close>

section \<open>The reach of propagation\<close>

lemma descends_mono:
  assumes "successors s' = successors s" and "\<And>j. nodes s' j = None \<longleftrightarrow> nodes s j = None"
    and "descends s a b"
  shows "descends s' a b"
  using assms(3)
proof (induction rule: descends.induct)
  case (child b)
  then show ?case by (intro descends.child) (simp_all add: assms)
next
  case (further b c)
  from further.IH show ?case
    by (rule descends.further) (use further assms in simp_all)
qed

lemma descends_cong:
  assumes "successors s' = successors s" and "\<And>j. nodes s' j = None \<longleftrightarrow> nodes s j = None"
  shows "descends s' a b \<longleftrightarrow> descends s a b"
  using descends_mono [of s' s a b] descends_mono [of s s' a b] assms by auto

lemma descends_trans: "descends s b c \<Longrightarrow> descends s a b \<Longrightarrow> descends s a c"
proof (induction rule: descends.induct)
  case (child c)
  then show ?case by (simp add: descends.further)
next
  case (further c d)
  then have "descends s a c" by simp
  then show ?case by (rule descends.further) (use further in simp_all)
qed

lemma visit_succs_reach:
  "visit_succs now cur xs s vis = (s', vis', push, evs) \<Longrightarrow>
     prop_rel now s s' \<and> (\<forall>x. nodes s' x \<noteq> nodes s x \<longrightarrow> x \<in> set xs) \<and>
     (\<forall>x \<in> set push. x \<in> set xs \<and> nodes s x \<noteq> None)"
proof (induction rule: visit_succs_induct)
  case (Node x n xs s vis s1 ev1 s' vis' push evs)
  have p1: "prop_rel now s s1" by (rule prop_rel_touch [OF Node(2,3)])
  have "nodes s1 y = nodes s y" if "y \<noteq> x" for y
    using Node(3) that by (auto simp: touch_dependent_def cancel_dependent_def put_node_def Let_def
        split: if_splits sum.splits)
  then have "z = x \<or> z \<in> set xs" if "nodes s' z \<noteq> nodes s z" for z
    using that Node(4) by (cases "z = x") auto
  moreover have "prop_rel now s s'" using p1 Node(4) by (blast intro: prop_rel_trans)
  ultimately show ?case using Node(2,4) prop_rel_None [OF p1] by auto
qed auto

lemma propagate_loop_reach:
  "propagate_loop now s vis stack = (s', evs) \<Longrightarrow>
     prop_rel now s s' \<and> (\<forall>x. nodes s' x \<noteq> nodes s x \<longrightarrow> (\<exists>c \<in> set stack. descends s c x))"
proof (induction rule: propagate_loop_induct)
  case (Nil s vis)
  then show ?case by simp
next
  case (Leaf s vis c stack s' evs)
  then show ?case by auto
next
  case (Node s vis c stack xs s1 vis1 push ev1 s' ev2)
  from visit_succs_reach [OF Node(2)] have v: "prop_rel now s s1"
    "\<And>x. nodes s1 x \<noteq> nodes s x \<Longrightarrow> x \<in> set xs"
    "\<And>x. x \<in> set push \<Longrightarrow> x \<in> set xs \<and> nodes s x \<noteq> None" by auto
  have eq: "descends s1 a b \<longleftrightarrow> descends s a b" for a b
    using v(1) prop_rel_None [OF v(1)] by (intro descends_cong) (simp_all add: prop_rel_def)
  have child: "descends s c x" if "x \<in> set xs" "nodes s x \<noteq> None" for x
    using that Node(1) by (intro descends.child) (simp_all add: succs_def)
  have "\<exists>d \<in> set (c # stack). descends s d x" if ch: "nodes s' x \<noteq> nodes s x" for x
  proof (cases "nodes s1 x = nodes s x")
    case True
    with ch have "nodes s' x \<noteq> nodes s1 x" by simp
    with Node(3) obtain d where d: "d \<in> set (rev push @ stack)" "descends s1 d x" by blast
    then show ?thesis
      using v(3) [of d] child [of d] descends_trans [of s d x c] by (auto simp: eq)
  next
    case False
    with v(2) prop_rel_nodes [OF v(1), of x] child [of x] show ?thesis by auto
  qed
  with v(1) Node(3) show ?case by (blast intro: prop_rel_trans)
qed

lemma propagate_reach:
  "propagate now i s = (s', evs) \<Longrightarrow> nodes s' x \<noteq> nodes s x \<Longrightarrow> descends s i x"
  using propagate_loop_reach [of now s "[]" "[i]" s' evs] by (auto simp: propagate_def)

text \<open>The states after a propagation that starts at a task that has ended.\<close>

lemma propagate_states:
  assumes "propagate now i s = (s', evs)"
  shows "pool_state_of s' j =
    (if descends s i j \<and> (\<exists>st. pool_state_of s j = Some st \<and> \<not> is_terminal st) then Some Canceled
     else pool_state_of s j)"
proof (cases "nodes s' j = nodes s j")
  case True
  with propagate_terminal [OF assms, of j] show ?thesis by (auto simp: pool_state_of_def)
next
  case False
  with prop_rel_nodes [OF prop_rel_propagate [OF assms], of j] obtain n n' where
    n: "nodes s j = Some n" "nodes s' j = Some n'" "dep_canceled now n n'" by auto
  with propagate_reach [OF assms False] dep_canceled_fields(1,8) [OF n(3)] show ?thesis
    by (simp add: pool_state_of_def)
qed

lemma propagate_changed:
  assumes "propagate now i s = (s', evs)"
  shows "distinct (map ev_task evs)" "\<forall>ev \<in> set evs. ev_state ev = Canceled"
    "ev_task ` set evs = {j. pool_state_of s' j \<noteq> pool_state_of s j}"
proof -
  have "nodes s' j \<noteq> nodes s j \<longleftrightarrow> pool_state_of s' j \<noteq> pool_state_of s j" for j
  proof
    assume "nodes s' j \<noteq> nodes s j"
    with prop_rel_nodes [OF prop_rel_propagate [OF assms], of j] obtain n n' where
      "nodes s j = Some n" "nodes s' j = Some n'" "dep_canceled now n n'" by auto
    with dep_canceled_fields(1,8) show "pool_state_of s' j \<noteq> pool_state_of s j"
      by (fastforce simp: pool_state_of_def)
  qed (auto simp: pool_state_of_def)
  with propagate_events [OF assms] show "distinct (map ev_task evs)"
    "\<forall>ev \<in> set evs. ev_state ev = Canceled"
    "ev_task ` set evs = {j. pool_state_of s' j \<noteq> pool_state_of s j}"
    by (simp_all add: cancel_events_def)
qed

section \<open>Cancellation of a list of tasks\<close>

text \<open>A cancellation leaves a node as it is, or in a terminal state.\<close>

definition settled :: "pool \<Rightarrow> pool \<Rightarrow> bool" where
  "settled s s' \<longleftrightarrow> (\<forall>j. nodes s' j = nodes s j \<or>
     (\<exists>n'. nodes s' j = Some n' \<and> is_terminal (nstate n') \<and> nodes s j \<noteq> None \<and>
        (\<forall>n. nodes s j = Some n \<longrightarrow> is_terminal (nstate n) \<longrightarrow> nstate n' = nstate n)))"

lemma settled_trans: "settled a b \<Longrightarrow> settled b c \<Longrightarrow> settled a c"
  unfolding settled_def by (metis option.inject)

lemma settled_cancel:
  assumes c: "pool_cancel now s i = (s', evs, r)"
  shows "settled s s'"
  using c
proof (cases rule: pool_cancel_cases)
  case unknown
  then show ?thesis by (simp add: settled_def)
next
  case (ended n)
  then show ?thesis by (auto simp: settled_def)
next
  case (live n evs2)
  let ?c = "cancel_self now s i n"
  have "settled s ?c"
    using live(1,2) by (auto simp: settled_def cancel_self_def canceled_node_def)
  moreover have "settled ?c s'"
    unfolding settled_def
  proof
    fix j
    from prop_rel_nodes [OF prop_rel_propagate [OF live(3)], of j] show "nodes s' j = nodes ?c j \<or>
      (\<exists>n'. nodes s' j = Some n' \<and> is_terminal (nstate n') \<and> nodes ?c j \<noteq> None \<and>
        (\<forall>n. nodes ?c j = Some n \<longrightarrow> is_terminal (nstate n) \<longrightarrow> nstate n' = nstate n))"
      by (elim disjE exE conjE) (use dep_canceled_fields(1,8) in fastforce)+
  qed
  ultimately show ?thesis by (rule settled_trans)
qed

lemma cancel_ends:
  assumes "pool_cancel now s i = (s', evs, r)" and "pool_state_of s i = Some st"
  shows "pool_state_of s' i = Some (if is_terminal st then st else Canceled)"
proof -
  from assms(2) obtain n where n: "nodes s i = Some n" "nstate n = st" by (auto simp: pool_state_of_def)
  show ?thesis
  proof (cases "is_terminal st")
    case True
    with n assms(1) show ?thesis
      by (auto simp: pool_cancel_terminal pool_state_of_def put_node_def clear_pause_def)
  next
    case False
    obtain s2 evs2 where p: "propagate now i (cancel_self now s i n) = (s2, evs2)" by fastforce
    have "pool_state_of (cancel_self now s i n) i = Some Canceled"
      by (simp add: cancel_self_def canceled_node_def pool_state_of_def put_node_def cancel_error_def)
    with p False n assms(1) propagate_states [OF p, of i] show ?thesis by (simp add: pool_cancel_live)
  qed
qed

lemma settled_state:
  assumes "settled s s'" "pool_state_of s i = Some st" "is_terminal st"
  shows "pool_state_of s' i = Some st"
proof -
  from assms(2) obtain n where n: "nodes s i = Some n" "nstate n = st" by (auto simp: pool_state_of_def)
  from assms(1) have "nodes s' i = nodes s i \<or> (\<exists>n'. nodes s' i = Some n' \<and>
      (\<forall>n. nodes s i = Some n \<longrightarrow> is_terminal (nstate n) \<longrightarrow> nstate n' = nstate n))"
    unfolding settled_def by blast
  with n assms(3) show ?thesis by (auto simp: pool_state_of_def)
qed

lemma cancel_each_facts:
  assumes "cancel_each now s is = (s', evs)"
  shows "settled s s' \<and> (\<forall>i \<in> set is. \<forall>st. pool_state_of s i = Some st \<and> \<not> is_terminal st \<longrightarrow>
     pool_state_of s' i = Some Canceled)"
  using assms
proof (induction "is" arbitrary: s evs)
  case Nil
  then show ?case by (simp add: settled_def)
next
  case (Cons k "is")
  obtain s1 ev1 r where c: "pool_cancel now s k = (s1, ev1, r)" by (metis prod_cases3)
  obtain s2 ev2 where e: "cancel_each now s1 is = (s2, ev2)" by fastforce
  have s': "s' = s2" using Cons.prems c e by simp
  note ih = Cons.IH [OF e [folded s']]
  have "pool_state_of s' i = Some Canceled"
    if i: "i \<in> set (k # is)" "pool_state_of s i = Some st" "\<not> is_terminal st" for i st
  proof (cases "pool_state_of s1 i = Some Canceled")
    case True
    with ih settled_state [of s1 s' i Canceled] show ?thesis by simp
  next
    case False
    with cancel_ends [OF c] i have "i \<in> set is" by auto
    moreover from pool_cancel_states [OF c, of i] i False have "pool_state_of s1 i = Some st" by auto
    ultimately show ?thesis using ih i(3) by blast
  qed
  moreover have "settled s s'" using settled_cancel [OF c] ih by (blast intro: settled_trans)
  ultimately show ?case by blast
qed

section \<open>Properties\<close>

text \<open>C10: Cancellation cascades. Canceling a live task succeeds, cancels exactly that task and the
  live tasks that depend on it, directly or through others, leaves the state of every other task,
  and reports each task that changed once, as canceled.\<close>

theorem pool_cancel_cascade:
  assumes "nodes s i = Some n" and "\<not> is_terminal (nstate n)"
    and "pool_cancel now s i = (s', evs, r)"
  shows "r = Ok \<and>
    pool_state_of s' j =
      (if (j = i \<or> descends s i j) \<and> (\<exists>st. pool_state_of s j = Some st \<and> \<not> is_terminal st)
       then Some Canceled else pool_state_of s j) \<and>
    distinct (map ev_task evs) \<and> (\<forall>ev \<in> set evs. ev_state ev = Canceled) \<and>
    ev_task ` set evs = {k. pool_state_of s' k \<noteq> pool_state_of s k}"
proof -
  let ?c = "cancel_self now s i n"
  obtain s2 evs2 where p: "propagate now i ?c = (s2, evs2)" by fastforce
  from pool_cancel_live [OF assms(1,2) p] assms(3) have
    eqs: "s' = s2" "evs = StateEvent i Canceled (progress (ntask n)) # evs2" "r = Ok" by simp_all
  have c: "pool_state_of ?c k = (if k = i then Some Canceled else pool_state_of s k)" for k
    by (simp add: cancel_self_def canceled_node_def pool_state_of_def put_node_def cancel_error_def)
  have si: "pool_state_of s i = Some (nstate n)" using assms(1) by (simp add: pool_state_of_def)
  have d: "descends ?c a b = descends s a b" for a b
    using assms(1) by (intro descends_cong) (simp_all add: cancel_self_def put_node_def)
  have st: "pool_state_of s2 k =
      (if (k = i \<or> descends s i k) \<and> (\<exists>st. pool_state_of s k = Some st \<and> \<not> is_terminal st)
       then Some Canceled else pool_state_of s k)" for k
    using propagate_states [OF p, of k] si assms(2) by (cases "k = i") (auto simp: c d split: if_splits)
  have i: "pool_state_of s2 i = Some Canceled" "pool_state_of s i \<noteq> Some Canceled"
    using propagate_states [OF p, of i] si assms(2) by (auto simp: c)
  note ch = propagate_changed [OF p]
  have "{k. pool_state_of s2 k \<noteq> pool_state_of s k} = insert i {k. pool_state_of s2 k \<noteq> pool_state_of ?c k}"
    using i by (auto simp: c)
  moreover have "i \<notin> ev_task ` set evs2" using ch(3) i by (simp add: c)
  ultimately show ?thesis using ch st unfolding eqs by simp
qed

lemma demo3_edge: "descends demo3 ''a'' ''b''"
  by (rule descends.child) code_simp+

theorem pool_cancel_cascade_witness:
  "pool_state_of (fst (pool_cancel 35 demo3 ''a'')) ''b'' = Some Canceled"
proof -
  have live: "\<not> is_terminal (nstate (demo_node demo3 ''a''))" by code_simp
  have b: "pool_state_of demo3 ''b'' = Some Queued" by code_simp
  obtain s' evs r where c: "pool_cancel 35 demo3 ''a'' = (s', evs, r)" by (metis prod_cases3)
  from pool_cancel_cascade [OF demo3_a live c, of "''b''"] b demo3_edge c show ?thesis by simp
qed

text \<open>C11: Failures cascade. When the stage of a running task returns an error, the task ends
  canceled if the error or its cancel token says so and failed otherwise, it leaves the running
  set and gives its resources back, the live tasks that depend on it are canceled, and no other
  task changes state.\<close>

theorem pool_failure_cascade:
  assumes "nodes s i = Some n" and "nrunning n" and "nstate n = Running"
    and "finalize_execution now s i outs (Inl err) = (s', evs)"
  shows "pool_state_of s' j =
      (if j = i then Some (if category err = Cat_Canceled \<or>
           canceled_opt (pool_heap s) (cancel_token (ntask n)) then Canceled else Failed)
       else if descends s i j \<and> (\<exists>st. pool_state_of s j = Some st \<and> \<not> is_terminal st)
       then Some Canceled else pool_state_of s j) \<and>
    in_use s' = release_resources (demand (ntask n)) (in_use s) \<and>
    running_set s' = remove1 i (running_set s)"
proof -
  let ?f = "finished now s i n outs (Inl err)"
  let ?st = "finish_target s n (Inl err)"
  have st: "?st = (if category err = Cat_Canceled \<or>
      canceled_opt (pool_heap s) (cancel_token (ntask n)) then Canceled else Failed)"
    using assms(3) by (simp add: finish_target_def)
  then have ns: "?st \<noteq> Succeeded" "is_terminal ?st" by simp_all
  obtain s2 evs2 where p: "propagate now i ?f = (s2, evs2)" by fastforce
  from assms p ns have s': "s' = s2" by (simp add: finalize_eq)
  have f: "pool_state_of ?f k = (if k = i then Some ?st else pool_state_of s k)" for k
    using assms(3) ns(1)
    by (simp add: finished_def finished_node_def release_running_def pool_state_of_def put_node_def)
  have d: "descends ?f a b = descends s a b" for a b
    using assms(1) by (intro descends_cong) (simp_all add: finished_def release_running_def put_node_def)
  have fr: "in_use ?f = release_resources (demand (ntask n)) (in_use s)"
    "running_set ?f = remove1 i (running_set s)"
    by (simp_all add: finished_def release_running_def put_node_def)
  have "in_use s2 = in_use ?f" "running_set s2 = running_set ?f"
    using prop_rel_propagate [OF p] by (simp_all add: prop_rel_def)
  with fr propagate_states [OF p, of j] ns(2) show ?thesis
    unfolding s' st [symmetric] by (cases "j = i") (auto simp: f d split: if_splits)
qed

theorem pool_failure_cascade_witness:
  "pool_state_of (fst (finalize_execution 40 demo3 ''a'' Map.empty (Inl err_null_stage))) ''b'' =
     Some Canceled"
proof -
  let ?n = "demo_node demo3 ''a''"
  have n: "nrunning ?n" "nstate ?n = Running" by code_simp+
  have b: "pool_state_of demo3 ''b'' = Some Queued" by code_simp
  obtain s' evs where f: "finalize_execution 40 demo3 ''a'' Map.empty (Inl err_null_stage) = (s', evs)"
    by fastforce
  from pool_failure_cascade [OF demo3_a n f, of "''b''"] b demo3_edge f show ?thesis by simp
qed

text \<open>C12: The cycle guard is exact: it refuses a submission precisely when one of the
  dependencies is reachable from the new task along recorded edges, so that the edge back would
  close a cycle. The search always ends, also on graphs that already have cycles.\<close>

theorem creates_cycle_exact:
  "creates_cycle g i ds \<longleftrightarrow> (\<exists>d \<in> set ds. (d, i) \<in> {(a, b). b \<in> set (succs g a)}\<^sup>*)"
  using creates_cycle_reach [of g i ds] by (simp add: edges_def)

text \<open>C26: The choice of the next task. The chosen candidate is a ready task that fits the hard CPU
  budget; one that exceeds a soft budget is chosen only when nothing runs and no ready task fits;
  and no candidate of its kind has a higher aged priority, or waits longer at the same one, or has
  a smaller id at the same time.\<close>

theorem pool_choice_best:
  assumes "pick_candidate now s True = Some c"
  shows "cand_id c \<in> set (ready_set s) \<and> pool_state_of s (cand_id c) = Some Ready \<and>
    (\<exists>n. nodes s (cand_id c) = Some n \<and> c = mk_candidate now s (cand_id c) n \<and>
       fits_cpu_hard s (demand (ntask n))) \<and>
    (soft_fit c \<or> running_set s = []) \<and>
    (\<forall>j \<in> set (ready_set s). \<forall>n. nodes s j = Some n \<and> nstate n = Ready \<and>
       fits_cpu_hard s (demand (ntask n)) \<longrightarrow>
       (soft_fit (mk_candidate now s j n) \<longrightarrow> soft_fit c) \<and>
       (soft_fit (mk_candidate now s j n) = soft_fit c \<longrightarrow>
          \<not> better_than (mk_candidate now s j n) c))"
proof -
  note pick = pick_candidate_Some [OF assms]
  from pick(2) obtain n where n: "nodes s (cand_id c) = Some n" "nstate n = Ready"
    "fits_cpu_hard s (demand (ntask n))" "c = mk_candidate now s (cand_id c) n"
    by (auto simp: eligible_Some)
  have st: "pool_state_of s (cand_id c) = Some Ready" using n(1,2) by (simp add: pool_state_of_def)
  have best: "(soft_fit (mk_candidate now s j m) \<longrightarrow> soft_fit c) \<and>
      (soft_fit (mk_candidate now s j m) = soft_fit c \<longrightarrow> \<not> better_than (mk_candidate now s j m) c)"
    if "j \<in> set (ready_set s)" "nodes s j = Some m" "nstate m = Ready"
      "fits_cpu_hard s (demand (ntask m))" for j m
  proof -
    have "eligible now s j = Some (mk_candidate now s j m)" using that by (simp add: eligible_Some)
    with pick(4,5) that(1) show ?thesis by blast
  qed
  from pick(3) have "soft_fit c \<or> running_set s = []" by simp
  with pick(1) st n(1,3,4) best show ?thesis by blast
qed

theorem pool_choice_best_witness:
  "\<exists>c. pick_candidate 30 demo2 True = Some c \<and> pool_state_of demo2 (cand_id c) = Some Ready"
proof -
  have "pick_candidate 30 demo2 True \<noteq> None" by code_simp
  then obtain c where c: "pick_candidate 30 demo2 True = Some c" by blast
  with pool_choice_best [OF c] show ?thesis by blast
qed

text \<open>The choice does not depend on the iteration order of the hash set of ready tasks.\<close>

theorem pool_choice_deterministic:
  assumes "set r1 = set r2"
  shows "pick_candidate now (s\<lparr>ready_set := r1\<rparr>) esc = pick_candidate now (s\<lparr>ready_set := r2\<rparr>) esc"
  using assms by (rule pick_order_independent)

theorem pool_choice_deterministic_witness:
  "pick_candidate 50 (demo4\<lparr>ready_set := [''b'', ''a'']\<rparr>) True =
   pick_candidate 50 (demo4\<lparr>ready_set := [''a'', ''b'', ''b'']\<rparr>) True"
  by (rule pool_choice_deterministic) auto

text \<open>The configuration in force is usable whatever was asked for: at least one worker, at least
  one CPU slot, no negative soft budget, positive aging and pause parameters; an automatic worker
  count is four, or between two and eight; positive requests are kept.\<close>

theorem normalize_config_sound:
  "(let c' = normalize_config hw c; b' = resource_budget c' in
    1 \<le> worker_count c' \<and> 1 \<le> cpu_slots_hard b' \<and> 0 \<le> ram_soft_mb b' \<and> 0 \<le> vram_soft_mb b' \<and>
    1 \<le> interval_ms (aging_policy c') \<and> 1 \<le> boost_per_interval (aging_policy c') \<and>
    1 \<le> checkpoint_timeout_ms (pause_policy c') \<and>
    (if worker_count c \<le> 0 then 2 \<le> worker_count c' \<and> worker_count c' \<le> 8
     else worker_count c' = worker_count c) \<and>
    cpu_slots_hard b' = (if cpu_slots_hard (resource_budget c) \<le> 0 then worker_count c'
      else cpu_slots_hard (resource_budget c)) \<and>
    normalize_config hw c' = c')"
  by (simp add: normalize_config_def normalize_budget_def clamp_auto_workers_def clamp_int_def Let_def)

text \<open>C36: A tick settles every overdue pause: a running task whose pause request has passed its
  deadline ends canceled, no overdue request is left, and a terminal task is not touched.\<close>

theorem pool_tick_expires:
  assumes "wf_index s" and "pool_tick now s = (s', evs)"
  shows "(pause_expired now s i \<longrightarrow> pool_state_of s' i = Some Canceled) \<and> \<not> pause_expired now s' i \<and>
    (pool_state_of s i = Some st \<and> is_terminal st \<longrightarrow> pool_state_of s' i = Some st)"
proof -
  let ?is = "filter (pause_expired now s) (node_order s)"
  from assms(2) have ce: "cancel_each now s ?is = (s', evs)" by (simp add: pool_tick_def)
  note facts = cancel_each_facts [OF ce]
  have canceled: "pool_state_of s' i = Some Canceled" if "pause_expired now s i"
  proof -
    from that obtain n where n: "nodes s i = Some n" "nstate n = Running"
      by (auto simp: pause_expired_def split: option.splits)
    with assms(1) have "i \<in> set (node_order s)" by (auto simp: wf_index_def)
    with that facts n show ?thesis by (auto simp: pool_state_of_def)
  qed
  moreover have "\<not> pause_expired now s' i"
  proof
    assume e: "pause_expired now s' i"
    then obtain n' where n': "nodes s' i = Some n'" "nstate n' = Running"
      by (auto simp: pause_expired_def split: option.splits)
    then have "nodes s' i = nodes s i" using facts unfolding settled_def by fastforce
    with e have "pause_expired now s i" by (simp add: pause_expired_def)
    with canceled n' show False by (simp add: pool_state_of_def)
  qed
  ultimately show ?thesis using facts settled_state by blast
qed

definition overdue :: pool where "overdue = fst (pause_begin 35 demo3 ''a'')"

theorem pool_tick_expires_witness:
  "pause_expired 1500000035 overdue ''a'' \<and>
   pool_state_of (fst (pool_tick 1500000035 overdue)) ''a'' = Some Canceled"
proof -
  have e: "pause_expired 1500000035 overdue ''a''" by code_simp
  have "pool_reach 4 demo_config demo_events3 overdue [Some ''a'', None]"
    by (rule run_pause [OF demo_reach3, of overdue 35 "''a''"]) (simp add: overdue_def, code_simp)
  from reach_parts(8) [OF demo_sane this] have w: "wf_index overdue" .
  obtain s' evs where t: "pool_tick 1500000035 overdue = (s', evs)" by fastforce
  from pool_tick_expires [OF w t, of "''a''"] e t show ?thesis by simp
qed

section \<open>What a rejected submission leaves behind\<close>

text \<open>Edges to the new task are recorded up to the first dependency that is missing.\<close>

lemma link_deps_missing:
  assumes "i \<notin> set ds" "m \<noteq> i" "nodes s m = None"
    and "\<forall>d \<in> set ds. \<exists>st. pool_state_of s d = Some st \<and> st \<noteq> Failed \<and> st \<noteq> Canceled"
  shows "\<exists>g. link_deps s i (ds @ m # rest) u = (s\<lparr>successors := g\<rparr>, Link_error (err_dep_missing m)) \<and>
    (\<forall>d. succs g d = succs (successors s) d @ replicate (count_list ds d) i)"
  using assms
proof (induction ds arbitrary: s u)
  case Nil
  then show ?case by (intro exI [of _ "successors s"]) simp
next
  case (Cons d ds)
  let ?s1 = "s\<lparr>successors := add_edge d i (successors s)\<rparr>"
  have d: "d \<noteq> i" using Cons.prems(1) by auto
  from Cons.prems(4) obtain n where n: "nodes s d = Some n" "nstate n \<noteq> Failed" "nstate n \<noteq> Canceled"
    by (auto simp: pool_state_of_def)
  have "\<exists>g. link_deps ?s1 i (ds @ m # rest) v = (?s1\<lparr>successors := g\<rparr>, Link_error (err_dep_missing m)) \<and>
      (\<forall>e. succs g e = succs (successors ?s1) e @ replicate (count_list ds e) i)" for v
    by (rule Cons.IH) (use Cons.prems in \<open>simp_all add: pool_state_of_def\<close>)
  from this [of "if nstate n = Succeeded then u else Suc u"] obtain g where
    g: "link_deps ?s1 i (ds @ m # rest) (if nstate n = Succeeded then u else Suc u) =
        (s\<lparr>successors := g\<rparr>, Link_error (err_dep_missing m))"
      "\<forall>e. succs g e = succs (successors ?s1) e @ replicate (count_list ds e) i" by auto
  from g(1) n d have "link_deps s i ((d # ds) @ m # rest) u = (s\<lparr>successors := g\<rparr>, Link_error (err_dep_missing m))"
    by (simp split: if_splits)
  moreover have "succs g e = succs (successors s) e @ replicate (count_list (d # ds) e) i" for e
    using g(2) by (simp add: succs_add_edge)
  ultimately show ?case by blast
qed

text \<open>No operation removes an edge.\<close>

lemma edges_step:
  assumes st: "pool_step s ws evs s' ws'" and inv: "sys_inv s ws"
  shows "edges (successors s) \<subseteq> edges (successors s')"
proof -
  have grown: "edges (successors s) \<subseteq> edges g"
    if "\<forall>d. \<exists>c \<le> k d. succs g d = succs (successors s) d @ replicate c i" for g i and k :: "string \<Rightarrow> nat"
    using that unfolding edges_def by (metis (no_types, lifting) Collect_mono_iff UnCI case_prodD case_prodI2 set_append)
  show ?thesis
    using st inv
  proof (cases rule: step_kinds)
    case calm
    then show ?thesis by (simp add: changes_def)
  next
    case (submission t now stg r)
    from submission(4) fresh_queued [OF submission(1)] show ?thesis
    proof (cases rule: pool_submit_outcome)
      case (refused h g e)
      from grown [OF refused(5)] refused(1) show ?thesis by simp
    next
      case (inserted sg h g lr m)
      from grown [OF inserted(17)] show ?thesis by (simp add: inserted(6) emplace_node_def)
    qed
  next
    case (ending k x now outs res m)
    from finalize_other(1) [OF ending(4-7)] show ?thesis by simp
  qed simp
qed

lemma edges_run:
  assumes "pool_run s ws evs s' ws'" "sys_inv s ws"
  shows "edges (successors s) \<subseteq> edges (successors s')"
proof -
  from assms have "sys_inv s' ws' \<and> edges (successors s) \<subseteq> edges (successors s')"
  proof (induction rule: pool_run.induct)
    case (run_next s ws evs s1 ws1 evs1 s2 ws2)
    with edges_step sys_inv_step show ?case by blast
  qed simp
  then show ?thesis by simp
qed

lemma edge_refuses:
  assumes "t' \<in> set (succs (successors s) d)" "task_id t = t'" "d \<in> set (deps t)"
  shows "\<exists>s' e. pool_submit now s t stg = (s', [], Inl e) \<and> nodes s' = nodes s"
proof -
  have "(d, task_id t) \<in> (edges (successors s))\<^sup>*" using assms by (auto simp: edges_def)
  with assms(3) have cyc: "creates_cycle (successors s) (task_id t) (deps t)" by (auto simp: creates_cycle_reach)
  obtain s' evs r where sub: "pool_submit now s t stg = (s', evs, r)" by (metis prod_cases3)
  then show ?thesis by (cases rule: pool_submit_cases) (use sub cyc in auto)
qed

text \<open>C40: A submission that is refused for a missing dependency is not undone, and it cannot be repeated. Let a
  task that would be accepted otherwise be submitted with a dependency \<open>m\<close> that is not known, after
  dependencies \<open>ds\<close> that are known and have not failed. It is refused and no task is stored, but one edge
  stays for each mention in \<open>ds\<close>; and in every further run, also after \<open>m\<close> has been submitted, every
  submission under that id with one of \<open>ds\<close> among its dependencies is refused.\<close>

theorem pool_rejection_leaks:
  assumes "sane_config c" and "pool_reach hw c evs s ws"
    and "fresh_task t" and "sane_demand (config s) (demand t)" and "unleaked s (task_id t)"
    and "task_id t \<noteq> []" and "nodes s (task_id t) = None" and "task_id t \<notin> set (deps t)"
    and "cpu_slots (normalize_demand (demand t)) \<le> cpu_slots_hard (budget s)"
    and "deps t = ds @ m # rest" and "nodes s m = None"
    and "\<forall>d \<in> set ds. \<exists>st. pool_state_of s d = Some st \<and> st \<noteq> Failed \<and> st \<noteq> Canceled"
    and "pool_submit now s t (Some sg) = (s', evs1, r)"
  shows "r = Inl (err_dep_missing m) \<and> evs1 = [] \<and> nodes s' = nodes s \<and> node_order s' = node_order s \<and>
    (\<forall>d. succs (successors s') d = succs (successors s) d @ replicate (count_list ds d) (task_id t)) \<and>
    (\<forall>evs2 s2 ws2 t2 later stg. pool_run s' ws evs2 s2 ws2 \<and> task_id t2 = task_id t \<and> set ds \<inter> set (deps t2) \<noteq> {} \<longrightarrow>
       (\<exists>s3 e. pool_submit later s2 t2 stg = (s3, [], Inl e) \<and> nodes s3 = nodes s2))"
proof -
  have free: "\<not> creates_cycle (successors s) (task_id t) (deps t)"
  proof
    assume "creates_cycle (successors s) (task_id t) (deps t)"
    then obtain d where d: "d \<in> set (deps t)" "(d, task_id t) \<in> (edges (successors s))\<^sup>*"
      by (auto simp: creates_cycle_reach)
    with assms(8) have "d \<noteq> task_id t" by auto
    with d(2) obtain e where "(e, task_id t) \<in> edges (successors s)" by (metis rtranclE)
    with assms(5,7) show False by (simp add: unleaked_def edges_def)
  qed
  let ?t1 = "t\<lparr>demand := normalize_demand (demand t)\<rparr>"
  obtain s1 t2 where tok: "ensure_token s ?t1 = (s1, t2)" by fastforce
  from ensure_token_frame [OF tok] obtain h tk where
    s1: "s1 = s\<lparr>pool_heap := h\<rparr>" and t2: "t2 = ?t1\<lparr>cancel_token := tk\<rparr>" by blast
  have "task_id t \<notin> set ds" "m \<noteq> task_id t" using assms(8,10) by auto
  then obtain g where g: "link_deps s1 (task_id t) (deps t) 0 = (s1\<lparr>successors := g\<rparr>, Link_error (err_dep_missing m))"
    "\<forall>d. succs g d = succs (successors s) d @ replicate (count_list ds d) (task_id t)"
    using link_deps_missing [of "task_id t" ds m s1 rest 0] assms(10-12) by (auto simp: s1 pool_state_of_def)
  from assms(13) have "s' = s\<lparr>pool_heap := h, successors := g\<rparr> \<and> evs1 = [] \<and> r = Inl (err_dep_missing m)"
    using assms(6,7,9) free tok s1 t2 g(1) by (simp add: pool_submit_def Let_def insert_linked_def)
  then have s': "s' = s\<lparr>pool_heap := h, successors := g\<rparr>" "evs1 = []" "r = Inl (err_dep_missing m)" by simp_all
  have inv: "sys_inv s' ws"
    by (rule sys_inv_step [OF step_submit [OF assms(3-5,13)] pool_reach_inv [OF assms(1,2)]])
  have again: "\<exists>s3 e. pool_submit later s2 u stg = (s3, [], Inl e) \<and> nodes s3 = nodes s2"
    if run: "pool_run s' ws evs2 s2 ws2" "task_id u = task_id t" "set ds \<inter> set (deps u) \<noteq> {}"
    for evs2 s2 ws2 u later stg
  proof -
    from run(3) obtain d where d: "d \<in> set ds" "d \<in> set (deps u)" by blast
    then have "count_list ds d \<noteq> 0" by (simp add: count_list_0_iff)
    with g(2) have "(d, task_id t) \<in> edges (successors s')" by (simp add: s'(1) edges_def)
    with edges_run [OF run(1) inv] have "task_id t \<in> set (succs (successors s2) d)" by (auto simp: edges_def)
    from edge_refuses [OF this run(2) d(2)] show ?thesis .
  qed
  have "\<forall>d. succs (successors s') d = succs (successors s) d @ replicate (count_list ds d) (task_id t)"
    using g(2) s'(1) by simp
  moreover have "nodes s' = nodes s" "node_order s' = node_order s" by (simp_all add: s'(1))
  ultimately show ?thesis using again s'(2,3) by blast
qed

text \<open>
  \<open>b\<close> is submitted with the dependencies \<open>a\<close>, known, and \<open>z\<close>, unknown. Then \<open>z\<close> is submitted, and
  \<open>b\<close> again: with both dependencies it is refused as a cycle; with \<open>z\<close> alone it is accepted, and ready
  while \<open>z\<close> has not even started, since the success of \<open>a\<close> is counted for it.
\<close>

definition stale_b :: "string list \<Rightarrow> task_descriptor" where
  "stale_b ds = (new_task 0 ''b'' ''t'' ImageGen)\<lparr>deps := ds\<rparr>"

definition stale_z :: task_descriptor where
  "stale_z = new_task 0 ''z'' ''t'' Storyboard"

definition stale1 :: "pool sched_result" where
  "stale1 = pool_submit 20 demo1 (stale_b [''a'', ''z'']) (Some MockImageGenStage)"
definition stale2 :: "pool sched_result" where
  "stale2 = pool_submit 21 (fst stale1) stale_z (Some MockStoryboardStage)"
definition stale3 :: "string list \<Rightarrow> pool sched_result" where
  "stale3 ds = pool_submit 22 (fst stale2) (stale_b ds) (Some MockImageGenStage)"
definition stale4 :: pool where
  "stale4 = fst (finalize_execution 40 (fst (worker_begin 30 (fst (stale3 [''z''])))) ''a'' Map.empty Ok)"

definition rejected_with :: "task_error \<Rightarrow> pool sched_result \<Rightarrow> bool" where
  "rejected_with e res = (case snd (snd res) of Inl x \<Rightarrow> code x = code e \<and> internal_message x = internal_message e
     | Inr u \<Rightarrow> False)"

definition accepted :: "pool sched_result \<Rightarrow> bool" where
  "accepted res = (case snd (snd res) of Inl x \<Rightarrow> False | Inr u \<Rightarrow> True)"

lemma stale_scenario:
  "rejected_with (err_dep_missing ''z'') stale1 \<and> accepted stale2 \<and>
   rejected_with (err_cycle ''b'') (stale3 [''a'', ''z'']) \<and> accepted (stale3 [''z'']) \<and>
   pool_state_of stale4 ''b'' = Some Ready \<and> pool_state_of stale4 ''z'' = Some Ready"
  by (intro conjI) code_simp+

theorem pool_rejection_leaks_witness:
  "accepted stale2 \<and> nodes (fst stale2) ''z'' \<noteq> None \<and>
   \<not> (\<exists>ds. ''a'' \<in> set ds \<and> accepted (stale3 ds))"
proof (intro conjI notI)
  show "accepted stale2" by code_simp
  have "nodes (fst stale2) ''z'' \<noteq> None" by code_simp
  then show False if "nodes (fst stale2) ''z'' = None" using that by simp
  assume "\<exists>ds. ''a'' \<in> set ds \<and> accepted (stale3 ds)"
  then obtain ds where ds: "''a'' \<in> set ds" and acc: "accepted (stale3 ds)" by blast
  let ?t = "stale_b [''a'', ''z'']"
  obtain s' evs r where one: "stale1 = (s', evs, r)" by (metis prod_cases3)
  obtain s2 evs2 r2 where two: "stale2 = (s2, evs2, r2)" by (metis prod_cases3)
  have t: "fresh_task ?t" "task_id ?t \<noteq> []" "task_id ?t \<notin> set (deps ?t)" "deps ?t = [''a''] @ ''z'' # []"
    by (simp_all add: stale_b_def fresh_task_def task_wf_def new_task_def)
  have z: "fresh_task stale_z" by (simp add: stale_z_def fresh_task_def task_wf_def new_task_def)
  have s: "sane_demand (config demo1) (demand ?t)" "nodes demo1 (task_id ?t) = None" "nodes demo1 ''z'' = None"
    "cpu_slots (normalize_demand (demand ?t)) \<le> cpu_slots_hard (budget demo1)" by code_simp+
  have "list_all (\<lambda>(d, ks). task_id ?t \<notin> set ks) (successors demo1)" by code_simp
  note free = unleaked_listed [OF this]
  have "pool_state_of demo1 ''a'' = Some Ready" by code_simp
  then have known: "\<forall>d \<in> set [''a'']. \<exists>st. pool_state_of demo1 d = Some st \<and> st \<noteq> Failed \<and> st \<noteq> Canceled" by simp
  have "sane_demand (config (fst stale1)) (demand stale_z)" by code_simp
  then have dz: "sane_demand (config s') (demand stale_z)" by (simp add: one)
  have "list_all (\<lambda>(d, ks). task_id stale_z \<notin> set ks) (successors (fst stale1))" by code_simp
  then have fz: "unleaked s' (task_id stale_z)" using unleaked_listed by (simp add: one)
  have "pool_submit 21 s' stale_z (Some MockStoryboardStage) = (s2, evs2, r2)"
    using two by (simp add: stale2_def one)
  from run_next [OF run_here step_submit [OF z dz fz this]] have "pool_run s' [None, None] ([] @ evs2) s2 [None, None]" .
  moreover have "task_id (stale_b ds) = task_id ?t" "set [''a''] \<inter> set (deps (stale_b ds)) \<noteq> {}"
    using ds by (simp_all add: stale_b_def new_task_def)
  ultimately obtain s3 e where "pool_submit 22 s2 (stale_b ds) (Some MockImageGenStage) = (s3, [], Inl e)"
    using pool_rejection_leaks [OF demo_sane demo_reach1 t(1) s(1) free t(2) s(2) t(3) s(4) t(4) s(3) known
        one [unfolded stale1_def]] by blast
  with acc show False by (simp add: stale3_def two accepted_def)
qed

section \<open>Pause and resume\<close>

text \<open>Pausing a waiting task takes it out of the ready set, and resuming puts it back where it
  was: ready again, with the wait counted anew, or queued. Each reports one event; a second pause
  of a paused task succeeds without one.\<close>

theorem pool_pause_resume:
  assumes "nodes s i = Some n" and "nstate n = Queued \<or> nstate n = Ready" and "task_wf (ntask n)"
    and "distinct (ready_set s)" and "i \<in> set (ready_set s) \<longleftrightarrow> nstate n = Ready"
    and "pause_begin now s i = (s1, evs1, out)" and "pool_resume later s1 i = (s2, evs2, r)"
  shows "out = Pause_done Ok \<and> evs1 = [StateEvent i Paused (progress (ntask n))] \<and>
    pool_state_of s1 i = Some Paused \<and> i \<notin> set (ready_set s1) \<and>
    pause_begin later s1 i = (s1, [], Pause_done Ok) \<and>
    r = Ok \<and> evs2 = [StateEvent i (nstate n) (progress (ntask n))] \<and>
    pool_state_of s2 i = Some (nstate n) \<and> set (ready_set s2) = set (ready_set s) \<and>
    (nstate n = Ready \<longrightarrow> (\<exists>n2. nodes s2 i = Some n2 \<and> ready_since n2 = later)) \<and>
    (\<forall>j. j \<noteq> i \<longrightarrow> nodes s2 j = nodes s j)"
proof -
  let ?t = "apply_transition now (ntask n) Paused"
  have leg: "legal (nstate n) Paused" using assms(2) by auto
  have t: "tstate ?t = Paused" "paused_from ?t = Some (nstate n)" "progress ?t = progress (ntask n)"
    using assms(2) by (auto simp: apply_transition_def Let_def)
  let ?s1 = "put_node i (n\<lparr>ntask := ?t\<rparr>)
    (s\<lparr>ready_set := (if nstate n = Ready then remove1 i (ready_set s) else ready_set s)\<rparr>)"
  have p: "pause_begin now s i = (?s1, [StateEvent i Paused (progress (ntask n))], Pause_done Ok)"
    using assms(1,2) leg t(3) by (auto simp: pause_begin_def transition_to_def)
  with assms(6) have eq1: "s1 = ?s1" "evs1 = [StateEvent i Paused (progress (ntask n))]"
    "out = Pause_done Ok" by simp_all
  have n1: "nodes s1 i = Some (n\<lparr>ntask := ?t\<rparr>)" by (simp add: eq1 put_node_def)
  have target: "resume_target ?t = nstate n" using t(2) assms(2) by (auto simp: resume_target_def)
  let ?t2 = "apply_transition later ?t (nstate n)"
  have tr: "transition_to later ?t (nstate n) = Inr ?t2"
    using t(1) assms(2) by (auto simp: transition_to_def)
  have t2: "tstate ?t2 = nstate n" "progress ?t2 = progress (ntask n)"
    using t assms(2) by (auto simp: apply_transition_def Let_def)
  from assms(7) n1 t(1) target tr t2 have eq2: "r = Ok" "evs2 = [StateEvent i (nstate n) (progress (ntask n))]"
    "ready_set s2 = (if nstate n = Ready then set_insert i (ready_set s1) else ready_set s1)"
    "nodes s2 i = Some (let n1 = (clear_pause (n\<lparr>ntask := ?t\<rparr>))\<lparr>ntask := ?t2\<rparr> in
        if nstate n = Ready then n1\<lparr>ready_since := later\<rparr> else n1)"
    "\<And>j. j \<noteq> i \<Longrightarrow> nodes s2 j = nodes s1 j"
    by (auto simp: pool_resume_def Let_def put_node_def)
  have out: "i \<notin> set (ready_set s1)" using assms(4,5) by (simp add: eq1 put_node_def)
  have rs: "set (ready_set s2) = set (ready_set s)"
    using assms(4,5) by (auto simp: eq1 eq2 put_node_def set_insert_def)
  have "pool_state_of s1 i = Some Paused" "pool_state_of s2 i = Some (nstate n)"
    using n1 t(1) eq2(4) t2(1) by (simp_all add: pool_state_of_def Let_def)
  moreover have "pause_begin later s1 i = (s1, [], Pause_done Ok)" using n1 t(1) by (simp add: pause_begin_def)
  moreover have "\<exists>n2. nodes s2 i = Some n2 \<and> ready_since n2 = later" if "nstate n = Ready"
    using that eq2(4) by (simp add: Let_def)
  moreover have "nodes s2 j = nodes s j" if "j \<noteq> i" for j
    using that eq2(5) by (simp add: eq1 put_node_def)
  ultimately show ?thesis using eq1(2,3) eq2(1,2) out rs by blast
qed

theorem pool_pause_resume_witness:
  "pool_state_of (fst (pool_resume 60 (fst (pause_begin 50 demo4 ''b'')) ''b'')) ''b'' = Some Ready"
proof -
  let ?n = "demo_node demo4 ''b''"
  have st: "nstate ?n = Ready" and rs: "ready_set demo4 = [''b'']" by code_simp+
  have w: "task_wf (ntask ?n)" using reach_parts(1) [OF demo_sane demo_reach4] demo4_b
    by (simp add: wf_nodes_def node_ok_def)
  obtain s1 e1 o1 where p: "pause_begin 50 demo4 ''b'' = (s1, e1, o1)" by (metis prod_cases3)
  obtain s2 e2 r where q: "pool_resume 60 s1 ''b'' = (s2, e2, r)" by (metis prod_cases3)
  from pool_pause_resume [OF demo4_b _ w _ _ p q] st rs p q show ?thesis by simp
qed

end
