(* ===== verification/Pool_Live.thy ===== *)
theory Pool_Live
  imports Pool_Operations
begin

text \<open>
  The thread-pool scheduler does not get stuck. As long as no task was ever paused, a task that has
  not ended implies a task that runs or is ready to run, and a single worker of \<open>worker_loop\<close> that
  is left alone ends every task, whatever the stages return. The reason is that the count of unmet
  dependencies is exact, that no live task hangs on a failed or canceled one, and that dependencies
  are submitted before the tasks that name them.
\<close>

section \<open>The invariant of a run without pauses\<close>

text \<open>
  A live task is registered with its dependencies that have not ended, once per mention, and the
  others succeeded. Tasks in \<open>X\<close> have just ended and have not been propagated yet.
\<close>

definition live_deps :: "string set \<Rightarrow> pool \<Rightarrow> bool" where
  "live_deps X s \<longleftrightarrow>
     (\<forall>i n d. nodes s i = Some n \<longrightarrow> \<not> is_terminal (nstate n) \<longrightarrow> d \<in> set (deps (ntask n)) \<longrightarrow>
        (\<exists>m. nodes s d = Some m \<and>
           (is_terminal (nstate m) \<and> d \<notin> X \<longrightarrow> nstate m = Succeeded) \<and>
           (is_terminal (nstate m) \<longrightarrow> d \<in> X \<longrightarrow> i \<in> set (succs (successors s) d)) \<and>
           (\<not> is_terminal (nstate m) \<longrightarrow>
              count_list (deps (ntask n)) d \<le> count_list (succs (successors s) d) i)))"

text \<open>A queued task waits for something, and counts no more than what it waits for.\<close>

definition counts_ok :: "string list \<Rightarrow> pool \<Rightarrow> bool" where
  "counts_ok slack s \<longleftrightarrow>
     (\<forall>i n. nodes s i = Some n \<longrightarrow> nstate n = Queued \<longrightarrow>
        0 < unmet_deps n \<and> unmet_deps n \<le> unmet_count s (deps (ntask n)) + count_list slack i)"

definition deps_before :: "pool \<Rightarrow> bool" where
  "deps_before s \<longleftrightarrow>
     (\<forall>pre i post n. node_order s = pre @ i # post \<longrightarrow> nodes s i = Some n \<longrightarrow>
        \<not> is_terminal (nstate n) \<longrightarrow> set (deps (ntask n)) \<subseteq> set pre)"

definition live_inv :: "string set \<Rightarrow> string list \<Rightarrow> pool \<Rightarrow> bool" where
  "live_inv X slack s \<longleftrightarrow> live_deps X s \<and> counts_ok slack s \<and> deps_before s"

definition never_paused :: "pool \<Rightarrow> bool" where
  "never_paused s \<longleftrightarrow> (\<forall>i n. nodes s i = Some n \<longrightarrow> nstate n \<noteq> Paused)"

section \<open>The first task that has not ended\<close>

lemma first_pending:
  assumes inv: "live_inv {} [] s" and np: "never_paused s" and w: "wf_index s" and p: "pool_has_pending s"
  shows "\<exists>i n. nodes s i = Some n \<and> (nstate n = Ready \<or> nstate n = Running)"
proof -
  let ?P = "\<lambda>i. case nodes s i of None \<Rightarrow> False | Some n \<Rightarrow> \<not> is_terminal (nstate n)"
  from p have "\<exists>i \<in> set (node_order s). ?P i" by (auto simp: pool_has_pending_def list_ex_iff)
  then obtain pre i post where o: "node_order s = pre @ i # post" "?P i" "\<forall>x \<in> set pre. \<not> ?P x"
    using split_list_first_prop [of "node_order s" ?P] by blast
  then obtain n where n: "nodes s i = Some n" "\<not> is_terminal (nstate n)" by (auto split: option.splits)
  have sub: "set (deps (ntask n)) \<subseteq> set pre"
    using inv o(1) n by (auto simp: live_inv_def deps_before_def)
  have "nstate n \<noteq> Queued"
  proof
    assume q: "nstate n = Queued"
    have "done_in s d" if d: "d \<in> set (deps (ntask n))" for d
    proof -
      from inv n d obtain m where m: "nodes s d = Some m" "is_terminal (nstate m) \<longrightarrow> nstate m = Succeeded"
        unfolding live_inv_def live_deps_def by blast
      from sub d o(3) m(1) have "is_terminal (nstate m)" by fastforce
      with m show ?thesis by (simp add: done_in_def)
    qed
    then have "unmet_count s (deps (ntask n)) = 0" by (simp add: unmet_count_def filter_empty_conv)
    with inv n(1) q show False by (fastforce simp: live_inv_def counts_ok_def)
  qed
  with n np show ?thesis by (cases "nstate n") (auto simp: never_paused_def)
qed

section \<open>Operations that end tasks\<close>

definition alike :: "pool \<Rightarrow> pool \<Rightarrow> bool" where
  "alike s s' \<longleftrightarrow> successors s' = successors s \<and> node_order s' = node_order s \<and>
     (\<forall>i. rel_option (\<lambda>n n'. deps (ntask n') = deps (ntask n) \<and> nstate n' = nstate n \<and>
                             unmet_deps n' = unmet_deps n) (nodes s i) (nodes s' i))"

lemma alike_refl [simp]: "alike s s"
  by (simp add: alike_def option.rel_refl)

lemma alike_put:
  assumes "nodes s i = Some n" "deps (ntask n') = deps (ntask n)" "nstate n' = nstate n"
    "unmet_deps n' = unmet_deps n" and "nodes s' = (nodes s)(i \<mapsto> n')"
    "successors s' = successors s" "node_order s' = node_order s"
  shows "alike s s'"
  using assms by (auto simp: alike_def option.rel_refl)

lemma alike_back:
  assumes "alike s s'" "nodes s' i = Some n'"
  obtains n where "nodes s i = Some n" "deps (ntask n') = deps (ntask n)" "nstate n' = nstate n"
    "unmet_deps n' = unmet_deps n"
proof -
  let ?R = "\<lambda>n n'. deps (ntask n') = deps (ntask n) \<and> nstate n' = nstate n \<and> unmet_deps n' = unmet_deps n"
  have "rel_option ?R (nodes s i) (nodes s' i)" using assms(1) by (simp add: alike_def)
  with assms(2) that show thesis by (auto simp: option_rel_Some2)
qed

lemma alike_forth:
  assumes "alike s s'" "nodes s i = Some n"
  obtains n' where "nodes s' i = Some n'" "deps (ntask n') = deps (ntask n)" "nstate n' = nstate n"
    "unmet_deps n' = unmet_deps n"
proof -
  let ?R = "\<lambda>n n'. deps (ntask n') = deps (ntask n) \<and> nstate n' = nstate n \<and> unmet_deps n' = unmet_deps n"
  have "rel_option ?R (nodes s i) (nodes s' i)" using assms(1) by (simp add: alike_def)
  with assms(2) that show thesis by (auto simp: option_rel_Some1)
qed

lemma alike_done: "alike s s' \<Longrightarrow> done_in s' = done_in s"
  by (rule ext) (auto simp: done_in_def elim: alike_back alike_forth)

lemma alike_live:
  assumes a: "alike s s'" and l: "live_inv X slack s"
  shows "live_inv X slack s'"
  unfolding live_inv_def
proof (intro conjI)
  have eq: "successors s' = successors s" "node_order s' = node_order s" using a by (simp_all add: alike_def)
  show "live_deps X s'"
    unfolding live_deps_def eq
  proof (intro allI impI)
    fix i n' d
    assume "nodes s' i = Some n'" and live: "\<not> is_terminal (nstate n')" "d \<in> set (deps (ntask n'))"
    from alike_back [OF a this(1)] obtain n where n: "nodes s i = Some n" "deps (ntask n') = deps (ntask n)"
      "nstate n' = nstate n" .
    with l live obtain m where m: "nodes s d = Some m"
      "is_terminal (nstate m) \<and> d \<notin> X \<longrightarrow> nstate m = Succeeded"
      "is_terminal (nstate m) \<longrightarrow> d \<in> X \<longrightarrow> i \<in> set (succs (successors s) d)"
      "\<not> is_terminal (nstate m) \<longrightarrow> count_list (deps (ntask n)) d \<le> count_list (succs (successors s) d) i"
      unfolding live_inv_def live_deps_def by (metis (no_types, lifting))
    from alike_forth [OF a m(1)] obtain m' where "nodes s' d = Some m'" "nstate m' = nstate m" .
    with m(2-) n(2) show "\<exists>m. nodes s' d = Some m \<and>
        (is_terminal (nstate m) \<and> d \<notin> X \<longrightarrow> nstate m = Succeeded) \<and>
        (is_terminal (nstate m) \<longrightarrow> d \<in> X \<longrightarrow> i \<in> set (succs (successors s) d)) \<and>
        (\<not> is_terminal (nstate m) \<longrightarrow>
           count_list (deps (ntask n')) d \<le> count_list (succs (successors s) d) i)" by simp
  qed
  show "counts_ok slack s'"
    unfolding counts_ok_def
  proof (intro allI impI)
    fix i n'
    assume n': "nodes s' i = Some n'" "nstate n' = Queued"
    from alike_back [OF a n'(1)] obtain n where "nodes s i = Some n" "deps (ntask n') = deps (ntask n)"
      "nstate n' = nstate n" "unmet_deps n' = unmet_deps n" .
    with l n'(2) show "0 < unmet_deps n' \<and>
        unmet_deps n' \<le> unmet_count s' (deps (ntask n')) + count_list slack i"
      by (simp add: live_inv_def counts_ok_def unmet_count_def alike_done [OF a])
  qed
  show "deps_before s'"
    unfolding deps_before_def eq
  proof (intro allI impI)
    fix pre i post n'
    assume o: "node_order s = pre @ i # post" and n': "nodes s' i = Some n'" "\<not> is_terminal (nstate n')"
    from alike_back [OF a n'(1)] obtain n where "nodes s i = Some n" "deps (ntask n') = deps (ntask n)"
      "nstate n' = nstate n" .
    with l o n'(2) show "set (deps (ntask n')) \<subseteq> set pre" by (simp add: live_inv_def deps_before_def)
  qed
qed

text \<open>A live task ends in failure or cancellation.\<close>

lemma live_end:
  assumes l: "live_inv {} [] s" and n: "nodes s i = Some n" "nstate n \<noteq> Succeeded"
    and n': "deps (ntask n') = deps (ntask n)" "nstate n' = Failed \<or> nstate n' = Canceled"
    and s': "nodes s' = (nodes s)(i \<mapsto> n')" "successors s' = successors s" "node_order s' = node_order s"
  shows "live_inv {i} [] s'"
  unfolding live_inv_def
proof (intro conjI)
  have ti: "is_terminal (nstate n')" using n'(2) by auto
  show "live_deps {i} s'"
    unfolding live_deps_def
  proof (intro allI impI)
    fix k m d
    assume k: "nodes s' k = Some m" "\<not> is_terminal (nstate m)" "d \<in> set (deps (ntask m))"
    with ti have ki: "k \<noteq> i" "nodes s k = Some m" by (auto simp: s' split: if_splits)
    with l k(2,3) obtain e where e: "nodes s d = Some e"
      "is_terminal (nstate e) \<longrightarrow> nstate e = Succeeded"
      "\<not> is_terminal (nstate e) \<longrightarrow> count_list (deps (ntask m)) d \<le> count_list (succs (successors s) d) k"
      unfolding live_inv_def live_deps_def by blast
    show "\<exists>e. nodes s' d = Some e \<and> (is_terminal (nstate e) \<and> d \<notin> {i} \<longrightarrow> nstate e = Succeeded) \<and>
        (is_terminal (nstate e) \<longrightarrow> d \<in> {i} \<longrightarrow> k \<in> set (succs (successors s') d)) \<and>
        (\<not> is_terminal (nstate e) \<longrightarrow>
           count_list (deps (ntask m)) d \<le> count_list (succs (successors s') d) k)"
    proof (cases "d = i")
      case True
      with e n have "\<not> is_terminal (nstate e)" by auto
      with e(3) have "count_list (deps (ntask m)) d \<le> count_list (succs (successors s) d) k" by simp
      moreover have "count_list (deps (ntask m)) d \<noteq> 0" using k(3) by (simp add: count_list_0_iff)
      ultimately have "k \<in> set (succs (successors s) d)" by (metis count_list_0_iff le_zero_eq)
      with True ti show ?thesis by (simp add: s')
    next
      case False
      with e show ?thesis by (simp add: s')
    qed
  qed
  have dn: "done_in s' = done_in s" using n n'(2) by (intro ext) (auto simp: done_in_def s')
  show "counts_ok [] s'"
    unfolding counts_ok_def
  proof (intro allI impI)
    fix k m
    assume k: "nodes s' k = Some m" "nstate m = Queued"
    with n'(2) have "nodes s k = Some m" by (auto simp: s' split: if_splits)
    with l k(2) show "0 < unmet_deps m \<and> unmet_deps m \<le> unmet_count s' (deps (ntask m)) + count_list [] k"
      by (simp add: live_inv_def counts_ok_def unmet_count_def dn)
  qed
  show "deps_before s'"
    using l ti by (simp add: live_inv_def deps_before_def s' split: if_splits)
qed

text \<open>A task that has already failed or been canceled has no live dependents.\<close>

lemma live_ended:
  assumes l: "live_inv {} [] s" and n: "nodes s i = Some n" "nstate n = Canceled"
  shows "live_inv {i} [] s"
proof -
  have "live_deps {i} s"
    unfolding live_deps_def
  proof (intro allI impI)
    fix k m d
    assume k: "nodes s k = Some m" "\<not> is_terminal (nstate m)" "d \<in> set (deps (ntask m))"
    with l obtain e where "nodes s d = Some e" "is_terminal (nstate e) \<longrightarrow> nstate e = Succeeded"
      "\<not> is_terminal (nstate e) \<longrightarrow> count_list (deps (ntask m)) d \<le> count_list (succs (successors s) d) k"
      unfolding live_inv_def live_deps_def by blast
    with n show "\<exists>e. nodes s d = Some e \<and> (is_terminal (nstate e) \<and> d \<notin> {i} \<longrightarrow> nstate e = Succeeded) \<and>
        (is_terminal (nstate e) \<longrightarrow> d \<in> {i} \<longrightarrow> k \<in> set (succs (successors s) d)) \<and>
        (\<not> is_terminal (nstate e) \<longrightarrow>
           count_list (deps (ntask m)) d \<le> count_list (succs (successors s) d) k)" by auto
  qed
  with l show ?thesis by (simp add: live_inv_def)
qed

text \<open>A task that propagation spares has all its dependencies as they were.\<close>

lemma propagate_spares:
  assumes p: "propagate now i s = (s', evs)" and k: "nodes s' k = Some m" "\<not> is_terminal (nstate m)"
    and e: "nodes s d = Some e" and edge: "\<not> is_terminal (nstate e) \<or> d = i \<Longrightarrow> k \<in> set (succs (successors s) d)"
  shows "nodes s k = Some m \<and> d \<noteq> i \<and> nodes s' d = Some e"
proof -
  note rel = prop_rel_propagate [OF p]
  have km: "nodes s k = Some m" using prop_rel_nodes [OF rel, of k] k dep_canceled_fields(1) by fastforce
  have spare: "\<not> descends s i k" using propagate_terminal [OF p, of k] k by auto
  have di: "d \<noteq> i" using edge spare km by (auto intro: descends.child)
  have "nodes s' d = nodes s d"
  proof (rule ccontr)
    assume ch: "nodes s' d \<noteq> nodes s d"
    with prop_rel_nodes [OF rel, of d] e have "\<not> is_terminal (nstate e)" by (auto dest: dep_canceled_fields(8))
    with edge have "k \<in> set (succs (successors s) d)" by simp
    from descends.further [OF propagate_reach [OF p ch] this] km spare show False by simp
  qed
  with km di e show ?thesis by simp
qed

text \<open>Propagation reaches every live dependent.\<close>

lemma live_propagate:
  assumes l: "live_inv {i} [] s" and p: "propagate now i s = (s', evs)"
  shows "live_inv {} [] s'"
  unfolding live_inv_def
proof (intro conjI)
  note rel = prop_rel_propagate [OF p]
  have eq: "successors s' = successors s" "node_order s' = node_order s" using rel by (simp_all add: prop_rel_def)
  have same: "nodes s k = Some m" if "nodes s' k = Some m" "\<not> is_terminal (nstate m)" for k m
    using prop_rel_nodes [OF rel, of k] that dep_canceled_fields(1) by fastforce
  show "live_deps {} s'"
    unfolding live_deps_def eq
  proof (intro allI impI)
    fix k m d
    assume k: "nodes s' k = Some m" "\<not> is_terminal (nstate m)" and d: "d \<in> set (deps (ntask m))"
    from l same [OF k] k(2) d obtain e where e: "nodes s d = Some e"
      "is_terminal (nstate e) \<and> d \<noteq> i \<longrightarrow> nstate e = Succeeded"
      "is_terminal (nstate e) \<longrightarrow> d = i \<longrightarrow> k \<in> set (succs (successors s) d)"
      "\<not> is_terminal (nstate e) \<longrightarrow> count_list (deps (ntask m)) d \<le> count_list (succs (successors s) d) k"
      unfolding live_inv_def live_deps_def by blast
    have "count_list (deps (ntask m)) d \<noteq> 0" using d by (simp add: count_list_0_iff)
    with e(3,4) have "\<not> is_terminal (nstate e) \<or> d = i \<Longrightarrow> k \<in> set (succs (successors s) d)"
      by (metis count_list_0_iff le_zero_eq)
    from propagate_spares [OF p k e(1) this] e
    show "\<exists>e. nodes s' d = Some e \<and> (is_terminal (nstate e) \<and> d \<notin> {} \<longrightarrow> nstate e = Succeeded) \<and>
        (is_terminal (nstate e) \<longrightarrow> d \<in> {} \<longrightarrow> k \<in> set (succs (successors s) d)) \<and>
        (\<not> is_terminal (nstate e) \<longrightarrow>
           count_list (deps (ntask m)) d \<le> count_list (succs (successors s) d) k)" by simp
  qed
  have dn: "unmet_count s' = unmet_count s"
    by (intro ext) (simp add: unmet_count_def calm_done [OF calm_propagate [OF p]])
  show "counts_ok [] s'"
    using l same by (fastforce simp: live_inv_def counts_ok_def dn)
  show "deps_before s'"
    unfolding deps_before_def eq
  proof (intro allI impI)
    fix pre k post m
    assume o: "node_order s = pre @ k # post" and k: "nodes s' k = Some m" "\<not> is_terminal (nstate m)"
    with l same [OF k] show "set (deps (ntask m)) \<subseteq> set pre" by (simp add: live_inv_def deps_before_def)
  qed
qed

lemma live_cancel:
  assumes l: "live_inv {} [] s" and c: "pool_cancel now s i = (s', evs, r)"
  shows "live_inv {} [] s'"
  using c
proof (cases rule: pool_cancel_cases)
  case unknown
  with l show ?thesis by simp
next
  case (ended n)
  have "alike s s'" by (rule alike_put [OF ended(1), of "clear_pause n"]) (simp_all add: ended(4))
  with l show ?thesis by (rule alike_live [rotated])
next
  case (live n evs2)
  have "live_inv {i} [] (cancel_self now s i n)"
    by (rule live_end [OF l live(1), where n' = "canceled_node now n"])
       (use live(2) in \<open>auto simp: cancel_self_def canceled_node_def\<close>)
  from live_propagate [OF this live(3)] show ?thesis .
qed

lemma live_cancel_each: "live_inv {} [] s \<Longrightarrow> cancel_each now s is = (s', evs) \<Longrightarrow> live_inv {} [] s'"
proof (induction "is" arbitrary: s evs)
  case Nil
  then show ?case by simp
next
  case (Cons i "is")
  obtain s1 ev1 r where c: "pool_cancel now s i = (s1, ev1, r)" using prod_cases3 by blast
  obtain s2 ev2 where e: "cancel_each now s1 is = (s2, ev2)" by fastforce
  from Cons.prems c e have "s' = s2" by simp
  with Cons.IH [OF live_cancel [OF Cons.prems(1) c]] e show ?case by simp
qed

end
