(* ===== verification/Pool_Progress.thy ===== *)
theory Pool_Progress
  imports Pool_Live
begin

text \<open>
  The invariant of \<open>Pool_Live\<close> along a run: submissions, dispatches, wake-ups and the end of an
  execution keep it, as long as no event reports a pause.
\<close>

section \<open>Submission\<close>

lemma link_deps_linked:
  assumes "link_deps s i ds u = (s', Linked v)"
  shows "succs (successors s') d = succs (successors s) d @ replicate (count_list ds d) i \<and>
    (d \<in> set ds \<longrightarrow> (\<exists>m. nodes s d = Some m \<and> nstate m \<noteq> Failed \<and> nstate m \<noteq> Canceled))"
  using assms
proof (induction s i ds u arbitrary: s' v rule: link_deps.induct)
  case (1 s i unmet)
  then show ?case by auto
next
  case (2 s i e ds unmet)
  from 2(3) obtain en where e: "e \<noteq> i" "nodes s e = Some en" by (auto split: if_splits option.splits)
  let ?s1 = "s\<lparr>successors := add_edge e i (successors s)\<rparr>"
  have st: "nstate en \<noteq> Failed" "nstate en \<noteq> Canceled"
    using 2(3) e by (auto simp: Let_def split: if_splits)
  have "succs (successors s') d = succs (successors ?s1) d @ replicate (count_list ds d) i \<and>
    (d \<in> set ds \<longrightarrow> (\<exists>m. nodes ?s1 d = Some m \<and> nstate m \<noteq> Failed \<and> nstate m \<noteq> Canceled))"
  proof (cases "nstate en = Succeeded")
    case True
    with 2(3) e have "link_deps ?s1 i ds unmet = (s', Linked v)" by simp
    from 2(1) [OF e refl True this] show ?thesis .
  next
    case False
    with 2(3) e st have "link_deps ?s1 i ds (Suc unmet) = (s', Linked v)" by simp
    from 2(2) [OF e refl False _ this] st show ?thesis by simp
  qed
  then show ?case using e st by (auto simp: succs_add_edge)
qed

text \<open>A new task whose dependencies are known and registered.\<close>

lemma live_insert:
  assumes l: "live_inv {} [] s" and w: "wf_index s" and new: "nodes s i = None"
    and n: "nstate n \<noteq> Succeeded"
    and reg: "\<And>d. d \<in> set (deps (ntask n)) \<Longrightarrow> \<not> is_terminal (nstate n) \<Longrightarrow>
      \<exists>m. nodes s d = Some m \<and> (is_terminal (nstate m) \<longrightarrow> nstate m = Succeeded) \<and>
        count_list (deps (ntask n)) d \<le> count_list (succs (successors s') d) i"
    and cnt: "nstate n = Queued \<Longrightarrow> 0 < unmet_deps n \<and> unmet_deps n \<le> unmet_count s (deps (ntask n))"
    and s': "nodes s' = (nodes s)(i \<mapsto> n)" "node_order s' = node_order s @ [i]"
      "\<And>d k. count_list (succs (successors s) d) k \<le> count_list (succs (successors s') d) k"
  shows "live_inv {} [] s'"
  unfolding live_inv_def
proof (intro conjI)
  show "live_deps {} s'"
    unfolding live_deps_def
  proof (intro allI impI)
    fix k m d
    assume k: "nodes s' k = Some m" "\<not> is_terminal (nstate m)" "d \<in> set (deps (ntask m))"
    have "\<exists>e. nodes s d = Some e \<and> (is_terminal (nstate e) \<longrightarrow> nstate e = Succeeded) \<and>
        (\<not> is_terminal (nstate e) \<longrightarrow> count_list (deps (ntask m)) d \<le> count_list (succs (successors s') d) k)"
    proof (cases "k = i")
      case True
      with k have "m = n" by (simp add: s')
      with reg [of d] k True show ?thesis by auto
    next
      case False
      with k(1) have "nodes s k = Some m" by (simp add: s')
      with l k(2,3) obtain e where "nodes s d = Some e" "is_terminal (nstate e) \<longrightarrow> nstate e = Succeeded"
        "\<not> is_terminal (nstate e) \<longrightarrow> count_list (deps (ntask m)) d \<le> count_list (succs (successors s) d) k"
        unfolding live_inv_def live_deps_def by blast
      with s'(3) [of d k] show ?thesis by (auto intro: order_trans)
    qed
    with new show "\<exists>e. nodes s' d = Some e \<and> (is_terminal (nstate e) \<and> d \<notin> {} \<longrightarrow> nstate e = Succeeded) \<and>
        (is_terminal (nstate e) \<longrightarrow> d \<in> {} \<longrightarrow> k \<in> set (succs (successors s') d)) \<and>
        (\<not> is_terminal (nstate e) \<longrightarrow>
           count_list (deps (ntask m)) d \<le> count_list (succs (successors s') d) k)" by (auto simp: s'(1))
  qed
  have dn: "done_in s' = done_in s" using new n by (intro ext) (auto simp: done_in_def s')
  show "counts_ok [] s'"
    using l cnt by (auto simp: live_inv_def counts_ok_def unmet_count_def dn s')
  have idx: "set (node_order s) = dom (nodes s)" "i \<notin> set (node_order s)" using w new by (auto simp: wf_index_def)
  show "deps_before s'"
    unfolding deps_before_def
  proof (intro allI impI)
    fix pre k post m
    assume o: "node_order s' = pre @ k # post" and k: "nodes s' k = Some m" "\<not> is_terminal (nstate m)"
    show "set (deps (ntask m)) \<subseteq> set pre"
    proof (cases post rule: rev_cases)
      case Nil
      with o k have "pre = node_order s" "m = n" by (simp_all add: s')
      with k(2) reg idx(1) show ?thesis by blast
    next
      case (snoc p x)
      with o s'(2) have p: "node_order s = pre @ k # p" by simp
      with idx(2) k have "nodes s k = Some m" by (auto simp: s')
      with l p k(2) show ?thesis by (simp add: live_inv_def deps_before_def)
    qed
  qed
qed

text \<open>
  An accepted submission inserts one new node, and extends the edges from its dependencies; a
  refused one may extend edges all the same.
\<close>

lemma submit_inserts:
  assumes f: "fresh_task t"
    and sub: "pool_submit now s t stg = (s', evs, r)"
  obtains (rejected) h g where "s' = s\<lparr>pool_heap := h, successors := g\<rparr>" "evs = []"
      "\<And>d k. count_list (succs (successors s) d) k \<le> count_list (succs g d) k"
  | (inserted) n where "nodes s (task_id t) = None" "deps (ntask n) = deps t"
      "nstate n = Queued \<or> nstate n = Ready \<or> nstate n = Canceled"
      "nodes s' = (nodes s)(task_id t \<mapsto> n)" "node_order s' = node_order s @ [task_id t]"
      "\<And>d k. count_list (succs (successors s) d) k \<le> count_list (succs (successors s') d) k"
      "\<And>d. d \<in> set (deps t) \<Longrightarrow> nstate n \<noteq> Canceled \<Longrightarrow>
        \<exists>m. nodes s d = Some m \<and> (is_terminal (nstate m) \<longrightarrow> nstate m = Succeeded) \<and>
          count_list (deps t) d \<le> count_list (succs (successors s') d) (task_id t)"
      "nstate n = Queued \<Longrightarrow> 0 < unmet_deps n \<and> unmet_deps n = unmet_count s (deps t)"
      "nstate n = Ready \<Longrightarrow> unmet_count s (deps t) = 0"
      "evs = (if nstate n = Queued then [] else [StateEvent (task_id t) (nstate n) (progress (ntask n))])"
      "nstate n = Canceled \<Longrightarrow> terror (ntask n) \<noteq> None"
  using sub fresh_queued [OF f]
proof (cases rule: pool_submit_outcome)
  case (refused h g e)
  from refused(5) have "count_list (succs (successors s) d) k \<le> count_list (succs g d) k" for d k
    by (metis count_list_append le_add1)
  with refused show thesis by (intro that(1) [where h = h and g = g]) simp_all
next
  case (inserted sg h g lr n)
  let ?i = "task_id t"
  have s': "nodes s' = (nodes s)(?i \<mapsto> n)" "node_order s' = node_order s @ [?i]" "successors s' = g"
    using inserted(11) by (simp_all add: inserted(6) emplace_node_def)
  from inserted(17) have more: "count_list (succs (successors s) d) k \<le> count_list (succs g d) k" for d k
    by (metis count_list_append le_add1)
  have reg: "\<exists>m. nodes s d = Some m \<and> (is_terminal (nstate m) \<longrightarrow> nstate m = Succeeded) \<and>
      count_list (deps t) d \<le> count_list (succs g d) ?i" if "lr = Linked v" "d \<in> set (deps t)" for v d
  proof -
    from link_deps_linked [OF inserted(5) [unfolded that(1)], of d] that(2) obtain m where
      "nodes s d = Some m" "nstate m \<noteq> Failed" "nstate m \<noteq> Canceled"
      "succs g d = succs (successors s) d @ replicate (count_list (deps t) d) ?i" by auto
    then show ?thesis by (cases "nstate m") auto
  qed
  show thesis
    by (rule that(2) [of n]) (use inserted(2,7,12,16,18) more reg in \<open>auto simp: s'\<close>)
qed

lemma live_leak:
  assumes l: "live_inv {} [] s" and more: "\<And>d k. count_list (succs (successors s) d) k \<le> count_list (succs g d) k"
  shows "live_inv {} [] (s\<lparr>pool_heap := h, successors := g\<rparr>)"
  using l more by (fastforce simp: live_inv_def live_deps_def counts_ok_def deps_before_def unmet_count_def done_in_def
      intro: order_trans)

lemma live_submit:
  assumes l: "live_inv {} [] s" and w: "wf_index s" and np: "never_paused s"
    and f: "fresh_task t" and sub: "pool_submit now s t stg = (s', evs, r)"
  shows "live_inv {} [] s' \<and> never_paused s'"
  using f sub
proof (cases rule: submit_inserts)
  case (rejected h g)
  with live_leak [OF l rejected(3)] np show ?thesis by (simp add: never_paused_def)
next
  case (inserted n)
  have "live_inv {} [] s'"
    by (rule live_insert [OF l w inserted(1) _ _ _ inserted(4,5,6)])
       (use inserted(2,3,7,8) in auto)
  with np inserted(3) show ?thesis by (auto simp: never_paused_def inserted(4))
qed

section \<open>Dispatch, wake-up and success\<close>

text \<open>A live task moves to another live state.\<close>

lemma live_move:
  assumes l: "live_inv {} slack s" and n: "nodes s i = Some n" "\<not> is_terminal (nstate n)"
    and n': "deps (ntask n') = deps (ntask n)" "\<not> is_terminal (nstate n')"
    and q: "nstate n' = Queued \<Longrightarrow> 0 < unmet_deps n' \<and>
      unmet_deps n' \<le> unmet_count s (deps (ntask n)) + count_list slack' i"
    and sl: "\<And>k. k \<noteq> i \<Longrightarrow> count_list slack' k = count_list slack k"
    and s': "nodes s' = (nodes s)(i \<mapsto> n')" "successors s' = successors s" "node_order s' = node_order s"
  shows "live_inv {} slack' s'"
  unfolding live_inv_def
proof (intro conjI)
  show "live_deps {} s'"
    unfolding live_deps_def
  proof (intro allI impI)
    fix k m' d
    assume k: "nodes s' k = Some m'" "\<not> is_terminal (nstate m')" "d \<in> set (deps (ntask m'))"
    then obtain m where m: "nodes s k = Some m" "\<not> is_terminal (nstate m)" "deps (ntask m') = deps (ntask m)"
      using n n' by (cases "k = i") (auto simp: s')
    with l k(3) obtain e where e: "nodes s d = Some e" "is_terminal (nstate e) \<longrightarrow> nstate e = Succeeded"
      "\<not> is_terminal (nstate e) \<longrightarrow> count_list (deps (ntask m)) d \<le> count_list (succs (successors s) d) k"
      unfolding live_inv_def live_deps_def by (metis empty_iff)
    show "\<exists>e. nodes s' d = Some e \<and> (is_terminal (nstate e) \<and> d \<notin> {} \<longrightarrow> nstate e = Succeeded) \<and>
        (is_terminal (nstate e) \<longrightarrow> d \<in> {} \<longrightarrow> k \<in> set (succs (successors s') d)) \<and>
        (\<not> is_terminal (nstate e) \<longrightarrow>
           count_list (deps (ntask m')) d \<le> count_list (succs (successors s') d) k)"
      using e n n' m(3) by (cases "d = i") (simp_all add: s')
  qed
  have dn: "done_in s' = done_in s" using n n'(2) by (intro ext) (auto simp: done_in_def s')
  show "counts_ok slack' s'"
    unfolding counts_ok_def
  proof (intro allI impI)
    fix k m
    assume k: "nodes s' k = Some m" "nstate m = Queued"
    show "0 < unmet_deps m \<and> unmet_deps m \<le> unmet_count s' (deps (ntask m)) + count_list slack' k"
    proof (cases "k = i")
      case True
      with k q n'(1) show ?thesis by (auto simp: s' unmet_count_def dn)
    next
      case False
      with k have "nodes s k = Some m" by (simp add: s')
      with l k(2) sl [OF False] show ?thesis
        by (simp add: live_inv_def counts_ok_def unmet_count_def dn)
    qed
  qed
  show "deps_before s'"
    using l n n'(1) by (simp add: live_inv_def deps_before_def s' split: if_splits)
qed

lemma live_wake:
  "wake_successors now xs s = (s', evs) \<Longrightarrow> live_inv {} xs s \<longrightarrow> never_paused s \<longrightarrow>
     live_inv {} [] s' \<and> never_paused s'"
proof (induction rule: wake_successors_induct)
  case (Nil s)
  then show ?case by simp
next
  case (Skip x xs s s' evs)
  have "live_inv {} xs s" if l: "live_inv {} (x # xs) s"
  proof -
    have "counts_ok xs s"
      unfolding counts_ok_def
    proof (intro allI impI)
      fix k m
      assume k: "nodes s k = Some m" "nstate m = Queued"
      with l have c: "0 < unmet_deps m \<and>
          unmet_deps m \<le> unmet_count s (deps (ntask m)) + count_list (x # xs) k"
        by (simp add: live_inv_def counts_ok_def)
      with k Skip(1) have "k \<noteq> x" by auto
      with c show "0 < unmet_deps m \<and> unmet_deps m \<le> unmet_count s (deps (ntask m)) + count_list xs k" by simp
    qed
    with l show ?thesis by (simp add: live_inv_def)
  qed
  with Skip(2) show ?case by simp
next
  case (Wake x n xs s s' evs)
  have "live_inv {} xs (wake_one now x n s)" if l: "live_inv {} (x # xs) s"
  proof (rule live_move [OF l Wake(1), where n' = "woken_node now n"])
    have c: "unmet_deps n \<le> unmet_count s (deps (ntask n)) + count_list (x # xs) x"
      using l Wake(1,2) unfolding live_inv_def counts_ok_def by blast
    then show "0 < unmet_deps (woken_node now n) \<and>
        unmet_deps (woken_node now n) \<le> unmet_count s (deps (ntask n)) + count_list xs x"
      if "nstate (woken_node now n) = Queued"
      using that Wake(3) by (auto simp: woken_node_def split: if_splits)
  qed (use Wake(2) in \<open>auto simp: wake_one_def woken_node_def\<close>)
  moreover have "never_paused (wake_one now x n s)" if "never_paused s"
    using that Wake(2) by (auto simp: never_paused_def wake_one_def woken_node_def)
  ultimately show ?case using Wake(4) by simp
qed

lemma live_succeed:
  assumes l: "live_inv {} [] s" and n: "nodes s i = Some n" "\<not> is_terminal (nstate n)"
    and n': "deps (ntask n') = deps (ntask n)" "nstate n' = Succeeded"
    and s': "nodes s' = (nodes s)(i \<mapsto> n')" "successors s' = successors s" "node_order s' = node_order s"
  shows "live_inv {} (succs (successors s) i) s'"
  unfolding live_inv_def
proof (intro conjI)
  have old: "\<exists>e. nodes s d = Some e \<and> (is_terminal (nstate e) \<longrightarrow> nstate e = Succeeded) \<and>
      (\<not> is_terminal (nstate e) \<longrightarrow> count_list (deps (ntask m)) d \<le> count_list (succs (successors s) d) k)"
    if "nodes s k = Some m" "\<not> is_terminal (nstate m)" "d \<in> set (deps (ntask m))" for k m d
    using l that unfolding live_inv_def live_deps_def by (metis empty_iff)
  show "live_deps {} s'"
    unfolding live_deps_def
  proof (intro allI impI)
    fix k m d
    assume k: "nodes s' k = Some m" "\<not> is_terminal (nstate m)" "d \<in> set (deps (ntask m))"
    with n'(2) have "nodes s k = Some m" by (auto simp: s' split: if_splits)
    from old [OF this k(2,3)] n'(2)
    show "\<exists>e. nodes s' d = Some e \<and> (is_terminal (nstate e) \<and> d \<notin> {} \<longrightarrow> nstate e = Succeeded) \<and>
        (is_terminal (nstate e) \<longrightarrow> d \<in> {} \<longrightarrow> k \<in> set (succs (successors s') d)) \<and>
        (\<not> is_terminal (nstate e) \<longrightarrow>
           count_list (deps (ntask m)) d \<le> count_list (succs (successors s') d) k)"
      by (cases "d = i") (auto simp: s')
  qed
  have nd: "\<not> done_in s i" using n by (auto simp: done_in_def)
  have dn: "done_in s' d \<longleftrightarrow> d = i \<or> done_in s d" for d using n'(2) by (auto simp: done_in_def s')
  show "counts_ok (succs (successors s) i) s'"
    unfolding counts_ok_def
  proof (intro allI impI)
    fix k m
    assume k: "nodes s' k = Some m" "nstate m = Queued"
    with n'(2) have km: "nodes s k = Some m" by (auto simp: s' split: if_splits)
    with l k(2) have c: "0 < unmet_deps m \<and> unmet_deps m \<le> unmet_count s (deps (ntask m))"
      by (auto simp: live_inv_def counts_ok_def)
    have "unmet_count s (deps (ntask m)) = unmet_count s' (deps (ntask m)) + count_list (deps (ntask m)) i"
      using nd dn by (rule unmet_count_step)
    moreover have "count_list (deps (ntask m)) i \<le> count_list (succs (successors s) i) k"
    proof (cases "i \<in> set (deps (ntask m))")
      case True
      from old [OF km _ True] k(2) n show ?thesis by simp
    qed (simp add: count_list_0_iff)
    ultimately show "0 < unmet_deps m \<and>
        unmet_deps m \<le> unmet_count s' (deps (ntask m)) + count_list (succs (successors s) i) k"
      using c by simp
  qed
  show "deps_before s'"
    using l n n'(1) by (simp add: live_inv_def deps_before_def s' split: if_splits)
qed

section \<open>Every step\<close>

lemma settled_never_paused: "settled s s' \<Longrightarrow> never_paused s \<Longrightarrow> never_paused s'"
  unfolding settled_def never_paused_def
proof (intro allI impI)
  fix i n
  assume st: "\<forall>j. nodes s' j = nodes s j \<or>
      (\<exists>n'. nodes s' j = Some n' \<and> is_terminal (nstate n') \<and> nodes s j \<noteq> None \<and>
        (\<forall>n. nodes s j = Some n \<longrightarrow> is_terminal (nstate n) \<longrightarrow> nstate n' = nstate n))"
    and np: "\<forall>i n. nodes s i = Some n \<longrightarrow> nstate n \<noteq> Paused" and n: "nodes s' i = Some n"
  from st have "nodes s' i = nodes s i \<or> (\<exists>n'. nodes s' i = Some n' \<and> is_terminal (nstate n'))" by blast
  with np n show "nstate n \<noteq> Paused" by auto
qed

lemma alike_step:
  "alike s s' \<Longrightarrow> live_inv {} [] s \<Longrightarrow> never_paused s \<Longrightarrow> live_inv {} [] s' \<and> never_paused s'"
  by (auto intro: alike_live simp: never_paused_def elim: alike_back)

lemma live_pause_begin:
  assumes l: "live_inv {} [] s" "never_paused s" and c: "pause_begin now s i = (s', evs, out)"
    and quiet: "\<forall>ev \<in> set evs. ev_state ev \<noteq> Paused"
  shows "live_inv {} [] s' \<and> never_paused s'"
  using c
proof (cases rule: pause_begin_cases)
  case (asked n deadline)
  then have "alike s s'"
    by (intro alike_put [OF asked(1), of "n\<lparr>pause_requested := True, pause_deadline := deadline\<rparr>"]) simp_all
  from alike_step [OF this l] show ?thesis .
qed (use l quiet in simp_all)

lemma live_checkpoint:
  assumes l: "live_inv {} [] s" "never_paused s" and c: "progress_checkpoint now s i p = (s', evs, b)"
    and quiet: "\<forall>ev \<in> set evs. ev_state ev \<noteq> Paused"
  shows "live_inv {} [] s' \<and> never_paused s'"
  using c
proof (cases rule: checkpoint_cases)
  case (stored n)
  then have "alike s s'"
    by (intro alike_put [OF stored(1), of "n\<lparr>ntask := set_progress (ntask n) p\<rparr>"]) simp_all
  from alike_step [OF this l] show ?thesis .
qed (use l quiet in simp_all)

lemma live_finish:
  assumes l: "live_inv {} [] s" "never_paused s" and n: "nodes s i = Some n" "nrunning n"
    "nstate n = Running \<or> nstate n = Canceled"
    and f: "finalize_execution now s i outs res = (s', evs)"
  shows "live_inv {} [] s' \<and> never_paused s'"
proof -
  let ?f = "finished now s i n outs res"
  let ?n' = "finished_node now s n outs res"
  have tgt: "nstate ?n' = finish_target s n res"
    by (auto simp: finished_node_def finish_target_def split: sum.splits)
  have dp: "deps (ntask ?n') = deps (ntask n)" by (simp add: finished_node_def split: sum.splits)
  have fs: "nodes ?f = (nodes s)(i \<mapsto> ?n')" "successors ?f = successors s" "node_order ?f = node_order s"
    by (simp_all add: finished_def)
  have trm: "is_terminal (nstate ?n')" unfolding tgt by (auto simp: finish_target_def split: sum.splits)
  with l(2) have np: "never_paused ?f" by (auto simp: never_paused_def fs)
  show ?thesis
  proof (cases "finish_target s n res = Succeeded")
    case True
    obtain s2 e2 where w: "wake_successors now (succs (successors s) i) ?f = (s2, e2)" by fastforce
    from True n(3) have "\<not> is_terminal (nstate n)" by (auto simp: finish_target_def)
    from live_succeed [OF l(1) n(1) this dp _ fs] True have "live_inv {} (succs (successors s) i) ?f"
      by (simp add: tgt)
    with live_wake [OF w] np f True w show ?thesis by (simp add: finalize_eq [OF n])
  next
    case False
    obtain s2 e2 where p: "propagate now i ?f = (s2, e2)" by fastforce
    have "live_inv {i} [] ?f"
    proof (rule live_end [OF l(1) n(1) _ dp _ fs])
      show "nstate n \<noteq> Succeeded" using n(3) by auto
      show "nstate ?n' = Failed \<or> nstate ?n' = Canceled"
        using False unfolding tgt by (auto simp: finish_target_def split: sum.splits if_splits)
    qed
    from live_propagate [OF this p] have "live_inv {} [] s2" .
    moreover have "never_paused s2"
      unfolding never_paused_def
    proof (intro allI impI)
      fix j m
      assume "nodes s2 j = Some m"
      with prop_rel_nodes [OF prop_rel_propagate [OF p], of j] np show "nstate m \<noteq> Paused"
        by (auto simp: never_paused_def dest: dep_canceled_fields(1))
    qed
    ultimately show ?thesis using f False p by (simp add: finalize_eq [OF n])
  qed
qed

lemma live_step:
  assumes "pool_step s ws evs s' ws'" and inv: "sys_inv s ws" and l: "live_inv {} [] s" "never_paused s"
    and quiet: "\<forall>ev \<in> set evs. ev_state ev \<noteq> Paused"
  shows "live_inv {} [] s' \<and> never_paused s'"
  using assms(1)
proof (cases rule: pool_step.cases)
  case (step_submit t now stg r)
  have "wf_index s" using inv by (simp add: sys_inv_def pool_inv_def pool_core_def)
  from live_submit [OF l(1) this l(2) step_submit(2,5)] show ?thesis .
next
  case (step_cancel now i r)
  with l live_cancel settled_never_paused settled_cancel show ?thesis by blast
next
  case (step_pause now i out)
  from live_pause_begin [OF l step_pause(2) quiet] show ?thesis .
next
  case (step_pause_timeout now i r)
  then obtain r' where "pool_cancel now s i = (s', evs, r')"
    by (auto simp: pause_timeout_def split: prod.splits)
  with l live_cancel settled_never_paused settled_cancel show ?thesis by blast
next
  case (step_resume now i r)
  with l(2) have "s' = s" by (auto simp: pool_resume_def never_paused_def split: option.splits)
  with l show ?thesis by simp
next
  case (step_tick now)
  then have "cancel_each now s (filter (pause_expired now s) (node_order s)) = (s', evs)"
    by (simp add: pool_tick_def)
  with l live_cancel_each settled_never_paused cancel_each_facts show ?thesis by blast
next
  case (step_register cb)
  have "alike s s'" by (simp add: step_register alike_def option.rel_refl pool_on_state_change_def)
  from alike_step [OF this l] show ?thesis .
next
  case (step_token h)
  have "alike s s'" by (simp add: step_token alike_def option.rel_refl)
  from alike_step [OF this l] show ?thesis .
next
  case (step_begin k now d)
  from step_begin(4) show ?thesis
  proof (cases rule: begin_cases)
    case (runs c n d')
    have "live_inv {} [] s'"
      by (rule live_move [OF l(1) runs(2), where n' = "started_node now n"])
         (use runs(3,4) in \<open>simp_all add: started_node_def\<close>)
    with l(2) runs(4) show ?thesis by (auto simp: never_paused_def started_node_def)
  qed (use l in simp)
next
  case (step_progress k i now p b)
  from live_checkpoint [OF l step_progress(4) quiet] show ?thesis .
next
  case (step_resumed k i)
  with l show ?thesis by simp
next
  case (step_finish k i now outs res)
  obtain n where n: "nodes s i = Some n" "nrunning n" "nstate n = Running \<or> nstate n = Canceled"
    by (rule finishing_node [OF inv step_finish(2-4)])
  from live_finish [OF l n step_finish(5)] show ?thesis .
qed

definition pause_free :: "state_event list \<Rightarrow> bool" where
  "pause_free evs \<longleftrightarrow> list_all (\<lambda>ev. ev_state ev \<noteq> Paused) evs"

lemma pause_free_append [simp]: "pause_free (xs @ ys) \<longleftrightarrow> pause_free xs \<and> pause_free ys"
  by (simp add: pause_free_def)

lemma pool_reach_live:
  assumes "sane_config c" and "pool_reach hw c evs s ws" and "pause_free evs"
  shows "live_inv {} [] s \<and> never_paused s"
  using assms
proof (induction rule: reach_induct)
  case (start h)
  show ?case by (simp add: live_inv_def live_deps_def counts_ok_def deps_before_def never_paused_def create_pool_def)
next
  case (step evs s ws ev s' ws')
  from step(5) have "pause_free evs" "\<forall>e \<in> set ev. ev_state e \<noteq> Paused"
    by (simp_all add: pause_free_def list_all_iff)
  with step(4) live_step [OF step(3,2)] show ?case by blast
qed

end
