(* ===== verification/Pool_Drain.thy ===== *)
theory Pool_Drain
  imports Pool_Progress
begin

text \<open>
  \<open>worker_loop\<close> as a whole: an iteration waits for a task that can run, dispatches it, executes its
  stage with the lock released, and finalizes it. A pool whose other threads keep still is emptied
  by one worker. The executor of a stage is an argument; it returns the context it leaves, its
  progress reports and its result.
\<close>

section \<open>The loop of a worker\<close>

type_synonym executor = "stage \<Rightarrow> stage_context \<Rightarrow> stage_outcome"

text \<open>The reports of a stage; none when the worker would block in the callback of a paused task.\<close>

fun report_all :: "int \<Rightarrow> pool \<Rightarrow> string \<Rightarrow> flt list \<Rightarrow> (pool \<times> state_event list) option" where
  "report_all now s i [] = Some (s, [])"
| "report_all now s i (p # ps) =
     (case progress_checkpoint now s i p of
        (s1, ev1, waits) \<Rightarrow>
          if waits \<and> progress_waiting s1 i then None
          else (case report_all now s1 i ps of
                  None \<Rightarrow> None
                | Some (s2, ev2) \<Rightarrow>
                    Some (s2, ev1 @ (if waits then progress_resumed s1 i else []) @ ev2)))"

datatype iteration = Loop_returns | Loop_waits | Loop_ran pool "state_event list"

definition worker_iteration :: "executor \<Rightarrow> int \<Rightarrow> int \<Rightarrow> pool \<Rightarrow> iteration" where
  "worker_iteration exec t1 t2 s =
     (if stopping s then Loop_returns
      else if \<not> has_runnable_task t1 s then Loop_waits
      else (case worker_begin t1 s of
              (s1, ev1, None) \<Rightarrow> Loop_ran s1 ev1
            | (s1, ev1, Some d) \<Rightarrow>
                (case exec (dstage d) (dctx d) of
                   (ctx, ps, res) \<Rightarrow>
                     (case report_all t1 s1 (dtask d) ps of
                        None \<Rightarrow> Loop_waits
                      | Some (s2, ev2) \<Rightarrow>
                          (case finalize_execution t2 s2 (dtask d) (ctx_outputs ctx) res of
                             (s3, ev3) \<Rightarrow> Loop_ran s3 (ev1 @ ev2 @ ev3))))))"

text \<open>A worker that nobody disturbs, with the clock readings of its iterations.\<close>

fun worker_alone :: "executor \<Rightarrow> (int \<times> int) list \<Rightarrow> pool \<Rightarrow> pool \<times> state_event list" where
  "worker_alone exec [] s = (s, [])"
| "worker_alone exec (t # ts) s =
     (case worker_iteration exec (fst t) (snd t) s of
        Loop_returns \<Rightarrow> (s, [])
      | Loop_waits \<Rightarrow> (s, [])
      | Loop_ran s1 ev1 \<Rightarrow> (case worker_alone exec ts s1 of (s2, ev2) \<Rightarrow> (s2, ev1 @ ev2)))"

section \<open>Frames\<close>

lemma wake_order:
  "wake_successors now xs s = (s', evs) \<Longrightarrow> node_order s' = node_order s \<and> stopping s' = stopping s \<and>
     pause_free evs"
  by (induction rule: wake_successors_induct) (auto simp: wake_one_def pause_free_def)

text \<open>The end of an execution: the task is terminal, and nothing else moves away from its end.\<close>

lemma finalize_ends:
  assumes n: "nodes s i = Some n" "nrunning n" "nstate n = Running \<or> nstate n = Canceled"
    and f: "finalize_execution now s i outs res = (s', evs)"
  shows "node_order s' = node_order s \<and> stopping s' = stopping s \<and> pause_free evs \<and>
    (\<exists>st. pool_state_of s' i = Some st \<and> is_terminal st)"
proof -
  let ?f = "finished now s i n outs res"
  have trm: "is_terminal (finish_target s n res)" by (auto simp: finish_target_def split: sum.splits)
  have tgt: "nstate (finished_node now s n outs res) = finish_target s n res"
    by (auto simp: finished_node_def finish_target_def split: sum.splits)
  have fs: "node_order ?f = node_order s" "stopping ?f = stopping s"
    "pool_state_of ?f i = Some (finish_target s n res)"
    by (simp_all add: finished_def pool_state_of_def tgt)
  have np: "finish_target s n res \<noteq> Paused" using trm by auto
  obtain s2 e2 where two: "(if finish_target s n res = Succeeded
      then wake_successors now (succs (successors s) i) ?f else propagate now i ?f) = (s2, e2)" by fastforce
  have s2: "absorbing ?f s2 \<and> node_order s2 = node_order s \<and> stopping s2 = stopping s \<and> pause_free e2"
  proof (cases "finish_target s n res = Succeeded")
    case True
    with two have "wake_successors now (succs (successors s) i) ?f = (s2, e2)" by simp
    from absorbing_wake [OF this] wake_order [OF this] fs show ?thesis by simp
  next
    case False
    with two have p: "propagate now i ?f = (s2, e2)" by simp
    have "pause_free e2" using propagate_changed(2) [OF p] by (simp add: pause_free_def list_all_iff)
    with absorbing_calm [OF calm_propagate [OF p]] prop_rel_propagate [OF p] fs show ?thesis
      by (simp add: prop_rel_def)
  qed
  then have "pool_state_of s2 i = Some (finish_target s n res)"
    using fs(3) trm by (simp add: absorbing_def)
  moreover have "s' = s2" "evs = (if nstate n = Canceled then []
      else [StateEvent i (finish_target s n res) (progress (ntask (finished_node now s n outs res)))]) @ e2"
    using f two by (simp_all add: finalize_eq [OF n])
  moreover from this s2 np have "pause_free evs" by (auto simp: pause_free_def)
  ultimately show ?thesis using s2 trm by simp
qed

lemma step_frame:
  assumes "pool_step s ws evs s' ws'" and inv: "sys_inv s ws"
  shows "stopping s' = stopping s \<and> config s' = config s"
  using assms
proof (cases rule: step_kinds)
  case (submission t now stg r)
  from submission(4) fresh_queued [OF submission(1)] show ?thesis
    by (cases rule: pool_submit_outcome) (simp_all add: emplace_node_def put_node_def)
next
  case (ending k i now outs res n)
  from finalize_ends [OF ending(4-7)] finalize_frame [OF ending(4-7)] show ?thesis by simp
qed (simp_all add: changes_def)

lemma reach_frame:
  assumes "sane_config c" and "pool_reach hw c evs s ws"
  shows "\<not> stopping s \<and> config s = normalize_config hw c"
  using assms
proof (induction rule: reach_induct)
  case (start h)
  show ?case by (simp add: create_pool_def)
next
  case (step evs s ws ev s' ws')
  from step_frame [OF step(3,2)] step(4) show ?case by simp
qed

section \<open>One iteration\<close>

definition live_in :: "pool \<Rightarrow> string \<Rightarrow> bool" where
  "live_in s i \<longleftrightarrow> (\<exists>st. pool_state_of s i = Some st \<and> \<not> is_terminal st)"

definition pending_tasks :: "pool \<Rightarrow> nat" where
  "pending_tasks s = length (filter (live_in s) (node_order s))"

lemma has_pending_tasks: "pool_has_pending s \<longleftrightarrow> pending_tasks s \<noteq> 0"
  by (auto simp: pool_has_pending_def pending_tasks_def live_in_def pool_state_of_def list_ex_iff
      filter_empty_conv split: option.splits)

lemma pending_less:
  assumes "node_order s' = node_order s" "i \<in> set (node_order s)" "live_in s i" "\<not> live_in s' i"
    and "\<And>j. j \<in> set (node_order s) \<Longrightarrow> live_in s' j \<Longrightarrow> live_in s j"
  shows "pending_tasks s' < pending_tasks s"
proof -
  have "filter (live_in s') (node_order s) = filter (live_in s') (filter (live_in s) (node_order s))"
    unfolding filter_filter using assms(5) by (intro filter_cong) auto
  moreover have "i \<in> set (filter (live_in s) (node_order s))" using assms(2,3) by simp
  from length_filter_less [of i _ "live_in s'", OF this assms(4)]
  have "length (filter (live_in s') (filter (live_in s) (node_order s))) < pending_tasks s"
    by (simp only: pending_tasks_def)
  ultimately show ?thesis by (simp only: pending_tasks_def assms(1))
qed

lemma busy_none:
  assumes "busy ws = []" "k < length ws"
  shows "ws ! k = None"
proof -
  from assms(2) obtain us vs where "ws = us @ ws ! k # vs" by (rule busy_split)
  with assms(1) have "busy (us @ ws ! k # vs) = []" by simp
  then show ?thesis by (auto split: option.splits)
qed

text \<open>The reports of a running stage, with no pause requested.\<close>

lemma report_all_runs:
  assumes "pool_reach hw c evs s ws" "k < length ws" "ws ! k = Some i"
    and "nodes s i = Some n" "nstate n = Running" "\<not> pause_requested n"
  shows "\<exists>s' evs' n'. report_all now s i ps = Some (s', evs') \<and> pool_reach hw c (evs @ evs') s' ws \<and>
    pause_free evs' \<and> nodes s' = (nodes s)(i \<mapsto> n') \<and> nstate n' = Running \<and> node_order s' = node_order s"
  using assms(1,4-6)
proof (induction ps arbitrary: s evs n)
  case Nil
  then show ?case by (auto simp: pause_free_def fun_upd_idem intro!: exI [of _ n])
next
  case (Cons p ps)
  let ?n = "n\<lparr>ntask := set_progress (ntask n) p\<rparr>"
  let ?ev = "[StateEvent i Running (progress (set_progress (ntask n) p))]"
  have cp: "progress_checkpoint now s i p = (put_node i ?n s, ?ev, False)"
    using Cons.prems(2-4) by (simp add: progress_checkpoint_def Let_def)
  have "pool_step s ws ?ev (put_node i ?n s) ws" by (rule step_progress [OF assms(2,3) cp])
  with Cons.prems(1) have "pool_reach hw c (evs @ ?ev) (put_node i ?n s) ws"
    by (blast intro: reach_next)
  moreover have "nodes (put_node i ?n s) i = Some ?n" "nstate ?n = Running" "\<not> pause_requested ?n"
    using Cons.prems(3,4) by simp_all
  ultimately obtain s' evs' n' where
    "report_all now (put_node i ?n s) i ps = Some (s', evs')"
    "pool_reach hw c ((evs @ ?ev) @ evs') s' ws" "pause_free evs'"
    "nodes s' = (nodes (put_node i ?n s))(i \<mapsto> n')" "nstate n' = Running"
    "node_order s' = node_order (put_node i ?n s)" using Cons.IH by blast
  then show ?case
    by (intro exI [of _ s'] exI [of _ "?ev @ evs'"] exI [of _ n']) (simp add: cp pause_free_def)
qed

lemma idle_begins:
  assumes c: "sane_config c" and r: "pool_reach hw c evs s ws" and p: "pause_free evs"
    and b: "busy ws = []" and pend: "pool_has_pending s"
  shows "0 < length ws" "\<exists>cd. pick_candidate now s True = Some cd"
proof -
  note inv = pool_reach_inv [OF c r] and parts = reach_parts [OF c r]
  have "set (running_set s) = {}" using inv b by (simp add: sys_inv_def)
  then have rs: "running_set s = []" by simp
  from first_pending [OF _ _ parts(8) pend] pool_reach_live [OF c r p] obtain j m where
    jm: "nodes s j = Some m" "nstate m = Ready \<or> nstate m = Running" by blast
  have "\<not> nrunning m" using jm(1) rs parts(3) by (auto simp: wf_running_def)
  with jm parts(1) have "nstate m = Ready" by (auto simp: wf_nodes_def node_ok_def exec_ok_def)
  with jm(1) parts(2) have rdy: "ready_set s \<noteq> []" by (force simp: wf_ready_def)
  show "\<exists>cd. pick_candidate now s True = Some cd" by (rule idle_pool_picks [OF c r rdy rs])
  show "0 < length ws" using inv parts(7) by (simp add: sys_inv_def config_ok_def)
qed

text \<open>What an idle worker does with a pool that has pending tasks: the task it picks, the state in
  which the stage returns, and the end.\<close>

lemma iteration_picks:
  assumes c: "sane_config c" and r: "pool_reach hw c evs s ws" and p: "pause_free evs"
    and b: "busy ws = []" and pend: "pool_has_pending s"
  obtains i n and d :: dispatch and ctx ps res s2 n2 s3 ev1 ev2 ev3 where
    "nodes s i = Some n" "nstate n = Ready" "dtask d = i" "dstage d = nstage n"
    "ctx_inputs (dctx d) = collect_outputs (nodes (dispatched t1 s i n)) (deps (ntask n)) Map.empty"
    "exec (dstage d) (dctx d) = (ctx, ps, res)"
    "nodes s2 = (nodes s)(i \<mapsto> n2)" "nstate n2 = Running" "nrunning n2"
    "finalize_execution t2 s2 i (ctx_outputs ctx) res = (s3, ev3)"
    "worker_iteration exec t1 t2 s = Loop_ran s3 (ev1 @ ev2 @ ev3)"
    "pool_reach hw c (evs @ ev1 @ ev2 @ ev3) s3 ws" "pause_free (ev1 @ ev2 @ ev3)"
    "node_order s3 = node_order s" "absorbing s2 s3" "\<exists>st. pool_state_of s3 i = Some st \<and> is_terminal st"
proof -
  obtain cd where pc: "pick_candidate t1 s True = Some cd" using idle_begins(2) [OF assms] by blast
  let ?i = "cand_id cd"
  obtain s1 ev1 dd where wb: "worker_begin t1 s = (s1, ev1, dd)" by (metis prod_cases3)
  from worker_begin_dispatch [OF pc wb] obtain n d where n: "nodes s ?i = Some n" "nstate n = Ready"
    "s1 = dispatched t1 s ?i n" "ev1 = [StateEvent ?i Running (progress (ntask n))]"
    "dd = Some d" "dtask d = ?i" "dstage d = nstage n"
    "ctx_inputs (dctx d) = collect_outputs (nodes s1) (deps (ntask n)) Map.empty" by blast
  have k: "0 < length ws" by (rule idle_begins(1) [OF assms])
  with b have w0: "ws ! 0 = None" by (rule busy_none)
  let ?ws = "ws[0 := Some ?i]"
  have r1: "pool_reach hw c (evs @ ev1) s1 ?ws"
    by (rule run_begin [OF r k w0, where now = t1]) (simp_all add: wb n(5,6))
  obtain ctx ps res where ex: "exec (dstage d) (dctx d) = (ctx, ps, res)" by (metis prod_cases3)
  have n1: "nodes s1 ?i = Some (started_node t1 n)" "nstate (started_node t1 n) = Running"
    "\<not> pause_requested (started_node t1 n)"
    by (simp_all add: n(3) started_node_def clear_pause_def)
  from k have "0 < length ?ws" "?ws ! 0 = Some ?i" by simp_all
  from report_all_runs [OF r1 this n1, of t1 ps] obtain s2 ev2 n2 where
    two: "report_all t1 s1 ?i ps = Some (s2, ev2)" "pool_reach hw c ((evs @ ev1) @ ev2) s2 ?ws"
      "pause_free ev2" "nodes s2 = (nodes s1)(?i \<mapsto> n2)" "nstate n2 = Running" "node_order s2 = node_order s1"
    by blast
  obtain s3 ev3 where fin: "finalize_execution t2 s2 ?i (ctx_outputs ctx) res = (s3, ev3)" by fastforce
  have restore: "?ws[0 := None] = ws" using w0 by (metis list_update_id list_update_overwrite)
  have np: "pool_state_of s2 ?i \<noteq> Some Paused" using two(4,5) by (simp add: pool_state_of_def)
  have r3: "pool_reach hw c (evs @ (ev1 @ ev2 @ ev3)) s3 ws"
    by (rule run_finish [OF two(2) _ _ np, where now = t2 and outs = "ctx_outputs ctx" and res = res and k = 0])
       (use k restore in \<open>simp_all add: fin\<close>)
  have n2: "nodes s2 ?i = Some n2" by (simp add: two(4))
  from reach_parts(1) [OF c two(2)] n2 two(5) have run: "nrunning n2"
    by (auto simp: wf_nodes_def node_ok_def exec_ok_def)
  from finalize_ends [OF n2 this _ fin] two(5) have f: "node_order s3 = node_order s2" "pause_free ev3"
    "\<exists>st. pool_state_of s3 ?i = Some st \<and> is_terminal st" by simp_all
  have it: "worker_iteration exec t1 t2 s = Loop_ran s3 (ev1 @ ev2 @ ev3)"
    using reach_frame [OF c r] pc wb n(5,6) ex two(1) fin
    by (simp add: worker_iteration_def has_runnable_task_def)
  have step: "pool_step s2 ?ws ev3 s3 (?ws[0 := None])"
    by (rule step_finish [OF _ _ np fin]) (use k in simp_all)
  have ins: "ctx_inputs (dctx d) = collect_outputs (nodes (dispatched t1 s ?i n)) (deps (ntask n)) Map.empty"
    using n(3,8) by simp
  have upd: "nodes s2 = (nodes s)(?i \<mapsto> n2)" using two(4) n(3) by simp
  have pf: "pause_free (ev1 @ ev2 @ ev3)" using n(4) two(3) f(2) by (simp add: pause_free_def)
  have ord: "node_order s3 = node_order s" using f(1) two(6) n(3) by simp
  note keep = absorbing_step [OF step pool_reach_inv [OF c two(2)]]
  show ?thesis
    by (rule that [of ?i n d ctx ps res s2 n2 s3 ev3 ev1 ev2])
       (fact n(1) n(2) n(6) n(7) ins ex upd two(5) run fin it r3 pf ord keep f(3))+
qed

lemma iteration_ends:
  assumes c: "sane_config c" and r: "pool_reach hw c evs s ws" and p: "pause_free evs"
    and b: "busy ws = []" and pend: "pool_has_pending s"
  shows "\<exists>s' evs'. worker_iteration exec t1 t2 s = Loop_ran s' evs' \<and> pool_reach hw c (evs @ evs') s' ws \<and>
    pause_free evs' \<and> node_order s' = node_order s \<and> pending_tasks s' < pending_tasks s"
proof -
  obtain i n n2 s2 s3 ev1 ev2 ev3 where it: "nodes s i = Some n" "nstate n = Ready"
    "nodes s2 = (nodes s)(i \<mapsto> n2)"
    "worker_iteration exec t1 t2 s = Loop_ran s3 (ev1 @ ev2 @ ev3)"
    "pool_reach hw c (evs @ ev1 @ ev2 @ ev3) s3 ws" "pause_free (ev1 @ ev2 @ ev3)"
    "node_order s3 = node_order s" "absorbing s2 s3" "\<exists>st. pool_state_of s3 i = Some st \<and> is_terminal st"
    by (rule iteration_picks [OF assms, of t1 exec t2]) blast
  note idx = reach_parts(8) [OF c r]
  have "pending_tasks s3 < pending_tasks s"
  proof (rule pending_less [OF it(7), of i])
    show "i \<in> set (node_order s)" using it(1) idx by (auto simp: wf_index_def)
    show "live_in s i" using it(1,2) by (simp add: live_in_def pool_state_of_def)
    show "\<not> live_in s3 i" using it(9) by (auto simp: live_in_def)
    fix j
    assume j: "j \<in> set (node_order s)" "live_in s3 j"
    from j(1) idx obtain m where m: "nodes s j = Some m" by (auto simp: wf_index_def)
    show "live_in s j"
    proof (rule ccontr)
      assume "\<not> live_in s j"
      with m have t: "is_terminal (nstate m)" by (simp add: live_in_def pool_state_of_def)
      with it(1,2) m have "j \<noteq> i" by auto
      with m it(3) have "pool_state_of s2 j = Some (nstate m)" by (simp add: pool_state_of_def)
      with it(8) t have "pool_state_of s3 j = Some (nstate m)" by (simp add: absorbing_def)
      with j(2) t show False by (simp add: live_in_def)
    qed
  qed
  with it(4-7) show ?thesis by blast
qed

lemma alone_drains:
  assumes "sane_config c" "pool_reach hw c evs s ws" "pause_free evs" "busy ws = []"
    and "pending_tasks s \<le> length ts" and "worker_alone exec ts s = (s', evs')"
  shows "pending_tasks s' = 0 \<and> pool_reach hw c (evs @ evs') s' ws \<and> node_order s' = node_order s \<and>
    pause_free evs'"
  using assms(2,3,5,6)
proof (induction ts arbitrary: s evs evs')
  case Nil
  then show ?case by (simp add: pause_free_def)
next
  case (Cons t ts)
  show ?case
  proof (cases "pool_has_pending s")
    case True
    from iteration_ends [OF assms(1) Cons.prems(1,2) assms(4) True, of exec "fst t" "snd t"] obtain s1 ev1 where
      it: "worker_iteration exec (fst t) (snd t) s = Loop_ran s1 ev1" "pool_reach hw c (evs @ ev1) s1 ws"
        "pause_free ev1" "node_order s1 = node_order s" "pending_tasks s1 < pending_tasks s" by blast
    obtain s2 ev2 where al: "worker_alone exec ts s1 = (s2, ev2)" by fastforce
    from Cons.prems(4) it(1) al have eq: "s' = s2" "evs' = ev1 @ ev2" by simp_all
    have "pause_free (evs @ ev1)" "pending_tasks s1 \<le> length ts"
      using Cons.prems(2,3) it(3,5) by simp_all
    from Cons.IH [OF it(2) this, of ev2] al it(3,4) show ?thesis unfolding eq by simp
  next
    case False
    then have none: "pending_tasks s = 0" by (simp add: has_pending_tasks)
    have "ready_set s = []"
    proof (rule ccontr)
      assume "ready_set s \<noteq> []"
      then obtain i where "i \<in> set (ready_set s)" by (cases "ready_set s") auto
      with reach_parts(2,8) [OF assms(1) Cons.prems(1)] obtain n where
        "nodes s i = Some n" "nstate n = Ready" "i \<in> set (node_order s)"
        by (auto simp: wf_ready_def wf_index_def)
      then have "i \<in> set (filter (live_in s) (node_order s))" by (simp add: live_in_def pool_state_of_def)
      with none show False by (simp add: pending_tasks_def)
    qed
    then have "\<not> has_runnable_task (fst t) s" by (simp add: has_runnable_task_def pick_candidate_def)
    with Cons.prems(1,4) none show ?thesis
      by (auto simp: worker_iteration_def pause_free_def split: if_splits)
  qed
qed

section \<open>Properties\<close>

text \<open>C7: No deadlock. In every run that never reported a pause, a task that has not ended implies a
  task that a worker runs or one that is ready: queued tasks never wait for nothing. (With a pause
  the statement fails: a wake-up can be lost.)\<close>

theorem pool_never_stuck:
  assumes "sane_config c" and "pool_reach hw c evs s ws" and "pause_free evs" and "pool_has_pending s"
  shows "(\<exists>i \<in> set (busy ws). pool_state_of s i = Some Running) \<or>
    (\<exists>i \<in> set (ready_set s). pool_state_of s i = Some Ready)"
proof -
  note parts = reach_parts [OF assms(1,2)]
  from first_pending [OF _ _ parts(8) assms(4)] pool_reach_live [OF assms(1-3)] obtain i n where
    n: "nodes s i = Some n" "nstate n = Ready \<or> nstate n = Running" by blast
  show ?thesis
  proof (cases "nstate n = Ready")
    case True
    with n(1) parts(2) have "i \<in> set (ready_set s)" by (simp add: wf_ready_def)
    with True n(1) show ?thesis by (auto simp: pool_state_of_def)
  next
    case False
    with n parts(1) have "nrunning n" by (auto simp: wf_nodes_def node_ok_def exec_ok_def)
    with n(1) parts(3) have "i \<in> set (running_set s)" by (auto simp: wf_running_def)
    with pool_reach_inv [OF assms(1,2)] have "i \<in> set (busy ws)" by (simp add: sys_inv_def)
    with False n show ?thesis by (auto simp: pool_state_of_def)
  qed
qed

theorem pool_never_stuck_witness:
  "(\<exists>i \<in> set (busy [None, None :: string option]). pool_state_of demo4 i = Some Running) \<or>
   (\<exists>i \<in> set (ready_set demo4). pool_state_of demo4 i = Some Ready)"
proof (rule pool_never_stuck [OF demo_sane demo_reach4])
  show "pause_free demo_events4" by code_simp
  show "pool_has_pending demo4" by code_simp
qed

text \<open>One worker is enough. From any configuration without a running task, reached without a
  pause, a single undisturbed worker ends every task in at most one iteration per pending task,
  whatever the stages return and in whatever order the tasks are chosen; then every task has
  reported its end exactly once.\<close>

theorem pool_drains:
  assumes "sane_config c" and "pool_reach hw c evs s ws" and "pause_free evs" and "busy ws = []"
    and "pending_tasks s \<le> length ts" and "worker_alone exec ts s = (s', evs')"
  shows "\<not> pool_has_pending s' \<and> node_order s' = node_order s \<and>
    (\<forall>i \<in> set (node_order s). end_events i (evs @ evs') = 1)"
proof -
  from alone_drains [OF assms] have d: "pending_tasks s' = 0" "pool_reach hw c (evs @ evs') s' ws"
    "node_order s' = node_order s" by simp_all
  have "end_events i (evs @ evs') = 1" if i: "i \<in> set (node_order s)" for i
  proof -
    from i d(3) reach_parts(8) [OF assms(1) d(2)] obtain n where n: "nodes s' i = Some n"
      by (auto simp: wf_index_def)
    from d(1) i d(3) have "\<not> live_in s' i" by (auto simp: pending_tasks_def filter_empty_conv)
    with n have "is_terminal (nstate n)" by (simp add: live_in_def pool_state_of_def)
    with pool_reach_reported [OF assms(1) d(2), of i] n show ?thesis by (simp add: ended_def)
  qed
  with d(1,3) show ?thesis by (simp add: has_pending_tasks)
qed

text \<open>The first stage reports twice and succeeds, the second ends as canceled.\<close>

fun demo_exec :: executor where
  "demo_exec MockStoryboardStage ctx = (ctx, [flt_zero, flt_one], Ok)"
| "demo_exec st ctx = (ctx, [], Inl TaskError_Canceled)"

theorem pool_drains_witness:
  "pending_tasks demo2 = 2 \<and>
   \<not> pool_has_pending (fst (worker_alone demo_exec [(30, 40), (50, 60)] demo2)) \<and>
   end_events ''b'' (demo_events2 @ snd (worker_alone demo_exec [(30, 40), (50, 60)] demo2)) = 1"
proof -
  let ?w = "worker_alone demo_exec [(30, 40), (50, 60)] demo2"
  have p: "pending_tasks demo2 = 2" by code_simp
  have f: "pause_free demo_events2" by code_simp
  have o: "node_order demo2 = [''a'', ''b'']" by code_simp
  have "busy [None, None :: string option] = []" by simp
  from pool_drains [OF demo_sane demo_reach2 f this, of "[(30, 40), (50, 60)]" demo_exec "fst ?w" "snd ?w"] p o
  show ?thesis by simp
qed

end
