(* ===== verification/Task_Graph.thy ===== *)
theory Task_Graph
  imports Scheduler_Interface
begin

text \<open>
  The abstract specification of a scheduler, as a client sees it: a machine that reads state events
  and accepts or refuses them. It knows the dependencies and, per task, a phase: a state, or held in a
  pause that remembers the state to return to. No clock, resources, workers or queues.
\<close>

section \<open>The machine\<close>

datatype phase = At task_state | Held task_state

fun phase_state :: "phase \<Rightarrow> task_state" where
  "phase_state (At st) = st"
| "phase_state (Held st) = Paused"

type_synonym task_view = "string \<Rightarrow> phase"

text \<open>The phase after a report \<open>st\<close>; \<open>ok\<close> says that all dependencies succeeded.\<close>

fun life :: "bool \<Rightarrow> phase \<Rightarrow> task_state \<Rightarrow> phase option" where
  "life ok (At cur) st =
     (if is_terminal cur then None
      else if st = Canceled then Some (At Canceled)
      else if st = Paused then (if cur = Paused then None else Some (Held cur))
      else if cur = Queued \<and> st = Ready \<and> ok \<or> cur = Ready \<and> st = Running \<or>
              cur = Running \<and> st \<in> {Running, Succeeded, Failed}
           then Some (At st) else None)"
| "life ok (Held cur) st =
     (if st = Canceled then Some (At Canceled)
      else if st = cur \<and> cur \<in> {Queued, Ready, Running} then Some (At cur) else None)"

definition deps_done :: "(string \<Rightarrow> string list) \<Rightarrow> task_view \<Rightarrow> string \<Rightarrow> bool" where
  "deps_done dg v i = list_all (\<lambda>d. v d = At Succeeded) (dg i)"

fun accept :: "(string \<Rightarrow> string list) \<Rightarrow> task_view \<Rightarrow> state_event list \<Rightarrow> task_view option" where
  "accept dg v [] = Some v"
| "accept dg v (ev # evs) =
     (case life (deps_done dg v (ev_task ev)) (v (ev_task ev)) (ev_state ev) of
        None \<Rightarrow> None
      | Some p \<Rightarrow> accept dg (v(ev_task ev := p)) evs)"

definition all_queued :: task_view where
  "all_queued = (\<lambda>i. At Queued)"

section \<open>What the machine guarantees\<close>

lemma life_state: "life ok p st = Some p' \<Longrightarrow> phase_state p' = st"
  by (cases p) (auto split: if_splits)

lemma accept_append:
  "accept dg v (xs @ ys) = (case accept dg v xs of None \<Rightarrow> None | Some w \<Rightarrow> accept dg w ys)"
  by (induction xs arbitrary: v) (auto split: option.splits)

lemma accept_trans: "accept dg u xs = Some v \<Longrightarrow> accept dg v ys = Some w \<Longrightarrow> accept dg u (xs @ ys) = Some w"
  by (simp add: accept_append)

text \<open>The last report of a task is its state.\<close>

lemma accept_last:
  assumes "accept dg v (evs @ [ev]) = Some w"
  shows "phase_state (w (ev_task ev)) = ev_state ev"
  using assms by (auto simp: accept_append life_state split: option.splits)

text \<open>A task past the dependency check has only dependencies that succeeded.\<close>

fun past_check :: "phase \<Rightarrow> bool" where
  "past_check (At st) \<longleftrightarrow> st \<in> {Ready, Running, Succeeded, Failed}"
| "past_check (Held st) \<longleftrightarrow> st \<in> {Ready, Running}"

definition ordered :: "(string \<Rightarrow> string list) \<Rightarrow> task_view \<Rightarrow> bool" where
  "ordered dg v \<longleftrightarrow> (\<forall>i. past_check (v i) \<longrightarrow> deps_done dg v i)"

lemma life_past: "life ok p st = Some p' \<Longrightarrow> past_check p' \<Longrightarrow> past_check p \<or> ok"
  by (cases p) (auto split: if_splits)

lemma life_succeeded: "life ok (At Succeeded) st = None"
  by simp

lemma accept_ordered: "accept dg v evs = Some w \<Longrightarrow> ordered dg v \<Longrightarrow> ordered dg w"
proof (induction evs arbitrary: v)
  case Nil
  then show ?case by simp
next
  case (Cons ev evs)
  let ?i = "ev_task ev"
  from Cons.prems(1) obtain p where p: "life (deps_done dg v ?i) (v ?i) (ev_state ev) = Some p"
    "accept dg (v(?i := p)) evs = Some w" by (auto split: option.splits)
  have alive: "v ?i \<noteq> At Succeeded" using p(1) life_succeeded by (metis option.distinct(1))
  have keep: "deps_done dg (v(?i := p)) j" if "deps_done dg v j" for j
    using that alive by (auto simp: deps_done_def list_all_iff)
  have "ordered dg (v(?i := p))"
    unfolding ordered_def
  proof (intro allI impI)
    fix j
    assume j: "past_check ((v(?i := p)) j)"
    have "deps_done dg v j"
    proof (cases "j = ?i")
      case True
      with j life_past [OF p(1)] Cons.prems(2) show ?thesis by (auto simp: ordered_def)
    next
      case False
      with j Cons.prems(2) show ?thesis by (simp add: ordered_def)
    qed
    then show "deps_done dg (v(?i := p)) j" by (rule keep)
  qed
  from Cons.IH [OF p(2) this] show ?case .
qed

lemma ordered_all_queued: "ordered dg all_queued"
  by (simp add: ordered_def all_queued_def)

text \<open>A task that ended stays as it was reported to end.\<close>

lemma accept_keeps_end:
  assumes "accept dg v evs = Some w" "v i = At st" "is_terminal st"
  shows "w i = At st"
  using assms
proof (induction evs arbitrary: v)
  case Nil
  then show ?case by simp
next
  case (Cons ev evs)
  from Cons.prems(1) obtain p where p: "life (deps_done dg v (ev_task ev)) (v (ev_task ev)) (ev_state ev) = Some p"
    "accept dg (v(ev_task ev := p)) evs = Some w" by (auto split: option.splits)
  have "ev_task ev \<noteq> i" using p(1) Cons.prems(2,3) by auto
  with Cons.IH [OF p(2)] Cons.prems(2,3) show ?case by simp
qed

lemma accept_reports_end:
  assumes "accept dg v evs = Some w" "ev \<in> set evs" "is_terminal (ev_state ev)"
  shows "w (ev_task ev) = At (ev_state ev)"
proof -
  from assms(2) obtain xs ys where e: "evs = xs @ ev # ys" by (auto simp: in_set_conv_decomp)
  with assms(1) obtain u p where u: "life (deps_done dg u (ev_task ev)) (u (ev_task ev)) (ev_state ev) = Some p"
    "accept dg (u(ev_task ev := p)) ys = Some w"
    by (auto simp: accept_append split: option.splits)
  have "p = At (ev_state ev)"
    using u(1) assms(3) by (cases "u (ev_task ev)") (auto split: if_splits)
  with accept_keeps_end [OF u(2) _ assms(3)] show ?thesis by simp
qed

text \<open>Without a pause no phase is held, and no task is reported queued.\<close>

lemma accept_unpaused:
  assumes "accept dg v evs = Some w" "\<forall>i. v i = At (phase_state (v i))" "\<forall>ev \<in> set evs. ev_state ev \<noteq> Paused"
  shows "(\<forall>i. w i = At (phase_state (w i))) \<and> (\<forall>ev \<in> set evs. ev_state ev \<noteq> Queued)"
  using assms
proof (induction evs arbitrary: v)
  case Nil
  then show ?case by simp
next
  case (Cons ev evs)
  let ?i = "ev_task ev"
  from Cons.prems(1) obtain p where p: "life (deps_done dg v ?i) (v ?i) (ev_state ev) = Some p"
    "accept dg (v(?i := p)) evs = Some w" by (auto split: option.splits)
  from Cons.prems(2) obtain cur where cur: "v ?i = At cur" by metis
  with p(1) Cons.prems(3) have "p = At (ev_state ev)" "ev_state ev \<noteq> Queued"
    by (auto split: if_splits)
  moreover from this(1) Cons.prems(2) have "\<forall>i. (v(?i := p)) i = At (phase_state ((v(?i := p)) i))" by simp
  ultimately show ?case using Cons.IH [OF p(2)] Cons.prems(3) by simp
qed

text \<open>Cancellations of different live tasks are accepted in any order.\<close>

lemma accept_cancellations:
  assumes "distinct (map ev_task evs)" "\<forall>ev \<in> set evs. ev_state ev = Canceled"
    and "\<forall>ev \<in> set evs. \<not> is_terminal (phase_state (v (ev_task ev)))"
  shows "accept dg v evs = Some (\<lambda>j. if j \<in> ev_task ` set evs then At Canceled else v j)"
  using assms
proof (induction evs arbitrary: v)
  case Nil
  then show ?case by simp
next
  case (Cons ev evs)
  let ?v = "v(ev_task ev := At Canceled)"
  have "life ok (v (ev_task ev)) Canceled = Some (At Canceled)" for ok
    using Cons.prems(3) by (cases "v (ev_task ev)") auto
  with Cons.prems(2) have "accept dg v (ev # evs) = accept dg ?v evs" by simp
  moreover have live: "\<forall>e \<in> set evs. \<not> is_terminal (phase_state (?v (ev_task e)))"
    using Cons.prems(1,3) by auto (metis imageI)
  have "distinct (map ev_task evs)" "\<forall>ev \<in> set evs. ev_state ev = Canceled"
    using Cons.prems(1,2) by simp_all
  from Cons.IH [OF this live] have
    "accept dg ?v evs = Some (\<lambda>j. if j \<in> ev_task ` set evs then At Canceled else ?v j)" .
  moreover have "(\<lambda>j. if j \<in> ev_task ` set evs then At Canceled else ?v j) =
      (\<lambda>j. if j \<in> ev_task ` set (ev # evs) then At Canceled else v j)" by (rule ext) auto
  ultimately show ?case by simp
qed

end
