(* ===== verification/Pool_Trace.thy ===== *)
theory Pool_Trace
  imports Pool_Drain Task_Graph
begin

text \<open>
  The thread-pool scheduler refines the specification of \<open>Task_Graph\<close>: the events of every run are
  accepted by the machine, and the phases the machine computes from them are the states of the
  tasks. A client that only listens knows the state of every task.
\<close>

section \<open>The abstraction\<close>

definition phase_of :: "node \<Rightarrow> phase" where
  "phase_of n =
     (if nstate n = Paused
      then Held (case paused_from (ntask n) of None \<Rightarrow> Paused | Some st \<Rightarrow> st) else At (nstate n))"

definition pool_view :: "pool \<Rightarrow> task_view" where
  "pool_view s = (\<lambda>i. case nodes s i of None \<Rightarrow> At Queued | Some n \<Rightarrow> phase_of n)"

definition pool_deps :: "pool \<Rightarrow> string \<Rightarrow> string list" where
  "pool_deps s i = (case nodes s i of None \<Rightarrow> [] | Some n \<Rightarrow> deps (ntask n))"

text \<open>A dependency function that is right about the tasks the scheduler knows.\<close>

definition agrees :: "(string \<Rightarrow> string list) \<Rightarrow> pool \<Rightarrow> bool" where
  "agrees dg s \<longleftrightarrow> (\<forall>i n. nodes s i = Some n \<longrightarrow> dg i = deps (ntask n))"

text \<open>The events \<open>evs\<close> are an abstract run from the view of \<open>s\<close> to that of \<open>s'\<close>.\<close>

definition simulates :: "(string \<Rightarrow> string list) \<Rightarrow> pool \<Rightarrow> state_event list \<Rightarrow> pool \<Rightarrow> bool" where
  "simulates dg s evs s' \<longleftrightarrow> accept dg (pool_view s) evs = Some (pool_view s')"

lemma phase_state_of [simp]: "phase_state (phase_of n) = nstate n"
  by (simp add: phase_of_def)

lemma phase_of_live [simp]: "nstate n \<noteq> Paused \<Longrightarrow> phase_of n = At (nstate n)"
  by (simp add: phase_of_def)

lemma pool_view_node: "nodes s i = Some n \<Longrightarrow> pool_view s i = phase_of n"
  by (simp add: pool_view_def)

lemma pool_view_put: "nodes s' = (nodes s)(i \<mapsto> n) \<Longrightarrow> pool_view s' = (pool_view s)(i := phase_of n)"
  by (auto simp: pool_view_def fun_eq_iff)

lemma view_succeeded: "pool_view s d = At Succeeded \<longleftrightarrow> done_in s d"
  by (auto simp: pool_view_def phase_of_def done_in_def split: option.splits)

lemma view_deps_done:
  "agrees dg s \<Longrightarrow> nodes s i = Some n \<Longrightarrow>
    deps_done dg (pool_view s) i \<longleftrightarrow> (\<forall>d \<in> set (deps (ntask n)). done_in s d)"
  by (simp add: agrees_def deps_done_def list_all_iff view_succeeded)

lemma simulates_trans: "simulates dg a xs b \<Longrightarrow> simulates dg b ys c \<Longrightarrow> simulates dg a (xs @ ys) c"
  unfolding simulates_def by (rule accept_trans)

lemma simulates_quiet: "pool_view s' = pool_view s \<Longrightarrow> simulates dg s [] s'"
  by (simp add: simulates_def)

text \<open>One node changes its phase and says so.\<close>

lemma simulates_put:
  assumes "nodes s i = Some n" "nodes s' = (nodes s)(i \<mapsto> n')"
    and "life (deps_done dg (pool_view s) i) (phase_of n) st = Some (phase_of n')"
  shows "simulates dg s [StateEvent i st p] s'"
  using assms(3) by (simp add: simulates_def pool_view_node [OF assms(1)] pool_view_put [OF assms(2)])

text \<open>One node changes and keeps its phase.\<close>

lemma simulates_same:
  assumes "nodes s i = Some n" "nodes s' = (nodes s)(i \<mapsto> n')" "phase_of n' = phase_of n"
  shows "simulates dg s [] s'"
  by (rule simulates_quiet)
     (use assms in \<open>auto simp: pool_view_put [OF assms(2)] pool_view_node [OF assms(1), symmetric]\<close>)

section \<open>Cancellation\<close>

lemma propagate_view:
  assumes "propagate now i s = (s', evs)"
  shows "simulates dg s evs s'"
proof -
  note ch = propagate_changed [OF assms] and rel = prop_rel_nodes [OF prop_rel_propagate [OF assms]]
  have view: "j \<in> ev_task ` set evs \<longleftrightarrow> nodes s' j \<noteq> nodes s j" for j
    using rel [of j] dep_canceled_fields(1,8) unfolding ch(3) by (fastforce simp: pool_state_of_def)
  have live: "\<not> is_terminal (phase_state (pool_view s j))" if "nodes s' j \<noteq> nodes s j" for j
    using rel [of j] that by (auto simp: pool_view_def dest: dep_canceled_fields(8))
  then have "\<forall>ev \<in> set evs. \<not> is_terminal (phase_state (pool_view s (ev_task ev)))"
    using view by blast
  moreover have "pool_view s' = (\<lambda>j. if j \<in> ev_task ` set evs then At Canceled else pool_view s j)"
  proof
    fix j
    show "pool_view s' j = (if j \<in> ev_task ` set evs then At Canceled else pool_view s j)"
    proof (cases "nodes s' j = nodes s j")
      case True
      then show ?thesis using view [of j] by (simp add: pool_view_def)
    next
      case False
      with rel [of j] obtain n' where "nodes s' j = Some n'" "nstate n' = Canceled"
        by (auto dest: dep_canceled_fields(1))
      with False show ?thesis using view [of j] by (simp add: pool_view_def)
    qed
  qed
  ultimately show ?thesis
    using accept_cancellations [OF ch(1,2)] by (simp add: simulates_def)
qed

lemma cancel_view:
  assumes c: "pool_cancel now s i = (s', evs, r)"
  shows "simulates dg s evs s'"
  using c
proof (cases rule: pool_cancel_cases)
  case unknown
  then show ?thesis by (simp add: simulates_quiet)
next
  case (ended n)
  show ?thesis
    unfolding ended(3)
    by (rule simulates_same [OF ended(1), of _ "clear_pause n"]) (simp_all add: ended(4) phase_of_def)
next
  case (live n evs2)
  have "simulates dg s [StateEvent i Canceled (progress (ntask n))] (cancel_self now s i n)"
    by (rule simulates_put [OF live(1), of _ "canceled_node now n"])
       (use live(2) in \<open>auto simp: cancel_self_def canceled_node_def phase_of_def\<close>)
  from simulates_trans [OF this propagate_view [OF live(3)]] show ?thesis by (simp add: live(4))
qed

lemma cancel_each_view: "cancel_each now s is = (s', evs) \<Longrightarrow> simulates dg s evs s'"
proof (induction "is" arbitrary: s evs)
  case Nil
  then show ?case by (simp add: simulates_quiet)
next
  case (Cons i "is")
  obtain s1 ev1 r where c: "pool_cancel now s i = (s1, ev1, r)" using prod_cases3 by blast
  obtain s2 ev2 where e: "cancel_each now s1 is = (s2, ev2)" by fastforce
  from Cons.prems c e have eqs: "s' = s2" "evs = ev1 @ ev2" by simp_all
  have "simulates dg s1 ev2 s'" using Cons.IH e eqs(1) by simp
  from simulates_trans [OF cancel_view [OF c] this] eqs(2) show ?case by simp
qed

section \<open>Pause, resume, progress\<close>

lemma pause_begin_view:
  assumes c: "pause_begin now s i = (s', evs, out)"
  shows "simulates dg s evs s'"
  using c
proof (cases rule: pause_begin_cases)
  case none
  then show ?thesis by (simp add: simulates_quiet)
next
  case (held n)
  let ?n' = "n\<lparr>ntask := apply_transition now (ntask n) Paused\<rparr>"
  have "phase_of ?n' = Held (nstate n)"
    using held(2) by (auto simp: phase_of_def apply_transition_paused_from)
  with held(2) show ?thesis
    unfolding held(4) by (intro simulates_put [OF held(1), of _ ?n']) (auto simp: held(3))
next
  case (asked n deadline)
  show ?thesis
    unfolding asked(3)
    by (rule simulates_same [OF asked(1), of _ "n\<lparr>pause_requested := True, pause_deadline := deadline\<rparr>"])
       (simp_all add: asked(4) phase_of_def)
qed

lemma resume_view:
  assumes c: "pool_resume now s i = (s', evs, r)" and w: "wf_nodes s"
  shows "simulates dg s evs s'"
  using c w
proof (cases rule: pool_resume_cases)
  case none
  then show ?thesis by (simp add: simulates_quiet)
next
  case (back_to n st)
  have "phase_of n = Held st" "phase_of (resumed_node now n) = At st"
    using back_to(2-5) by (auto simp: phase_of_def resumed_node_def Let_def)
  with back_to(4) show ?thesis
    unfolding back_to(7) by (intro simulates_put [OF back_to(1), of _ "resumed_node now n"]) (auto simp: back_to(6))
qed

lemma checkpoint_view:
  assumes c: "progress_checkpoint now s i p = (s', evs, b)"
  shows "simulates dg s evs s'"
  using c
proof (cases rule: checkpoint_cases)
  case unknown
  then show ?thesis by (simp add: simulates_quiet)
next
  case (stored n)
  let ?n' = "n\<lparr>ntask := set_progress (ntask n) p\<rparr>"
  have same: "phase_of ?n' = phase_of n" by (simp add: phase_of_def)
  show ?thesis
  proof (cases "nstate n = Running")
    case True
    then show ?thesis using same by (auto simp: stored(3,4) intro!: simulates_put [OF stored(1), of _ ?n'])
  next
    case False
    then show ?thesis using same by (auto simp: stored(3,4) intro!: simulates_same [OF stored(1), of _ ?n'])
  qed
next
  case (held n)
  let ?n' = "(clear_pause n)\<lparr>ntask := apply_transition now (set_progress (ntask n) p) Paused\<rparr>"
  have "phase_of ?n' = Held Running" using held(3) by (simp add: phase_of_def apply_transition_paused_from)
  then show ?thesis
    using held(3) by (simp add: simulates_def held(4,5) pool_view_node [OF held(1)] pool_view_put [of _ s i ?n'])
qed

section \<open>Submission, dispatch, wake-up and the end of an execution\<close>

lemma unmet_none: "unmet_count s ds = 0 \<longleftrightarrow> (\<forall>d \<in> set ds. done_in s d)"
  by (simp add: unmet_count_def filter_empty_conv)

lemma submit_view:
  assumes f: "fresh_task t" and sub: "pool_submit now s t stg = (s', evs, r)" and ag: "agrees dg s'"
  shows "simulates dg s evs s'"
  using f sub
proof (cases rule: submit_inserts)
  case (rejected h g)
  then show ?thesis by (simp add: simulates_quiet pool_view_def)
next
  case (inserted n)
  let ?i = "task_id t"
  have ds: "dg ?i = deps t" using ag inserted(2,4) by (simp add: agrees_def)
  have "deps_done dg (pool_view s) ?i" if "nstate n = Ready"
    using inserted(9) [OF that] by (simp add: deps_done_def ds list_all_iff view_succeeded unmet_none)
  moreover have "pool_view s ?i = At Queued" by (simp add: pool_view_def inserted(1))
  moreover have "pool_view s' = (pool_view s)(?i := phase_of n)" by (rule pool_view_put [OF inserted(4)])
  ultimately show ?thesis using inserted(3,10) by (auto simp: simulates_def)
qed

lemma wake_view:
  "wake_successors now xs s = (s', evs) \<Longrightarrow> wf_deps xs s \<longrightarrow> agrees dg s \<longrightarrow> simulates dg s evs s'"
proof (induction rule: wake_successors_induct)
  case (Nil s)
  then show ?case by (simp add: simulates_quiet)
next
  case (Skip x xs s s' evs)
  have "wf_deps xs s" if "wf_deps (x # xs) s"
    by (rule wf_deps_less [OF that]) simp
  with Skip(2) show ?case by simp
next
  case (Wake x n xs s s' evs)
  let ?w = "wake_one now x n s"
  have nodes: "nodes ?w = (nodes s)(x \<mapsto> woken_node now n)" by (simp add: wake_one_def)
  show ?case
  proof (intro impI)
    assume w: "wf_deps (x # xs) s" and ag: "agrees dg s"
    have one: "simulates dg s (if unmet_deps n = 1 then [StateEvent x Ready (progress (ntask n))] else []) ?w"
    proof (cases "unmet_deps n = 1")
      case True
      have "waiting (ntask n)" using Wake(2) by (simp add: waiting_def)
      from wf_deps_waiting [OF w Wake(1) this] True have "\<forall>d \<in> set (deps (ntask n)). done_in s d"
        by (simp add: unmet_none [symmetric])
      with view_deps_done [OF ag Wake(1)] have "deps_done dg (pool_view s) x" by simp
      moreover have "phase_of (woken_node now n) = At Ready" using True Wake(2) by (simp add: woken_node_def)
      ultimately show ?thesis
        using True Wake(2) by (simp add: simulates_put [OF Wake(1) nodes])
    next
      case False
      then have "phase_of (woken_node now n) = phase_of n" by (simp add: woken_node_def phase_of_def)
      with False show ?thesis by (simp add: simulates_same [OF Wake(1) nodes])
    qed
    have "agrees dg ?w" using ag Wake(1,2) by (auto simp: agrees_def nodes woken_node_def)
    with Wake(4) wake_one_deps [OF Wake(1,2) w] have "simulates dg ?w evs s'" by simp
    with one show "simulates dg s
        ((if unmet_deps n = 1 then [StateEvent x Ready (progress (ntask n))] else []) @ evs) s'"
      by (rule simulates_trans)
  qed
qed

lemma begin_view:
  assumes b: "worker_begin now s = (s', evs, d)"
  shows "simulates dg s evs s'"
  using b
proof (cases rule: begin_cases)
  case (runs c n d')
  show ?thesis
    unfolding runs(5)
    by (rule simulates_put [OF runs(2), of _ "started_node now n"])
       (use runs(3) in \<open>simp_all add: runs(4) started_node_def\<close>)
qed (simp add: simulates_quiet)

text \<open>What the invariant gives for the state in which the successors are woken.\<close>

lemma finished_deps:
  assumes inv: "pool_inv s" and n: "nodes s i = Some n" "nrunning n"
    "nstate n = Running \<or> nstate n = Canceled" and ok: "finish_target s n res = Succeeded"
  shows "wf_deps (succs (successors s) i) (finished now s i n outs res)"
proof -
  let ?n' = "finished_node now s n outs res"
  have r: "nstate n = Running" "nstate ?n' = Succeeded" "\<exists>u. res = Inr u"
    using n(3) ok by (auto simp: finish_target_def finished_node_def split: if_splits sum.splits)
  have no: "node_ok (config s) n" using inv n(1) by (simp add: pool_inv_def pool_core_def wf_nodes_def)
  have wf: "task_wf (ntask ?n')"
    using no r task_wf_apply [of "ntask n" Succeeded now] by (auto simp: node_ok_def finished_node_def)
  have cn: "core_node (n\<lparr>nrunning := False\<rparr>) ?n'"
    using wf r by (auto simp: core_node_def finished_node_def exec_ok_def)
  show ?thesis
    using inv_finish(2) [OF inv n(1,2) cn _ wf] r by (simp add: finished_def)
qed

lemma finish_view:
  assumes inv: "pool_inv s" and n: "nodes s i = Some n" "nrunning n"
    "nstate n = Running \<or> nstate n = Canceled"
    and f: "finalize_execution now s i outs res = (s', evs)" and ag: "agrees dg s"
  shows "simulates dg s evs s'"
proof -
  let ?f = "finished now s i n outs res"
  let ?n' = "finished_node now s n outs res"
  let ?ev = "if nstate n = Canceled then []
    else [StateEvent i (finish_target s n res) (progress (ntask ?n'))]"
  have tgt: "nstate ?n' = finish_target s n res"
    by (auto simp: finished_node_def finish_target_def split: sum.splits)
  have trm: "is_terminal (finish_target s n res)" by (auto simp: finish_target_def split: sum.splits)
  then have "finish_target s n res \<noteq> Paused" by auto
  with tgt have ph: "phase_of ?n' = At (finish_target s n res)" by simp
  have fs: "nodes ?f = (nodes s)(i \<mapsto> ?n')" by (simp add: finished_def)
  have dp: "deps (ntask ?n') = deps (ntask n)" by (simp add: finished_node_def split: sum.splits)
  have one: "simulates dg s ?ev ?f"
  proof (cases "nstate n = Canceled")
    case True
    then show ?thesis using ph by (auto intro!: simulates_same [OF n(1) fs] simp: finish_target_def)
  next
    case False
    with n(3) have r: "nstate n = Running" by simp
    have "finish_target s n res \<in> {Succeeded, Failed, Canceled}"
      by (auto simp: finish_target_def split: sum.splits)
    with r have "life ok (phase_of n) (finish_target s n res) = Some (phase_of ?n')" for ok
      using ph by auto
    from simulates_put [OF n(1) fs this] False show ?thesis by simp
  qed
  obtain s2 e2 where two: "(if finish_target s n res = Succeeded
      then wake_successors now (succs (successors s) i) ?f else propagate now i ?f) = (s2, e2)" by fastforce
  have rest: "simulates dg ?f e2 s2"
  proof (cases "finish_target s n res = Succeeded")
    case True
    have "agrees dg ?f" using ag n(1) dp by (auto simp: agrees_def fs)
    with wake_view [of now "succs (successors s) i" ?f s2 e2] two True finished_deps [OF inv n True]
    show ?thesis by simp
  next
    case False
    with two propagate_view [of now i ?f s2 e2] show ?thesis by simp
  qed
  have "s' = s2" "evs = ?ev @ e2" using f two by (simp_all add: finalize_eq [OF n])
  with simulates_trans [OF one rest] show ?thesis by simp
qed

section \<open>Every step and every run\<close>

text \<open>Known tasks stay known and keep their dependencies.\<close>

lemma agrees_absorb:
  assumes "agrees dg s'" and "\<And>i n. nodes s i = Some n \<Longrightarrow>
    \<exists>n'. nodes s' i = Some n' \<and> deps (ntask n') = deps (ntask n)"
  shows "agrees dg s"
  using assms unfolding agrees_def by fastforce

lemma keeps_deps_calm: "calm s s' \<Longrightarrow> nodes s i = Some n \<Longrightarrow>
    \<exists>n'. nodes s' i = Some n' \<and> deps (ntask n') = deps (ntask n)"
  using changes_Some_fwd [of calm_node s s' i n] calm_nodeD(1) core_nodeD(2) by blast

lemma keeps_deps_wake:
  "wake_successors now xs s = (s', evs) \<Longrightarrow> \<forall>n. nodes s i = Some n \<longrightarrow>
    (\<exists>n'. nodes s' i = Some n' \<and> deps (ntask n') = deps (ntask n))"
proof (induction rule: wake_successors_induct)
  case (Wake x m xs s s' evs)
  then show ?case by (auto simp: wake_one_def woken_node_def split: if_splits)
qed auto

lemma keeps_deps_finish:
  assumes n: "nodes s i = Some n" "nrunning n" "nstate n = Running \<or> nstate n = Canceled"
    and f: "finalize_execution now s i outs res = (s', evs)" and m: "nodes s j = Some m"
  shows "\<exists>m'. nodes s' j = Some m' \<and> deps (ntask m') = deps (ntask m)"
proof -
  let ?f = "finished now s i n outs res"
  have "\<exists>m1. nodes ?f j = Some m1 \<and> deps (ntask m1) = deps (ntask m)"
    using n(1) m by (auto simp: finished_def finished_node_def split: sum.splits)
  then obtain m1 where m1: "nodes ?f j = Some m1" "deps (ntask m1) = deps (ntask m)" by blast
  obtain s2 e2 where two: "(if finish_target s n res = Succeeded
      then wake_successors now (succs (successors s) i) ?f else propagate now i ?f) = (s2, e2)" by fastforce
  have "\<exists>m2. nodes s2 j = Some m2 \<and> deps (ntask m2) = deps (ntask m1)"
    using two m1(1) keeps_deps_wake keeps_deps_calm [OF calm_propagate]
    by (cases "finish_target s n res = Succeeded") fastforce+
  moreover have "s' = s2" using f two by (simp add: finalize_eq [OF n])
  ultimately show ?thesis using m1(2) by auto
qed

lemma step_agrees:
  assumes "pool_step s ws evs s' ws'" and inv: "sys_inv s ws" and ag: "agrees dg s'"
  shows "agrees dg s"
  using assms(1,2)
proof (cases rule: step_kinds)
  case calm
  show ?thesis by (rule agrees_absorb [OF ag keeps_deps_calm [OF calm(1)]])
next
  case (submission t now stg r)
  from submission(1,4) show ?thesis
  proof (cases rule: submit_inserts)
    case (rejected h g)
    with ag show ?thesis by (simp add: agrees_def)
  next
    case (inserted n)
    show ?thesis by (rule agrees_absorb [OF ag]) (use inserted(1,4) in auto)
  qed
next
  case (dispatch k c now n d)
  then show ?thesis by (intro agrees_absorb [OF ag]) (auto simp: started_node_def)
next
  case (ending k i now outs res n)
  show ?thesis by (rule agrees_absorb [OF ag keeps_deps_finish [OF ending(4-7)]])
qed

lemma step_simulates:
  assumes "pool_step s ws evs s' ws'" and inv: "sys_inv s ws" and ag: "agrees dg s'"
  shows "agrees dg s \<and> simulates dg s evs s'"
proof -
  have pinv: "pool_inv s" and wfn: "wf_nodes s"
    using inv by (simp_all add: sys_inv_def pool_inv_def pool_core_def)
  note ags = step_agrees [OF assms]
  have "simulates dg s evs s'"
    using assms(1)
  proof (cases rule: pool_step.cases)
    case (step_submit t now stg r)
    from submit_view [OF step_submit(2,5) ag] show ?thesis .
  next
    case (step_pause_timeout now i r)
    then obtain r' where "pool_cancel now s i = (s', evs, r')"
      by (auto simp: pause_timeout_def split: prod.splits)
    from cancel_view [OF this] show ?thesis .
  next
    case (step_tick now)
    then have "cancel_each now s (filter (pause_expired now s) (node_order s)) = (s', evs)"
      by (simp add: pool_tick_def)
    from cancel_each_view [OF this] show ?thesis .
  next
    case (step_resumed k i)
    then show ?thesis by (auto simp: progress_resumed_def simulates_def pool_view_def split: option.splits)
  next
    case (step_finish k i now outs res)
    obtain n where n: "nodes s i = Some n" "nrunning n" "nstate n = Running \<or> nstate n = Canceled"
      by (rule finishing_node [OF inv step_finish(2-4)])
    from finish_view [OF pinv n step_finish(5) ags] show ?thesis .
  qed (auto simp: simulates_quiet pool_view_def pool_on_state_change_def
      intro: cancel_view pause_begin_view resume_view [OF _ wfn] begin_view checkpoint_view)
  with ags show ?thesis by simp
qed

lemma agrees_pool_deps: "agrees (pool_deps s) s"
  by (simp add: agrees_def pool_deps_def)

lemma pool_reach_simulates:
  assumes "sane_config c" and "pool_reach hw c evs s ws" and "agrees dg s"
  shows "accept dg all_queued evs = Some (pool_view s)"
  using assms
proof (induction rule: reach_induct)
  case (start h)
  show ?case by (simp add: pool_view_def create_pool_def all_queued_def)
next
  case (step evs s ws ev s' ws')
  from step_simulates [OF step(3,2,5)] step(4) show ?case by (auto simp: simulates_def accept_append)
qed

section \<open>Properties\<close>

text \<open>C9: The scheduler refines its specification. Take the events of a run in the order in which the
  locked sections produce them; the callbacks, which run after the mutex is released, may see those of
  different threads in another order. In every interleaving of workers with clients as in C1, refused
  submissions included, they are accepted by the machine of the task graph, started with every task
  queued; and the phases the machine ends in are those of the tasks, paused ones with the state they
  return to. Every report is a legal step of its task, and none is missing.\<close>

theorem pool_refines_task_graph:
  assumes "sane_config c" and "pool_reach hw c evs s ws"
  shows "accept (pool_deps s) all_queued evs = Some (pool_view s)"
  using pool_reach_simulates [OF assms agrees_pool_deps] .

theorem pool_refines_task_graph_witness:
  "accept (pool_deps lost3) all_queued lost_events3 = Some (pool_view lost3) \<and>
   map (pool_view lost2) [''a'', ''b''] = [At Succeeded, Held Queued] \<and> length lost_events3 = 5"
proof (intro conjI)
  show "accept (pool_deps lost3) all_queued lost_events3 = Some (pool_view lost3)"
    by (rule pool_refines_task_graph [OF demo_sane lost_reach3])
qed code_simp+

end
