(* ===== verification/Pool_Types.thy ===== *)
theory Pool_Types
  imports Pool_Trace
begin

text \<open>
  What every task stored in the thread-pool scheduler looks like: the typing of its record by its
  state, that a task that failed or was canceled carries an error, and that a task that succeeded
  shows full progress.
\<close>

section \<open>Tasks that have ended\<close>

definition closed_node :: "node \<Rightarrow> bool" where
  "closed_node n \<longleftrightarrow> (nstate n = Failed \<or> nstate n = Canceled \<longrightarrow> terror (ntask n) \<noteq> None) \<and>
     (nstate n = Succeeded \<longrightarrow> progress (ntask n) = flt_one)"

definition all_closed :: "pool \<Rightarrow> bool" where
  "all_closed s \<longleftrightarrow> (\<forall>i n. nodes s i = Some n \<longrightarrow> closed_node n)"

lemma closed_put: "all_closed s \<Longrightarrow> closed_node n \<Longrightarrow> nodes s' = (nodes s)(i \<mapsto> n) \<Longrightarrow> all_closed s'"
  by (auto simp: all_closed_def split: if_splits)

lemma closed_cong: "nodes s' = nodes s \<Longrightarrow> all_closed s' = all_closed s"
  by (simp add: all_closed_def)

lemma closed_live: "\<not> is_terminal (nstate n) \<Longrightarrow> closed_node n"
  by (auto simp: closed_node_def)

lemma closed_propagate:
  assumes p: "propagate now i s = (s', evs)" and c: "all_closed s"
  shows "all_closed s'"
  unfolding all_closed_def
proof (intro allI impI)
  fix j m
  assume m: "nodes s' j = Some m"
  from prop_rel_nodes [OF prop_rel_propagate [OF p], of j] show "closed_node m"
  proof
    assume "nodes s' j = nodes s j"
    with m c show ?thesis by (simp add: all_closed_def)
  next
    assume "\<exists>n n'. nodes s j = Some n \<and> nodes s' j = Some n' \<and> dep_canceled now n n'"
    with m show ?thesis by (auto simp: closed_node_def dest: dep_canceled_fields(1,12))
  qed
qed

lemma cancel_error_some [simp]: "terror (cancel_error t) \<noteq> None"
  by (simp add: cancel_error_def)

lemma closed_cancel:
  assumes c: "pool_cancel now s i = (s', evs, r)" and l: "all_closed s"
  shows "all_closed s'"
  using c
proof (cases rule: pool_cancel_cases)
  case unknown
  with l show ?thesis by simp
next
  case (ended n)
  with l have "closed_node (clear_pause n)" by (auto simp: all_closed_def closed_node_def)
  with l show ?thesis by (rule closed_put) (simp add: ended(4))
next
  case (live n evs2)
  have "closed_node (canceled_node now n)" by (simp add: closed_node_def canceled_node_def)
  with l have "all_closed (cancel_self now s i n)" by (rule closed_put) (simp add: cancel_self_def)
  with live(3) show ?thesis by (rule closed_propagate)
qed

lemma closed_cancel_each: "cancel_each now s is = (s', evs) \<Longrightarrow> all_closed s \<Longrightarrow> all_closed s'"
proof (induction "is" arbitrary: s evs)
  case Nil
  then show ?case by simp
next
  case (Cons i "is")
  obtain s1 ev1 r where c: "pool_cancel now s i = (s1, ev1, r)" using prod_cases3 by blast
  obtain s2 ev2 where e: "cancel_each now s1 is = (s2, ev2)" by fastforce
  from Cons.prems c e have "s' = s2" by simp
  with Cons.IH [of s1 ev2] e closed_cancel [OF c Cons.prems(2)] show ?case by simp
qed

lemma closed_wake: "wake_successors now xs s = (s', evs) \<Longrightarrow> all_closed s \<longrightarrow> all_closed s'"
proof (induction rule: wake_successors_induct)
  case (Wake x n xs s s' evs)
  have "closed_node (woken_node now n)" using Wake(2) by (intro closed_live) (simp add: woken_node_def)
  with closed_put [of s "woken_node now n" "wake_one now x n s" x] Wake(4) show ?case
    by (simp add: wake_one_def)
qed auto

lemma closed_finish:
  assumes l: "all_closed s" and n: "nodes s i = Some n" "nrunning n" "nstate n = Running \<or> nstate n = Canceled"
    and f: "finalize_execution now s i outs res = (s', evs)"
  shows "all_closed s'"
proof -
  let ?f = "finished now s i n outs res"
  let ?n' = "finished_node now s n outs res"
  have "closed_node ?n'"
  proof (cases "nstate n = Canceled")
    case True
    with l n(1) show ?thesis by (auto simp: all_closed_def closed_node_def finished_node_def)
  next
    case False
    with n(3) have r: "nstate n = Running" by simp
    have "finish_target s n res \<noteq> Succeeded" if "res = Inl e" for e
      using that by (simp add: finish_target_def)
    with r show ?thesis
      by (cases res) (auto simp: closed_node_def finished_node_def set_progress_def clamp_def)
  qed
  with l have fin: "all_closed ?f" by (rule closed_put) (simp add: finished_def)
  obtain s2 e2 where two: "(if finish_target s n res = Succeeded
      then wake_successors now (succs (successors s) i) ?f else propagate now i ?f) = (s2, e2)" by fastforce
  with fin closed_wake [of now _ ?f s2 e2] closed_propagate [of now i ?f s2 e2] have "all_closed s2"
    by (auto split: if_splits)
  moreover have "s' = s2" using f two by (simp add: finalize_eq [OF n])
  ultimately show ?thesis by simp
qed

lemma closed_submit:
  assumes "fresh_task t" "pool_submit now s t stg = (s', evs, r)" and l: "all_closed s"
  shows "all_closed s'"
  using assms(1,2)
proof (cases rule: submit_inserts)
  case (rejected h g)
  with l show ?thesis by (simp add: all_closed_def)
next
  case (inserted n)
  then have "closed_node n" by (auto simp: closed_node_def)
  with l show ?thesis using inserted(4) by (rule closed_put)
qed

lemma closed_pause_begin:
  assumes "pause_begin now s i = (s', evs, out)" and l: "all_closed s"
  shows "all_closed s'"
  using assms(1)
proof (cases rule: pause_begin_cases)
  case (held n)
  then show ?thesis by (intro closed_put [OF l, where n = "n\<lparr>ntask := apply_transition now (ntask n) Paused\<rparr>"])
      (simp_all add: closed_live)
next
  case (asked n deadline)
  then show ?thesis
    by (intro closed_put [OF l, where n = "n\<lparr>pause_requested := True, pause_deadline := deadline\<rparr>"])
       (simp_all add: closed_live)
qed (use l in simp)

lemma closed_resume:
  assumes "pool_resume now s i = (s', evs, r)" "wf_nodes s" and l: "all_closed s"
  shows "all_closed s'"
  using assms(1,2)
proof (cases rule: pool_resume_cases)
  case (back_to n st)
  then have "closed_node (resumed_node now n)" by (intro closed_live) (auto simp: resumed_node_def Let_def)
  with l show ?thesis by (rule closed_put) (simp add: back_to(6))
qed (use l in simp)

lemma closed_checkpoint:
  assumes "progress_checkpoint now s i p = (s', evs, b)" and l: "all_closed s"
    and run: "\<And>n. nodes s i = Some n \<Longrightarrow> nstate n \<noteq> Succeeded"
  shows "all_closed s'"
  using assms(1)
proof (cases rule: checkpoint_cases)
  case (stored n)
  with l run have "closed_node (n\<lparr>ntask := set_progress (ntask n) p\<rparr>)"
    by (auto simp: all_closed_def closed_node_def)
  with l show ?thesis by (rule closed_put) (simp add: stored(3))
next
  case (held n)
  have "closed_node ((clear_pause n)\<lparr>ntask := apply_transition now (set_progress (ntask n) p) Paused\<rparr>)"
    using held(3) by (intro closed_live) simp
  with l show ?thesis by (rule closed_put) (simp add: held(4))
qed (use l in simp)

section \<open>Every step\<close>

lemma closed_step:
  assumes "pool_step s ws evs s' ws'" and inv: "sys_inv s ws" and l: "all_closed s"
  shows "all_closed s'"
  using assms(1)
proof (cases rule: pool_step.cases)
  case (step_submit t now stg r)
  from closed_submit [OF step_submit(2,5) l] show ?thesis .
next
  case (step_cancel now i r)
  from closed_cancel [OF step_cancel(2) l] show ?thesis .
next
  case (step_pause now i out)
  from closed_pause_begin [OF step_pause(2) l] show ?thesis .
next
  case (step_pause_timeout now i r)
  then obtain r' where "pool_cancel now s i = (s', evs, r')"
    by (auto simp: pause_timeout_def split: prod.splits)
  from closed_cancel [OF this l] show ?thesis .
next
  case (step_resume now i r)
  have "wf_nodes s" using inv by (simp add: sys_inv_def pool_inv_def pool_core_def)
  from closed_resume [OF step_resume(2) this l] show ?thesis .
next
  case (step_tick now)
  then have "cancel_each now s (filter (pause_expired now s) (node_order s)) = (s', evs)"
    by (simp add: pool_tick_def)
  from closed_cancel_each [OF this l] show ?thesis .
next
  case (step_begin k now d)
  from step_begin(4) show ?thesis
  proof (cases rule: begin_cases)
    case (runs c n d')
    then show ?thesis
      by (intro closed_put [OF l, where n = "started_node now n"]) (simp_all add: closed_live started_node_def)
  qed (use l in simp)
next
  case (step_progress k i now p b)
  from executing_node [OF inv step_progress(2,3)] obtain n where "nodes s i = Some n" "nrunning n" "node_ok (config s) n" .
  then have "nstate m \<noteq> Succeeded" if "nodes s i = Some m" for m using that by (auto simp: node_ok_def exec_ok_def)
  from closed_checkpoint [OF step_progress(4) l this] show ?thesis .
next
  case (step_finish k i now outs res)
  obtain n where n: "nodes s i = Some n" "nrunning n" "nstate n = Running \<or> nstate n = Canceled"
    by (rule finishing_node [OF inv step_finish(2-4)])
  from closed_finish [OF l n step_finish(5)] show ?thesis .
qed (use l in \<open>simp_all add: all_closed_def pool_on_state_change_def\<close>)

lemma pool_reach_closed:
  assumes "sane_config c" and "pool_reach hw c evs s ws"
  shows "all_closed s"
  using assms
proof (induction rule: reach_induct)
  case (start h)
  show ?case by (simp add: all_closed_def create_pool_def)
next
  case (step evs s ws ev s' ws')
  from closed_step [OF step(3,2,4)] show ?case .
qed

section \<open>Properties\<close>

text \<open>C13: Stored tasks are well-typed. In every reachable configuration a task stands under its own
  id; it remembers where it was paused exactly while it is paused, and that is a state to return to; it
  has an end time exactly if it has ended, and a start time once it ran; it carries an error if it
  failed or was canceled, and full progress if it succeeded; and its demand is positive and fits the
  hard budget.\<close>

theorem pool_tasks_typed:
  assumes "sane_config c" and "pool_reach hw c evs s ws" and "nodes s i = Some n"
  shows "task_id (ntask n) = i \<and> (nstate n = Paused \<longleftrightarrow> paused_from (ntask n) \<noteq> None) \<and>
    paused_from (ntask n) \<in> {None, Some Queued, Some Ready, Some Running} \<and>
    (is_terminal (nstate n) \<longleftrightarrow> finished_at (ntask n) \<noteq> None) \<and>
    (nstate n \<in> {Running, Succeeded, Failed} \<longrightarrow> started_at (ntask n) \<noteq> None) \<and>
    (nstate n \<in> {Failed, Canceled} \<longrightarrow> terror (ntask n) \<noteq> None) \<and>
    (nstate n = Succeeded \<longrightarrow> progress (ntask n) = flt_one) \<and>
    1 \<le> cpu_slots (demand (ntask n)) \<and> cpu_slots (demand (ntask n)) \<le> cpu_slots_hard (budget s)"
proof -
  note parts = reach_parts [OF assms(1,2)]
  have "task_id (ntask n) = i" using parts(8) assms(3) by (simp add: wf_index_def)
  moreover have "task_wf (ntask n)" "demand_ok (config s) (demand (ntask n))"
    using parts(1) assms(3) by (simp_all add: wf_nodes_def node_ok_def)
  moreover have "closed_node n" using pool_reach_closed [OF assms(1,2)] assms(3) by (simp add: all_closed_def)
  ultimately show ?thesis
    by (cases "paused_from (ntask n)") (auto simp: task_wf_def demand_ok_def closed_node_def)
qed

theorem pool_tasks_typed_witness:
  "nstate (demo_node lost1 ''b'') = Paused \<and> paused_from (ntask (demo_node lost1 ''b'')) \<noteq> None \<and>
   progress (ntask (demo_node demo4 ''a'')) = flt_one"
proof (intro conjI)
  show p: "nstate (demo_node lost1 ''b'') = Paused" by code_simp
  have "nodes lost1 ''b'' = Some (demo_node lost1 ''b'')" by (rule demo_node) code_simp
  from pool_tasks_typed [OF demo_sane lost_reach1 this] p
  show "paused_from (ntask (demo_node lost1 ''b'')) \<noteq> None" by blast
  have "nodes demo4 ''a'' = Some (demo_node demo4 ''a'')" by (rule demo_node) code_simp
  moreover have "nstate (demo_node demo4 ''a'') = Succeeded" by code_simp
  ultimately show "progress (ntask (demo_node demo4 ''a'')) = flt_one"
    using pool_tasks_typed [OF demo_sane demo_reach4] by blast
qed

end
