(* ===== verification/Pool_Crew.thy ===== *)
theory Pool_Crew
  imports Pool_Drain
begin

text \<open>
  All workers at once. A crew is what the workers hold: nothing, or the task they dispatched with its
  stage and its context. A crew run interleaves the beginnings, reports and endings of
  \<open>worker_loop\<close> in any order; what a stage may return is a relation. Clients keep still.
\<close>

section \<open>The crew\<close>

type_synonym crew = "dispatch option list"
type_synonym behaviour = "stage \<Rightarrow> stage_context \<Rightarrow> stage_outcome \<Rightarrow> bool"

definition hands :: "crew \<Rightarrow> workers" where
  "hands jobs = map (map_option dtask) jobs"

text \<open>A step, with a count that leaves out the reports.\<close>

inductive crew_step ::
  "behaviour \<Rightarrow> pool \<Rightarrow> crew \<Rightarrow> nat \<Rightarrow> state_event list \<Rightarrow> pool \<Rightarrow> crew \<Rightarrow> bool" for runs where
  crew_begin: "k < length jobs \<Longrightarrow> jobs ! k = None \<Longrightarrow> worker_begin now s = (s', evs, Some d) \<Longrightarrow>
    crew_step runs s jobs 1 evs s' (jobs[k := Some d])"
| crew_report: "k < length jobs \<Longrightarrow> jobs ! k = Some d \<Longrightarrow>
    progress_checkpoint now s (dtask d) p = (s', evs, b) \<Longrightarrow> crew_step runs s jobs 0 evs s' jobs"
| crew_finish: "k < length jobs \<Longrightarrow> jobs ! k = Some d \<Longrightarrow> runs (dstage d) (dctx d) (ctx, ps, res) \<Longrightarrow>
    finalize_execution now s (dtask d) (ctx_outputs ctx) res = (s', evs) \<Longrightarrow>
    crew_step runs s jobs 1 evs s' (jobs[k := None])"

inductive crew_run ::
  "behaviour \<Rightarrow> pool \<Rightarrow> crew \<Rightarrow> nat \<Rightarrow> state_event list \<Rightarrow> pool \<Rightarrow> crew \<Rightarrow> bool" for runs where
  crew_here: "crew_run runs s jobs 0 [] s jobs"
| crew_next: "crew_run runs s jobs m evs s1 jobs1 \<Longrightarrow> crew_step runs s1 jobs1 k ev s2 jobs2 \<Longrightarrow>
    crew_run runs s jobs (m + k) (evs @ ev) s2 jobs2"

lemma hands_simps [simp]:
  "length (hands jobs) = length jobs" "k < length jobs \<Longrightarrow> hands jobs ! k = map_option dtask (jobs ! k)"
  "hands (jobs[k := j]) = (hands jobs)[k := map_option dtask j]" "hands (replicate m None) = replicate m None"
  by (simp_all add: hands_def map_update)

lemma crew_run_trans:
  "crew_run runs s1 jobs1 k ev s2 jobs2 \<Longrightarrow> crew_run runs s jobs m evs s1 jobs1 \<Longrightarrow>
    crew_run runs s jobs (m + k) (evs @ ev) s2 jobs2"
proof (induction rule: crew_run.induct)
  case (crew_next s1 jobs1 k ev s2 jobs2 l ev2 s3 jobs3)
  from crew_run.crew_next [OF crew_next.IH [OF crew_next.prems] crew_next.hyps(2)] show ?case
    by (simp add: add.assoc)
qed simp

lemma crew_step_length: "crew_step runs s jobs m evs s' jobs' \<Longrightarrow> length jobs' = length jobs"
  by (induction rule: crew_step.induct) simp_all

section \<open>Properties of the stored tasks\<close>

definition every_node :: "(node \<Rightarrow> bool) \<Rightarrow> pool \<Rightarrow> bool" where
  "every_node P s \<longleftrightarrow> (\<forall>i n. nodes s i = Some n \<longrightarrow> P n)"

lemma every_put: "every_node P s \<Longrightarrow> nodes s' = (nodes s)(i \<mapsto> n) \<Longrightarrow> P n \<Longrightarrow> every_node P s'"
  by (auto simp: every_node_def split: if_splits)

text \<open>No pause is asked for.\<close>

definition unpaused :: "pool \<Rightarrow> bool" where
  "unpaused s \<longleftrightarrow> every_node (\<lambda>n. \<not> pause_requested n) s"

text \<open>The task that a worker holds is running, or was canceled while it ran.\<close>

lemma held_node:
  assumes "sane_config c" "pool_reach hw c evs s (hands jobs)" "pause_free evs" "k < length jobs" "jobs ! k = Some d"
  obtains n where "nodes s (dtask d) = Some n" "nrunning n" "nstate n = Running \<or> nstate n = Canceled"
    "pool_state_of s (dtask d) \<noteq> Some Paused"
proof -
  have "k < length (hands jobs)" "hands jobs ! k = Some (dtask d)" using assms(4,5) by simp_all
  from executing_node [OF pool_reach_inv [OF assms(1,2)] this] obtain n where
    n: "nodes s (dtask d) = Some n" "nrunning n" "node_ok (config s) n" by blast
  moreover have "nstate n \<noteq> Paused"
    using pool_reach_live [OF assms(1-3)] n(1) by (auto simp: never_paused_def)
  moreover from this n have "nstate n = Running \<or> nstate n = Canceled" by (auto simp: node_ok_def exec_ok_def)
  ultimately show thesis by (intro that) (auto simp: pool_state_of_def)
qed

text \<open>What a beginning finds.\<close>

lemma begun_node:
  assumes c: "sane_config c" "pool_reach hw c evs s ws" and b: "worker_begin now s = (s', evs', Some d)"
  obtains n where "nodes s (dtask d) = Some n" "nstate n = Ready" "\<not> nrunning n"
    "s' = dispatched now s (dtask d) n" "evs' = [StateEvent (dtask d) Running (progress (ntask n))]"
    "dstage d = nstage n" "ctx_inputs (dctx d) = collect_outputs (nodes s') (deps (ntask n)) Map.empty"
    "\<And>e. e \<in> set (deps (ntask n)) \<Longrightarrow> \<exists>m. nodes s e = Some m \<and> nstate m = Succeeded"
proof -
  obtain cd where "pick_candidate now s True = Some cd" using b by (cases rule: begin_cases) auto
  from worker_begin_dispatch [OF this b] obtain n where
    n: "nodes s (dtask d) = Some n" "nstate n = Ready" "s' = dispatched now s (dtask d) n"
      "evs' = [StateEvent (dtask d) Running (progress (ntask n))]" "dstage d = nstage n"
      "ctx_inputs (dctx d) = collect_outputs (nodes s') (deps (ntask n)) Map.empty" by auto
  from reach_parts(1) [OF c] n(1) have "exec_ok n" by (auto simp: wf_nodes_def node_ok_def)
  with n(2) have "\<not> nrunning n" by (auto simp: exec_ok_def)
  moreover have "\<exists>m. nodes s e = Some m \<and> nstate m = Succeeded" if "e \<in> set (deps (ntask n))" for e
    using reach_parts(6) [OF c] n(1,2) that
    by (auto simp: wf_deps_def started_def done_in_def split: option.splits)
  ultimately show thesis using that n by blast
qed

text \<open>
  What a client of the crew proves of the tasks, step by step: \<open>P\<close> of every stored task and \<open>J\<close> of
  every dispatched one.
\<close>

locale crew_property =
  fixes runs :: behaviour and P :: "node \<Rightarrow> bool" and J :: "dispatch \<Rightarrow> bool"
  assumes begins: "P n \<Longrightarrow> nstate n = Ready \<Longrightarrow> P (started_node now n)"
    and takes: "P n \<Longrightarrow> nstate n = Ready \<Longrightarrow> dstage d = nstage n \<Longrightarrow>
      ctx_inputs (dctx d) = collect_outputs N (deps (ntask n)) Map.empty \<Longrightarrow>
      (\<And>e. e \<in> set (deps (ntask n)) \<Longrightarrow> \<exists>m. P m \<and> nstate m = Succeeded) \<Longrightarrow> J d"
    and reports: "P n \<Longrightarrow> P (n\<lparr>ntask := set_progress (ntask n) p\<rparr>)"
    and finishes: "P n \<Longrightarrow> J d \<Longrightarrow> runs (dstage d) (dctx d) (ctx, ps, res) \<Longrightarrow> nrunning n \<Longrightarrow>
      nstate n = Running \<or> nstate n = Canceled \<Longrightarrow> P (finished_node now s n outs res)"
    and wakes: "P n \<Longrightarrow> nstate n = Queued \<Longrightarrow> P (woken_node now n)"
    and cancels: "P n \<Longrightarrow> J d \<Longrightarrow> runs (dstage d) (dctx d) (ctx, ps, res) \<Longrightarrow>
      nstate n = Running \<or> nstate n = Canceled \<Longrightarrow> finish_target s n res \<noteq> Succeeded \<Longrightarrow>
      P m \<Longrightarrow> dep_canceled now m m' \<Longrightarrow> P m'"
begin

lemma every_wake: "wake_successors now xs s = (s', evs) \<Longrightarrow> every_node P s \<longrightarrow> every_node P s'"
proof (induction rule: wake_successors_induct)
  case (Wake x n xs s s' evs)
  have "every_node P (wake_one now x n s)" if "every_node P s"
    using that Wake(1,2) wakes [of n now] every_put [OF that, of "wake_one now x n s" x "woken_node now n"]
    by (auto simp: wake_one_def every_node_def)
  with Wake(4) show ?case by simp
qed auto

lemma every_finish:
  assumes e: "every_node P s" and j: "J d" "runs (dstage d) (dctx d) (ctx, ps, res)"
    and n: "nodes s i = Some n" "nrunning n" "nstate n = Running \<or> nstate n = Canceled"
    and f: "finalize_execution now s i outs res = (s', evs)"
  shows "every_node P s'"
proof -
  let ?f = "finished now s i n outs res"
  have pn: "P n" using e n(1) by (simp add: every_node_def)
  have done1: "every_node P ?f"
    by (rule every_put [OF e, of _ i "finished_node now s n outs res"])
       (simp_all add: finished_def finishes [OF pn j n(2,3)])
  show ?thesis
  proof (cases "finish_target s n res = Succeeded")
    case True
    then obtain s2 e2 where "wake_successors now (succs (successors s) i) ?f = (s2, e2)" "s' = s2"
      using f by (auto simp: finalize_eq [OF n] split: prod.splits)
    with every_wake done1 show ?thesis by blast
  next
    case False
    then obtain e2 where p: "propagate now i ?f = (s', e2)"
      using f by (auto simp: finalize_eq [OF n] split: prod.splits)
    show ?thesis
      unfolding every_node_def
    proof (intro allI impI)
      fix x m
      assume m: "nodes s' x = Some m"
      from prop_rel_nodes [OF prop_rel_propagate [OF p], of x] show "P m"
      proof
        assume "nodes s' x = nodes ?f x"
        with m done1 show ?thesis by (simp add: every_node_def)
      next
        assume "\<exists>n n'. nodes ?f x = Some n \<and> nodes s' x = Some n' \<and> dep_canceled now n n'"
        with m done1 obtain l where "P l" "dep_canceled now l m" by (auto simp: every_node_def)
        with cancels [OF pn j n(3) False] show ?thesis by blast
      qed
    qed
  qed
qed

lemma keeps_step:
  assumes c: "sane_config c" "pool_reach hw c evs s (hands jobs)" "pause_free evs" "unpaused s"
    and e: "every_node P s" and j: "\<forall>d. Some d \<in> set jobs \<longrightarrow> J d"
    and st: "crew_step runs s jobs m ev s' jobs'"
  shows "every_node P s' \<and> (\<forall>d. Some d \<in> set jobs' \<longrightarrow> J d)"
  using st
proof (cases rule: crew_step.cases)
  case (crew_begin k now d)
  from begun_node [OF c(1,2) crew_begin(5)] obtain n where
    n: "nodes s (dtask d) = Some n" "nstate n = Ready" "s' = dispatched now s (dtask d) n" "dstage d = nstage n"
      "ctx_inputs (dctx d) = collect_outputs (nodes s') (deps (ntask n)) Map.empty"
      "\<And>e. e \<in> set (deps (ntask n)) \<Longrightarrow> \<exists>m. nodes s e = Some m \<and> nstate m = Succeeded" by blast
  have pn: "P n" using e n(1) by (simp add: every_node_def)
  have ready: "\<exists>m. P m \<and> nstate m = Succeeded" if "x \<in> set (deps (ntask n))" for x
    using n(6) [OF that] e by (auto simp: every_node_def)
  have "J d" by (rule takes [OF pn n(2,4,5)]) (rule ready)
  moreover have "every_node P s'"
    by (rule every_put [OF e _ begins [OF pn n(2)]]) (simp add: n(3))
  moreover have "set jobs' \<subseteq> insert (Some d) (set jobs)" using crew_begin(2) set_update_subset_insert by simp
  ultimately show ?thesis using j by auto
next
  case (crew_report k d now p b)
  from crew_report(5) have "every_node P s'"
  proof (cases rule: checkpoint_cases)
    case (stored n)
    with e reports show ?thesis by (auto intro: every_put simp: every_node_def)
  next
    case (held n)
    with c(4) show ?thesis by (auto simp: unpaused_def every_node_def)
  qed (use e in simp)
  with crew_report(2) j show ?thesis by simp
next
  case (crew_finish k d ctx ps res now)
  from crew_finish(3,4) have d: "J d" using j by (metis nth_mem)
  obtain n where n: "nodes s (dtask d) = Some n" "nrunning n" "nstate n = Running \<or> nstate n = Canceled"
    by (rule held_node [OF c(1-3) crew_finish(3,4)])
  have "set jobs' \<subseteq> insert None (set jobs)" using crew_finish(2) set_update_subset_insert by simp
  with j every_finish [OF e d crew_finish(5) n crew_finish(6)] show ?thesis by auto
qed

end

interpretation calm_crew: crew_property runs "\<lambda>n. \<not> pause_requested n" "\<lambda>d. True" for runs
  by unfold_locales
     (auto simp: started_node_def clear_pause_def finished_node_def woken_node_def dep_canceled_def split: sum.splits)

section \<open>Runs of the crew\<close>

lemma crew_step_moves:
  assumes c: "sane_config c" and r: "pool_reach hw c evs s (hands jobs)" and p: "pause_free evs" and u: "unpaused s"
    and st: "crew_step runs s jobs m ev s' jobs'"
  shows "pool_step s (hands jobs) ev s' (hands jobs') \<and> pause_free ev \<and> node_order s' = node_order s"
  using st
proof (cases rule: crew_step.cases)
  case (crew_begin k now d)
  from begun_node [OF c r crew_begin(5)] obtain n where
    "s' = dispatched now s (dtask d) n" "ev = [StateEvent (dtask d) Running (progress (ntask n))]" by blast
  moreover have "pool_step s (hands jobs) ev s' ((hands jobs)[k := map_option dtask (Some d)])"
    by (rule step_begin [where now = now]) (use crew_begin in simp_all)
  ultimately show ?thesis using crew_begin(2) by (simp add: pause_free_def)
next
  case (crew_report k d now p b)
  from crew_report(3,4) have "k < length (hands jobs)" "hands jobs ! k = Some (dtask d)" by simp_all
  then have "pool_step s (hands jobs) ev s' (hands jobs)" by (rule step_progress [OF _ _ crew_report(5)])
  moreover have "pause_free ev"
    using crew_report(5)
  proof (cases rule: checkpoint_cases)
    case (held n)
    with u show ?thesis by (simp add: unpaused_def every_node_def)
  qed (simp_all add: pause_free_def)
  moreover have "node_order s' = node_order s"
    using calm_checkpoint [OF crew_report(5)] by (simp add: changes_def)
  ultimately show ?thesis using crew_report(2) by simp
next
  case (crew_finish k d ctx ps res now)
  obtain n where n: "nodes s (dtask d) = Some n" "nrunning n" "nstate n = Running \<or> nstate n = Canceled"
    "pool_state_of s (dtask d) \<noteq> Some Paused"
    by (rule held_node [OF c r p crew_finish(3,4)])
  have "pool_step s (hands jobs) ev s' ((hands jobs)[k := None])"
    by (rule step_finish [OF _ _ n(4) crew_finish(6)]) (use crew_finish in simp_all)
  with finalize_ends [OF n(1-3) crew_finish(6)] crew_finish(2) show ?thesis by simp
qed

lemma crew_step_pool:
  assumes c: "sane_config c" and r: "pool_reach hw c evs s (hands jobs)" and p: "pause_free evs" and u: "unpaused s"
    and st: "crew_step runs s jobs m ev s' jobs'"
  shows "pool_reach hw c (evs @ ev) s' (hands jobs') \<and> pause_free ev \<and> unpaused s' \<and> node_order s' = node_order s"
proof -
  have "unpaused s'"
    using calm_crew.keeps_step [OF c r p u _ _ st] u by (simp add: unpaused_def)
  with crew_step_moves [OF assms] r show ?thesis by (blast intro: reach_next)
qed

lemma crew_run_pool:
  assumes c: "sane_config c" and r: "pool_reach hw c evs s (hands jobs)" and p: "pause_free evs" and u: "unpaused s"
    and run: "crew_run runs s jobs m ev s' jobs'"
  shows "pool_reach hw c (evs @ ev) s' (hands jobs') \<and> pause_free ev \<and> unpaused s' \<and> node_order s' = node_order s"
  using run r p u
proof (induction rule: crew_run.induct)
  case (crew_here s jobs)
  then show ?case by (simp add: pause_free_def)
next
  case (crew_next s jobs m evs1 s1 jobs1 k ev1 s2 jobs2)
  then have one: "pool_reach hw c (evs @ evs1) s1 (hands jobs1)" "pause_free (evs @ evs1)" "unpaused s1"
    "node_order s1 = node_order s" "pause_free evs1" by simp_all
  from crew_step_pool [OF c one(1-3) crew_next.hyps(2)] one show ?case by simp
qed

text \<open>What a crew property gives of a whole run.\<close>

context crew_property
begin

lemma keeps_run:
  assumes c: "sane_config c" "pool_reach hw c evs s (hands jobs)" "pause_free evs" "unpaused s"
    and e: "every_node P s" and j: "\<forall>d. Some d \<in> set jobs \<longrightarrow> J d"
    and run: "crew_run runs s jobs m ev s' jobs'"
  shows "every_node P s' \<and> (\<forall>d. Some d \<in> set jobs' \<longrightarrow> J d)"
  using run c(2-) e j
proof (induction rule: crew_run.induct)
  case (crew_here s jobs)
  then show ?case by simp
next
  case (crew_next s jobs m evs1 s1 jobs1 k ev1 s2 jobs2)
  from crew_run_pool [OF c(1) crew_next.prems(1-3) crew_next.hyps(1)] crew_next.prems(2)
  have one: "pool_reach hw c (evs @ evs1) s1 (hands jobs1)" "pause_free (evs @ evs1)" "unpaused s1" by simp_all
  from crew_next.IH [OF crew_next.prems] keeps_step [OF c(1) one _ _ crew_next.hyps(2)] show ?case by blast
qed

end

section \<open>A crew ends\<close>

text \<open>The steps a task still needs: a beginning and an ending, or the ending.\<close>

definition task_work :: "node \<Rightarrow> nat" where
  "task_work n = (if nrunning n then 1 else if is_terminal (nstate n) then 0 else 2)"

definition work_of :: "pool \<Rightarrow> string \<Rightarrow> nat" where
  "work_of s i = (case nodes s i of None \<Rightarrow> 0 | Some n \<Rightarrow> task_work n)"

definition crew_work :: "pool \<Rightarrow> nat" where
  "crew_work s = (\<Sum>i\<leftarrow>node_order s. work_of s i)"

lemma crew_work_bound: "crew_work s \<le> 2 * length (node_order s)"
proof -
  have "work_of s i \<le> 2" for i by (simp add: work_of_def task_work_def split: option.splits)
  then have "(\<Sum>i\<leftarrow>xs. work_of s i) \<le> (\<Sum>i\<leftarrow>xs. 2)" for xs by (intro sum_list_mono)
  moreover have "(\<Sum>i\<leftarrow>xs. 2) = 2 * length xs" for xs :: "string list" by (induction xs) simp_all
  ultimately show ?thesis by (metis crew_work_def)
qed

lemma sum_list_less:
  fixes f g :: "'a \<Rightarrow> nat"
  assumes "\<And>x. x \<in> set xs \<Longrightarrow> f x \<le> g x" "i \<in> set xs" "f i < g i"
  shows "(\<Sum>x\<leftarrow>xs. f x) < (\<Sum>x\<leftarrow>xs. g x)"
  using assms(1,2)
proof (induction xs)
  case (Cons x xs)
  have le: "(\<Sum>x\<leftarrow>xs. f x) \<le> (\<Sum>x\<leftarrow>xs. g x)" using Cons.prems(1) by (intro sum_list_mono) simp
  show ?case
  proof (cases "x = i")
    case True
    with le assms(3) show ?thesis by simp
  next
    case False
    with Cons.prems have "(\<Sum>x\<leftarrow>xs. f x) < (\<Sum>x\<leftarrow>xs. g x)" by (intro Cons.IH) auto
    moreover have "f x \<le> g x" using Cons.prems(1) by simp
    ultimately show ?thesis by simp
  qed
qed simp

lemma work_wake: "wake_successors now xs s = (s', evs) \<Longrightarrow> work_of s' j = work_of s j"
proof (induction rule: wake_successors_induct)
  case (Wake x n xs s s' evs)
  have "work_of (wake_one now x n s) j = work_of s j"
    using Wake(1,2) by (auto simp: wake_one_def work_of_def woken_node_def task_work_def)
  with Wake(4) show ?case by simp
qed simp_all

lemma work_propagate:
  assumes "propagate now i s = (s', evs)"
  shows "work_of s' j \<le> work_of s j"
  using prop_rel_nodes [OF prop_rel_propagate [OF assms], of j]
  by (auto simp: work_of_def task_work_def dest: dep_canceled_fields(1,5,8))

lemma work_finish:
  assumes n: "nodes s i = Some n" "nrunning n" "nstate n = Running \<or> nstate n = Canceled"
    and f: "finalize_execution now s i outs res = (s', evs)"
  shows "work_of s' j \<le> (if j = i then 0 else work_of s j)"
proof -
  let ?f = "finished now s i n outs res"
  have "work_of ?f j = (if j = i then 0 else work_of s j)"
    using n(3) by (auto simp: work_of_def finished_def finished_node_def finish_target_def task_work_def split: sum.splits)
  moreover have "work_of s' j \<le> work_of ?f j"
  proof (cases "finish_target s n res = Succeeded")
    case True
    then obtain s2 e2 where "wake_successors now (succs (successors s) i) ?f = (s2, e2)" "s' = s2"
      using f by (auto simp: finalize_eq [OF n] split: prod.splits)
    with work_wake show ?thesis by simp
  next
    case False
    then obtain e2 where "propagate now i ?f = (s', e2)"
      using f by (auto simp: finalize_eq [OF n] split: prod.splits)
    then show ?thesis by (rule work_propagate)
  qed
  ultimately show ?thesis by simp
qed

lemma crew_work_less:
  assumes w: "wf_index s" and o: "node_order s' = node_order s" and i: "nodes s i = Some n"
    and less: "work_of s' i < work_of s i" and le: "\<And>j. work_of s' j \<le> work_of s j"
  shows "crew_work s' < crew_work s"
  unfolding crew_work_def o
  by (rule sum_list_less [where i = i]) (use w i less le in \<open>auto simp: wf_index_def\<close>)

lemma crew_step_work:
  assumes c: "sane_config c" "pool_reach hw c evs s (hands jobs)" "pause_free evs" "unpaused s"
    and st: "crew_step runs s jobs m ev s' jobs'"
  shows "m + crew_work s' \<le> crew_work s"
proof -
  note ord = crew_step_pool [OF c st, THEN conjunct2, THEN conjunct2, THEN conjunct2]
  note less = crew_work_less [OF reach_parts(8) [OF c(1,2)] ord]
  show ?thesis
    using st
  proof (cases rule: crew_step.cases)
    case (crew_begin k now d)
    from begun_node [OF c(1,2) crew_begin(5)] obtain n where
      n: "nodes s (dtask d) = Some n" "nstate n = Ready" "\<not> nrunning n" "s' = dispatched now s (dtask d) n" by blast
    have "crew_work s' < crew_work s"
      by (rule less [OF n(1)]) (use n in \<open>simp_all add: work_of_def started_node_def task_work_def\<close>)
    with crew_begin(1) show ?thesis by simp
  next
    case (crew_report k d now p b)
    from crew_report(5) have "work_of s' j = work_of s j" for j
    proof (cases rule: checkpoint_cases)
      case (held n)
      with c(4) show ?thesis by (simp add: unpaused_def every_node_def)
    qed (simp_all add: work_of_def task_work_def)
    with crew_report(1) ord show ?thesis by (simp add: crew_work_def)
  next
    case (crew_finish k d ctx ps res now)
    obtain n where n: "nodes s (dtask d) = Some n" "nrunning n" "nstate n = Running \<or> nstate n = Canceled"
      by (rule held_node [OF c(1-3) crew_finish(3,4)])
    have w: "work_of s (dtask d) = 1" using n by (simp add: work_of_def task_work_def)
    note fin = work_finish [OF n crew_finish(6)]
    have "work_of s' (dtask d) < work_of s (dtask d)" using fin [of "dtask d"] w by simp
    moreover have "work_of s' j \<le> work_of s j" for j using fin [of j] by (simp split: if_splits)
    ultimately have "crew_work s' < crew_work s" by (rule less [OF n(1)])
    with crew_finish(1) show ?thesis by simp
  qed
qed

lemma crew_run_work:
  assumes c: "sane_config c" and r: "pool_reach hw c evs s (hands jobs)" "pause_free evs" "unpaused s"
    and run: "crew_run runs s jobs m ev s' jobs'"
  shows "m + crew_work s' \<le> crew_work s"
  using run r
proof (induction rule: crew_run.induct)
  case (crew_next s jobs m evs1 s1 jobs1 k ev1 s2 jobs2)
  from crew_run_pool [OF c crew_next.prems crew_next.hyps(1)] crew_next.prems(2)
  have "pool_reach hw c (evs @ evs1) s1 (hands jobs1)" "pause_free (evs @ evs1)" "unpaused s1" by simp_all
  from crew_next.IH [OF crew_next.prems] crew_step_work [OF c this crew_next.hyps(2)] show ?case by simp
qed simp

text \<open>As long as a task is pending, a worker can begin or end a task.\<close>

lemma crew_enabled:
  assumes c: "sane_config c" "pool_reach hw c evs s (hands jobs)" "pause_free evs"
    and total: "\<And>st ctx. \<exists>out. runs st ctx out" and pend: "pool_has_pending s"
  shows "\<exists>ev s' jobs'. crew_step runs s jobs 1 ev s' jobs'"
proof (cases "\<exists>k < length jobs. jobs ! k \<noteq> None")
  case True
  then obtain k d where k: "k < length jobs" "jobs ! k = Some d" by blast
  obtain ctx ps res where "runs (dstage d) (dctx d) (ctx, ps, res)"
    using total [of "dstage d" "dctx d"] by (metis prod_cases3)
  moreover obtain s' ev where "finalize_execution 0 s (dtask d) (ctx_outputs ctx) res = (s', ev)"
    by fastforce
  ultimately show ?thesis using crew_finish [OF k] by blast
next
  case False
  then have "jobs = replicate (length jobs) None" by (intro nth_equalityI) auto
  then have idle: "busy (hands jobs) = []" by (metis hands_simps(4) busy_replicate)
  from idle_begins [OF c idle pend] obtain cd where k: "0 < length jobs" "pick_candidate 0 s True = Some cd" by auto
  obtain s' ev dd where b: "worker_begin 0 s = (s', ev, dd)" by (metis prod_cases3)
  from worker_begin_dispatch [OF k(2) b] obtain d where d: "dd = Some d" by blast
  from False k(1) have "jobs ! 0 = None" by blast
  from crew_begin [OF k(1) this b [unfolded d]] show ?thesis by blast
qed

section \<open>The loop of one worker is a run of the crew\<close>

lemma unpaused_checkpoint:
  assumes "unpaused s" "progress_checkpoint now s i p = (s', evs, b)"
  shows "unpaused s' \<and> \<not> b"
proof -
  from assms have "\<not> b" by (auto simp: progress_checkpoint_def unpaused_def every_node_def Let_def split: option.splits if_splits)
  moreover from assms(2) have "unpaused s'"
  proof (cases rule: checkpoint_cases)
    case (stored n)
    with assms(1) show ?thesis by (auto simp: unpaused_def every_node_def)
  next
    case (held n)
    with assms(1) show ?thesis by (auto simp: unpaused_def every_node_def)
  qed (use assms(1) in simp)
  ultimately show ?thesis by simp
qed

lemma report_all_crew:
  assumes k: "k < length jobs" "jobs ! k = Some d"
  shows "unpaused s \<Longrightarrow> report_all now s (dtask d) ps = Some (s', evs) \<Longrightarrow> crew_run runs s jobs 0 evs s' jobs"
proof (induction ps arbitrary: s evs)
  case Nil
  then show ?case by (auto intro: crew_here)
next
  case (Cons p ps)
  obtain s1 ev1 b where cp: "progress_checkpoint now s (dtask d) p = (s1, ev1, b)" by (metis prod_cases3)
  from unpaused_checkpoint [OF Cons.prems(1) cp] have u: "unpaused s1" "\<not> b" by simp_all
  from Cons.prems(2) cp u(2) obtain ev2 where two: "report_all now s1 (dtask d) ps = Some (s', ev2)" "evs = ev1 @ ev2"
    by (auto split: option.splits)
  have "crew_run runs s jobs (0 + 0) ([] @ ev1) s1 jobs"
    by (rule crew_next [OF crew_here crew_report [OF k cp]])
  from crew_run_trans [OF Cons.IH [OF u(1) two(1)] this] two(2) show ?case by simp
qed

lemma iteration_crew:
  assumes u: "unpaused s" and k: "0 < length jobs" "jobs ! 0 = None"
    and x: "\<And>st ctx. runs st ctx (exec st ctx)" and it: "worker_iteration exec t1 t2 s = Loop_ran s' evs"
  shows "\<exists>m. crew_run runs s jobs m evs s' jobs"
proof -
  obtain s1 ev1 dd where wb: "worker_begin t1 s = (s1, ev1, dd)" by (metis prod_cases3)
  show ?thesis
  proof (cases dd)
    case None
    with it wb have e: "s' = s1" "evs = ev1" by (auto simp: worker_iteration_def split: if_splits)
    have "pick_candidate t1 s True = None"
      using worker_begin_dispatch [OF _ wb] None by (cases "pick_candidate t1 s True") auto
    with wb e have "s' = s" "evs = []" by (simp_all add: worker_begin_idle)
    with crew_here [of runs s jobs] show ?thesis by blast
  next
    case (Some d)
    obtain ctx ps res where ex: "exec (dstage d) (dctx d) = (ctx, ps, res)" by (metis prod_cases3)
    obtain s2 ev2 s3 ev3 where two: "report_all t1 s1 (dtask d) ps = Some (s2, ev2)"
      "finalize_execution t2 s2 (dtask d) (ctx_outputs ctx) res = (s3, ev3)" "s' = s3" "evs = ev1 @ ev2 @ ev3"
      using it wb Some ex by (auto simp: worker_iteration_def split: if_splits option.splits prod.splits)
    let ?jobs = "jobs[0 := Some d]"
    obtain cd where "pick_candidate t1 s True = Some cd"
      using wb Some worker_begin_idle [of t1 s] by (cases "pick_candidate t1 s True") auto
    from worker_begin_dispatch [OF this wb] Some obtain n where
      "nodes s (dtask d) = Some n" "s1 = dispatched t1 s (dtask d) n" by auto
    then have "unpaused s1"
      using u every_put [of _ s s1 "dtask d" "started_node t1 n"]
      by (simp add: unpaused_def started_node_def clear_pause_def)
    moreover have j: "0 < length ?jobs" "?jobs ! 0 = Some d" using k(1) by simp_all
    ultimately have mid: "crew_run runs s1 ?jobs 0 ev2 s2 ?jobs" using report_all_crew two(1) by blast
    have fst: "crew_run runs s jobs (0 + 1) ([] @ ev1) s1 ?jobs"
      by (rule crew_next [OF crew_here crew_begin [OF k wb [unfolded Some]]])
    have "runs (dstage d) (dctx d) (ctx, ps, res)" using x [of "dstage d" "dctx d"] ex by simp
    from crew_next [OF crew_run_trans [OF mid fst] crew_finish [where runs = runs, OF j this two(2)]]
    have "crew_run runs s jobs (Suc (Suc 0)) (ev1 @ ev2 @ ev3) s3 (?jobs[0 := None])" by simp
    moreover have "?jobs[0 := None] = jobs" using k by (metis list_update_id list_update_overwrite)
    ultimately show ?thesis using two(3,4) by auto
  qed
qed

lemma crew_alone:
  assumes c: "sane_config c" and r: "pool_reach hw c evs0 s (hands jobs)" "pause_free evs0" "unpaused s"
    and k: "0 < length jobs" "jobs ! 0 = None" and x: "\<And>st ctx. runs st ctx (exec st ctx)"
    and al: "worker_alone exec ts s = (s', evs)"
  shows "\<exists>m. crew_run runs s jobs m evs s' jobs"
  using r al
proof (induction ts arbitrary: s evs0 evs)
  case Nil
  then show ?case by (auto intro: crew_here)
next
  case (Cons t ts)
  show ?case
  proof (cases "worker_iteration exec (fst t) (snd t) s")
    case (Loop_ran s1 ev1)
    obtain s2 ev2 where two: "worker_alone exec ts s1 = (s2, ev2)" by fastforce
    from iteration_crew [where runs = runs and exec = exec, OF Cons.prems(3) k x Loop_ran] obtain m where m: "crew_run runs s jobs m ev1 s1 jobs" by blast
    from crew_run_pool [OF c Cons.prems(1-3) m] Cons.prems(2) have
      "pool_reach hw c (evs0 @ ev1) s1 (hands jobs)" "pause_free (evs0 @ ev1)" "unpaused s1" by simp_all
    moreover have eqs: "s2 = s'" "evs = ev1 @ ev2" using Cons.prems(4) Loop_ran two by simp_all
    ultimately obtain l where "crew_run runs s1 jobs l ev2 s' jobs" using Cons.IH two by blast
    from crew_run_trans [OF this m] eqs(2) show ?thesis by auto
  qed (use Cons.prems in \<open>auto intro: crew_here\<close>)
qed

lemma unpaused_listed:
  assumes "wf_index s"
    and "list_all (\<lambda>i. case nodes s i of None \<Rightarrow> True | Some n \<Rightarrow> \<not> pause_requested n) (node_order s)"
  shows "unpaused s"
  unfolding unpaused_def every_node_def
proof (intro allI impI)
  fix i n
  assume n: "nodes s i = Some n"
  with assms(1) have "i \<in> set (node_order s)" by (auto simp: wf_index_def)
  with assms(2) n show "\<not> pause_requested n" by (auto simp: list_all_iff)
qed

section \<open>Properties\<close>

text \<open>The workers drain the pool. From any configuration without a pause, in any interleaving of its
  workers and whatever the stages return, at most two steps per task are beginnings and endings; as
  long as a task is pending some worker can make such a step; and when none is pending, every task
  has reported its end exactly once.\<close>

theorem crew_drains:
  assumes "sane_config c" and "pool_reach hw c evs s (hands jobs)" and "pause_free evs" and "unpaused s"
    and "\<And>st ctx. \<exists>out. runs st ctx out" and "crew_run runs s jobs m evs' s' jobs'"
  shows "m \<le> 2 * length (node_order s) \<and> node_order s' = node_order s \<and>
    (if pool_has_pending s' then \<exists>ev s2 jobs2. crew_step runs s' jobs' 1 ev s2 jobs2
     else \<forall>i \<in> set (node_order s). end_events i (evs @ evs') = 1)"
proof -
  from crew_run_pool [OF assms(1-4,6)] assms(3) have r: "pool_reach hw c (evs @ evs') s' (hands jobs')"
    "pause_free (evs @ evs')" "node_order s' = node_order s" by simp_all
  have "end_events i (evs @ evs') = 1" if "\<not> pool_has_pending s'" "i \<in> set (node_order s)" for i
  proof -
    from that(2) r(3) reach_parts(8) [OF assms(1) r(1)] obtain n where n: "nodes s' i = Some n"
      by (auto simp: wf_index_def)
    with that r(3) have "is_terminal (nstate n)" by (auto simp: pool_has_pending_def list_ex_iff)
    with pool_reach_reported [OF assms(1) r(1), of i] n show ?thesis by (simp add: ended_def)
  qed
  moreover have "m \<le> 2 * length (node_order s)"
    using crew_run_work [OF assms(1-4,6)] crew_work_bound [of s] by simp
  ultimately show ?thesis using r(3) crew_enabled [OF assms(1) r(1,2) assms(5)] by simp
qed

theorem crew_drains_witness:
  "\<exists>m. crew_run (\<lambda>st ctx out. out = demo_exec st ctx) demo2 [None, None] m
     (snd (worker_alone demo_exec [(30, 40), (50, 60)] demo2))
     (fst (worker_alone demo_exec [(30, 40), (50, 60)] demo2)) [None, None] \<and> m \<le> 4 \<and>
   end_events ''b'' (demo_events2 @ snd (worker_alone demo_exec [(30, 40), (50, 60)] demo2)) = 1"
proof -
  let ?jobs = "[None, None] :: crew"
  let ?runs = "\<lambda>st ctx out. out = demo_exec st ctx"
  obtain s' evs where w: "worker_alone demo_exec [(30, 40), (50, 60)] demo2 = (s', evs)" by fastforce
  have r: "pool_reach 4 demo_config demo_events2 demo2 (hands ?jobs)" using demo_reach2 by (simp add: hands_def)
  have f: "pause_free demo_events2" by code_simp
  have o: "node_order demo2 = [''a'', ''b'']" by code_simp
  have "list_all (\<lambda>i. case nodes demo2 i of None \<Rightarrow> True | Some n \<Rightarrow> \<not> pause_requested n) (node_order demo2)"
    by code_simp
  then have u: "unpaused demo2" by (rule unpaused_listed [OF reach_parts(8) [OF demo_sane r]])
  have "0 < length ?jobs" "?jobs ! 0 = None" by simp_all
  from crew_alone [where runs = ?runs, OF demo_sane r f u this refl w] obtain m where
    m: "crew_run ?runs demo2 ?jobs m evs s' ?jobs" by blast
  have "\<not> pool_has_pending (fst (worker_alone demo_exec [(30, 40), (50, 60)] demo2))" by code_simp
  then have d: "\<not> pool_has_pending s'" unfolding w fst_conv .
  have "\<exists>out. ?runs st ctx out" for st ctx by blast
  from crew_drains [OF demo_sane r f u this m] d o m w show ?thesis by auto
qed

end
