(* ===== verification/Workflow_Properties.thy ===== *)
theory Workflow_Properties
  imports Scenarios "HOL-Library.Code_Target_Nat"
begin

text \<open>
  What the workflow engine guarantees on each of the two schedulers: all or nothing at the start,
  every task ended after a cancellation, one completion call per workflow and none too early. The
  proofs instantiate the locale \<open>workflow_host\<close>; the statements are written out.
\<close>

section \<open>A start that succeeds and one that fails\<close>

text \<open>The draws of the generator: the numbers from 0, so that the identifiers differ.\<close>

definition demo_rng :: rng where
  "demo_rng k = of_nat k"

definition demo_start :: "stage_factory \<Rightarrow> engine \<times> pool \<times> engine_call list \<times> (task_error + string)" where
  "demo_start fac = start_workflow pool_submit pool_cancel pool_alloc demo_rng 10
     (set_stage_factory create_engine (Some fac)) demo0 ''story'' ''style'' 2"

definition demo_factory :: stage_factory where
  "demo_factory ty = Some (create_mock_stage ty)"

text \<open>A factory without a stage for the images, like the one of the application for video clips.\<close>

definition partial_factory :: stage_factory where
  "partial_factory ty = (if ty = ImageGen then None else Some (create_mock_stage ty))"

definition started_ok :: "engine \<times> 's \<times> engine_call list \<times> (task_error + string) \<Rightarrow> bool" where
  "started_ok res = (case snd (snd (snd res)) of Inl e \<Rightarrow> False | Inr t \<Rightarrow> True)"

lemma started_ok_Inr: "started_ok res \<Longrightarrow> \<exists>t. snd (snd (snd res)) = Inr t"
  by (auto simp: started_ok_def split: sum.splits)

lemma started_ok_Inl: "\<not> started_ok res \<Longrightarrow> \<exists>e. snd (snd (snd res)) = Inl e"
  by (auto simp: started_ok_def split: sum.splits)

lemma demo_wf_index: "wf_index demo0"
  using pool_reach_inv [OF demo_sane demo_reach0]
  by (simp add: sys_inv_def pool_inv_def pool_core_def)

section \<open>Starting on the thread-pool scheduler\<close>

text \<open>C14: A start is all or nothing on the thread-pool scheduler. A successful start adds one
  workflow with the storyboard, one image task per scene and the composition, all of them new in
  the scheduler, and touches no other task. A failed start registers nothing, and whatever it
  submitted has been canceled.\<close>

theorem start_workflow_pool:
  assumes "wf_index s"
    and "start_workflow pool_submit pool_cancel pool_alloc dis now eng s story style n = (eng', s', calls, r)"
  shows "(\<forall>trace. r = Inr trace \<longrightarrow> 0 < n \<and>
      (\<exists>ws w. active_workflows eng' = ws @ [w] \<and> map wf_tasks ws = map wf_tasks (active_workflows eng) \<and>
         wf_trace w = trace \<and> length (wf_tasks w) = nat n + 2 \<and> distinct (wf_tasks w) \<and>
         (\<forall>i \<in> set (wf_tasks w). pool_state_of s i = None \<and> pool_state_of s' i \<noteq> None) \<and>
         (\<forall>j. j \<notin> set (wf_tasks w) \<longrightarrow> pool_state_of s' j = pool_state_of s j))) \<and>
    (\<forall>e. r = Inl e \<longrightarrow> map wf_tasks (active_workflows eng') = map wf_tasks (active_workflows eng) \<and>
      (\<forall>j st. pool_state_of s j = None \<and> pool_state_of s' j = Some st \<longrightarrow> is_terminal st))"
  using pool_host.start_workflow_facts [OF assms]
  unfolding pool_host.fresh_since_def pool_host.rolled_back_def by (auto simp del: map_map)

theorem start_workflow_pool_witness:
  "(\<exists>ws w. active_workflows (fst (demo_start demo_factory)) = ws @ [w] \<and> length (wf_tasks w) = 4) \<and>
   map wf_tasks (active_workflows (fst (demo_start partial_factory))) = []"
proof
  obtain eng' s' calls r where st: "demo_start demo_factory = (eng', s', calls, r)" by (metis prod_cases4)
  note facts = start_workflow_pool [OF demo_wf_index st [unfolded demo_start_def]]
  have "started_ok (demo_start demo_factory)" by code_simp
  with st have "\<exists>t. r = Inr t" using started_ok_Inr by fastforce
  with facts st show "\<exists>ws w. active_workflows (fst (demo_start demo_factory)) = ws @ [w] \<and>
      length (wf_tasks w) = 4" by auto
next
  obtain eng' s' calls r where st: "demo_start partial_factory = (eng', s', calls, r)" by (metis prod_cases4)
  note facts = start_workflow_pool [OF demo_wf_index st [unfolded demo_start_def]]
  have "\<not> started_ok (demo_start partial_factory)" by code_simp
  with st have "\<exists>e. r = Inl e" using started_ok_Inl by fastforce
  with facts st show "map wf_tasks (active_workflows (fst (demo_start partial_factory))) = []"
    by (auto simp: set_stage_factory_def create_engine_def)
qed

text \<open>The same on the single-threaded scheduler.\<close>

theorem start_workflow_simple:
  assumes "distinct (map eid (entries s))"
    and "start_workflow simple_submit simple_cancel simple_alloc dis now eng s story style n = (eng', s', calls, r)"
  shows "(\<forall>trace. r = Inr trace \<longrightarrow> 0 < n \<and>
      (\<exists>ws w. active_workflows eng' = ws @ [w] \<and> map wf_tasks ws = map wf_tasks (active_workflows eng) \<and>
         wf_trace w = trace \<and> length (wf_tasks w) = nat n + 2 \<and> distinct (wf_tasks w) \<and>
         (\<forall>i \<in> set (wf_tasks w). simple_state_of s i = None \<and> simple_state_of s' i \<noteq> None) \<and>
         (\<forall>j. j \<notin> set (wf_tasks w) \<longrightarrow> simple_state_of s' j = simple_state_of s j))) \<and>
    (\<forall>e. r = Inl e \<longrightarrow> map wf_tasks (active_workflows eng') = map wf_tasks (active_workflows eng) \<and>
      (\<forall>j st. simple_state_of s j = None \<and> simple_state_of s' j = Some st \<longrightarrow> is_terminal st))"
  using simple_host.start_workflow_facts [OF assms [folded simple_inv_def]]
  unfolding simple_host.fresh_since_def simple_host.rolled_back_def by (auto simp del: map_map)

theorem start_workflow_simple_witness:
  "\<exists>ws w. active_workflows (fst (start_workflow simple_submit simple_cancel simple_alloc demo_rng 10
     create_engine (create_simple_scheduler empty_heap) ''story'' ''style'' 1)) = ws @ [w] \<and>
     length (wf_tasks w) = 3"
proof -
  let ?run = "start_workflow simple_submit simple_cancel simple_alloc demo_rng 10
     create_engine (create_simple_scheduler empty_heap) ''story'' ''style'' 1"
  obtain eng' s' calls r where st: "?run = (eng', s', calls, r)" by (metis prod_cases4)
  have "distinct (map eid (entries (create_simple_scheduler empty_heap)))"
    by (simp add: create_simple_scheduler_def)
  note facts = start_workflow_simple [OF this st]
  have "started_ok ?run" by code_simp
  with st have "\<exists>t. r = Inr t" using started_ok_Inr by fastforce
  with facts st show ?thesis by auto
qed

section \<open>Canceling\<close>

text \<open>C16: Canceling a workflow succeeds exactly if it is registered, and then every one of its tasks
  has ended in the scheduler, whichever scheduler it is.\<close>

theorem cancel_workflow_ends:
  assumes "wf_index p" and "cancel_workflow pool_cancel now eng p trace = (eng1, p', calls1, r1)"
    and "simple_inv q" and "cancel_workflow simple_cancel now eng q trace = (eng2, q', calls2, r2)"
  shows "(r1 = Ok \<longleftrightarrow> trace \<in> wf_trace ` set (active_workflows eng)) \<and>
    (r1 = Ok \<longrightarrow> (\<exists>w \<in> set (active_workflows eng). wf_trace w = trace \<and>
       (\<forall>i \<in> set (wf_tasks w). \<forall>st. pool_state_of p' i = Some st \<longrightarrow> is_terminal st))) \<and>
    (r2 = Ok \<longleftrightarrow> trace \<in> wf_trace ` set (active_workflows eng)) \<and>
    (r2 = Ok \<longrightarrow> (\<exists>w \<in> set (active_workflows eng). wf_trace w = trace \<and>
       (\<forall>i \<in> set (wf_tasks w). \<forall>st. simple_state_of q' i = Some st \<longrightarrow> is_terminal st)))"
proof -
  have "trace \<in> wf_trace ` set (active_workflows eng) \<longleftrightarrow>
      (\<exists>w \<in> set (active_workflows eng). wf_trace w = trace)" by auto
  with pool_host.cancel_workflow_facts(2,3) [OF assms(1,2)]
    simple_host.cancel_workflow_facts(2,3) [OF assms(3,4)]
  show ?thesis by blast
qed

definition one_workflow :: engine where
  "one_workflow = create_engine\<lparr>active_workflows := [\<lparr>wf_trace = ''w'', wf_tasks = [''a'', ''b''],
     wf_completed = 0, wf_total = 2, wf_failed = False, wf_output = []\<rparr>], completion_cb := Some 7\<rparr>"

theorem cancel_workflow_ends_witness:
  "snd (snd (snd (cancel_workflow pool_cancel 60 one_workflow demo3 ''w''))) = Ok"
proof -
  have w: "wf_index demo3"
    using pool_reach_inv [OF demo_sane demo_reach3] by (simp add: sys_inv_def pool_inv_def pool_core_def)
  have q: "simple_inv (create_simple_scheduler empty_heap)"
    by (simp add: simple_inv_def create_simple_scheduler_def)
  obtain e1 p c1 r1 where c: "cancel_workflow pool_cancel 60 one_workflow demo3 ''w'' = (e1, p, c1, r1)"
    by (metis prod_cases4)
  obtain e2 q2 c2 r2 where d: "cancel_workflow simple_cancel 60 one_workflow
      (create_simple_scheduler empty_heap) ''w'' = (e2, q2, c2, r2)" by (metis prod_cases4)
  have "''w'' \<in> wf_trace ` set (active_workflows one_workflow)" by (simp add: one_workflow_def)
  with cancel_workflow_ends [OF w c q d] c show ?thesis by simp
qed

section \<open>Completion\<close>

text \<open>A workflow whose count has reached the total calls the callback at each of its events that is not
  a success, and stays there.\<close>

lemma deliver_completed:
  assumes "sole_owner eng w" "wf_completed w = wf_total w" "successes (wf_tasks w) evs = 0"
    and "completion_cb eng = Some k"
  shows "completions (wf_trace w) (snd (deliver eng evs)) = length (filter (\<lambda>ev. ev_task ev \<in> set (wf_tasks w)) evs)"
  using assms
proof (induction evs arbitrary: eng w)
  case Nil
  then show ?case by (simp add: completions_def)
next
  case (Cons ev evs)
  obtain eng1 c1 where h: "handle_state_change eng ev = (eng1, c1)" by fastforce
  obtain eng2 c2 where d: "deliver eng1 evs = (eng2, c2)" by fastforce
  from sole_owner_step [OF Cons.prems(1) h] obtain w1 where
    o1: "sole_owner eng1 w1" "completion_cb eng1 = Some k"
    and f1: "wf_tasks w1 = wf_tasks w" "wf_trace w1 = wf_trace w" "wf_total w1 = wf_total w"
    and ev: "if ev_task ev \<in> set (wf_tasks w)
      then workflow_event (completion_cb eng) (progress_cb eng) w ev = (w1, c1)
      else w1 = w \<and> completions (wf_trace w) c1 = 0" using Cons.prems(4) by auto
  have sc: "ev_task ev \<in> set (wf_tasks w) \<Longrightarrow> ev_state ev \<noteq> Succeeded" "successes (wf_tasks w) evs = 0"
    using Cons.prems(3) by (auto simp: successes_def split: if_splits)
  have "wf_completed w1 = wf_total w \<and>
      completions (wf_trace w) c1 = (if ev_task ev \<in> set (wf_tasks w) then 1 else 0)"
    using ev sc(1) Cons.prems(2,4) by (auto simp: workflow_event_def completions_def Let_def split: if_splits option.splits)
  with Cons.IH [OF o1(1) _ _ o1(2)] sc(2) f1 h d show ?case by simp
qed

lemma deliver_reached:
  assumes "sole_owner eng w" "0 \<le> wf_completed w" "wf_total w \<le> INT_MAX"
    and "wf_completed w + int (successes (wf_tasks w) evs) + 1 = wf_total w"
    and ev: "ev_task ev \<in> set (wf_tasks w)" "ev_state ev = Succeeded"
    and d: "deliver eng (evs @ [ev]) = (eng', calls)"
  shows "\<exists>w'. sole_owner eng' w' \<and> completion_cb eng' = completion_cb eng \<and> wf_tasks w' = wf_tasks w \<and>
    wf_trace w' = wf_trace w \<and> wf_completed w' = wf_total w'"
proof -
  obtain eng1 c1 where d1: "deliver eng evs = (eng1, c1)" by fastforce
  obtain eng2 c2 where h: "handle_state_change eng1 ev = (eng2, c2)" by fastforce
  have e: "eng' = eng2" using d d1 h by (simp add: deliver_append)
  from deliver_incomplete [OF assms(1-3) _ d1] assms(4) obtain w1 where
    o1: "sole_owner eng1 w1" "completion_cb eng1 = completion_cb eng"
    and f1: "wf_tasks w1 = wf_tasks w" "wf_trace w1 = wf_trace w" "wf_total w1 = wf_total w"
      "wf_completed w1 + 1 = wf_total w" by auto
  from sole_owner_step [OF o1(1) h] ev(1) f1(1) obtain w2 where
    w2: "sole_owner eng2 w2" "completion_cb eng2 = completion_cb eng1" "wf_tasks w2 = wf_tasks w1"
      "wf_trace w2 = wf_trace w1" "wf_total w2 = wf_total w1"
      "workflow_event (completion_cb eng1) (progress_cb eng1) w1 ev = (w2, c2)" by auto
  have "i32 (wf_completed w1 + 1) = wf_total w"
    using f1(4) assms(2-4) by (simp add: i32_id INT_MAX_def)
  with workflow_event_fields(4) [OF w2(6)] ev(2) have "wf_completed w2 = wf_total w" by simp
  with w2 o1 f1 e show ?thesis by auto
qed

text \<open>C15: When the completion callback is called. Of a workflow whose tasks and trace are its own: while fewer
  of its tasks than it has were reported successful, the callback is not called for it; the success
  that makes up the number calls it once, with the output path; and after that every further event of
  one of its tasks calls it once more, for the code looks at the count alone.\<close>

theorem workflow_completion_calls:
  assumes "active_workflows eng = us @ w # vs"
    and "\<forall>u \<in> set us. set (wf_tasks u) \<inter> set (wf_tasks w) = {}"
    and "\<forall>u \<in> set (us @ vs). wf_trace u \<noteq> wf_trace w"
    and "0 \<le> wf_completed w" and "wf_total w \<le> INT_MAX"
    and "wf_completed w + int (successes (wf_tasks w) evs) + 1 = wf_total w"
    and "ev_task ev \<in> set (wf_tasks w)" and "ev_state ev = Succeeded"
    and "successes (wf_tasks w) late = 0"
    and "completion_cb eng = Some k"
  shows "completions (wf_trace w) (snd (deliver eng evs)) = 0 \<and>
    completions (wf_trace w) (snd (deliver eng (evs @ [ev]))) = 1 \<and>
    Completion_call k (wf_trace w) True mock_output_path \<in> set (snd (deliver eng (evs @ [ev]))) \<and>
    completions (wf_trace w) (snd (deliver eng (evs @ [ev] @ late))) =
      1 + length (filter (\<lambda>l. ev_task l \<in> set (wf_tasks w)) late)"
proof -
  have o: "sole_owner eng w" using assms(1-3) by (auto simp: sole_owner_def)
  have lt: "wf_completed w + int (successes (wf_tasks w) evs) < wf_total w" using assms(6) by simp
  obtain eng1 c1 where d: "deliver eng (evs @ [ev]) = (eng1, c1)" by fastforce
  note one = deliver_complete [OF o assms(4-8,10) d]
  from deliver_reached [OF o assms(4-8) d] obtain w1 where w1: "sole_owner eng1 w1" "completion_cb eng1 = Some k"
    "wf_tasks w1 = wf_tasks w" "wf_trace w1 = wf_trace w" "wf_completed w1 = wf_total w1" using assms(10) by auto
  have "completions (wf_trace w) (snd (deliver eng1 late)) = length (filter (\<lambda>l. ev_task l \<in> set (wf_tasks w)) late)"
    using deliver_completed [OF w1(1,5) _ w1(2), of late] assms(9) w1(3,4) by simp
  moreover have "snd (deliver eng (evs @ [ev] @ late)) = c1 @ snd (deliver eng1 late)"
    using deliver_append [of eng "evs @ [ev]" late] d by (simp split: prod.splits)
  ultimately show ?thesis
    using deliver_incomplete [OF o assms(4,5) lt prod.collapse [symmetric]] one d by simp
qed

theorem workflow_completion_calls_witness:
  "completions ''w'' (snd (deliver one_workflow ([StateEvent ''a'' Succeeded flt_one,
     StateEvent ''x'' Succeeded flt_one] @ [StateEvent ''b'' Succeeded flt_one] @
     [StateEvent ''b'' Running flt_one, StateEvent ''x'' Ready flt_zero]))) = 2"
proof -
  let ?w = "\<lparr>wf_trace = ''w'', wf_tasks = [''a'', ''b''], wf_completed = 0, wf_total = 2,
    wf_failed = False, wf_output = []\<rparr>"
  have "active_workflows one_workflow = [] @ ?w # []" by (simp add: one_workflow_def)
  from workflow_completion_calls [OF this, of
      "[StateEvent ''a'' Succeeded flt_one, StateEvent ''x'' Succeeded flt_one]"
      "StateEvent ''b'' Succeeded flt_one" "[StateEvent ''b'' Running flt_one, StateEvent ''x'' Ready flt_zero]" 7]
  show ?thesis by (simp add: successes_def INT_MAX_def one_workflow_def)
qed

text \<open>The engine never reports failure, and it reports success a second time when the last
  success is followed by any further event of a task of the workflow: the check looks at the
  count alone.\<close>

theorem workflow_failure_silent:
  "completions ''w'' (snd (deliver one_workflow [StateEvent ''a'' Failed flt_zero,
     StateEvent ''b'' Canceled flt_zero])) = 0 \<and>
   completions ''w'' (snd (deliver one_workflow [StateEvent ''a'' Succeeded flt_one,
     StateEvent ''b'' Succeeded flt_one, StateEvent ''b'' Running flt_one])) = 2"
  by code_simp

end
