(* ===== verification/App_Pool.thy ===== *)
theory App_Pool
  imports App_Liveness Pool_Types Pool_Crew Workflow_Properties
begin

text \<open>
  From the click to the result on the thread-pool scheduler, the one the application uses unless
  told otherwise: the workflow engine submits its tasks, the workers run them in some order, the
  events reach the engine, and the window finds out.
\<close>

section \<open>The thread-pool scheduler as the host of the window\<close>

definition pool_ops :: "pool host_ops" where
  "pool_ops = \<lparr>op_submit = pool_submit, op_cancel = pool_cancel, op_alloc = pool_alloc,
     op_tick = pool_tick, op_pending = pool_has_pending\<rparr>"

text \<open>Nothing has failed or was canceled; a crew whose stages succeed keeps it so.\<close>

definition healthy :: "pool \<Rightarrow> bool" where
  "healthy s \<longleftrightarrow> (\<forall>i n. nodes s i = Some n \<longrightarrow> nstate n \<noteq> Failed \<and> nstate n \<noteq> Canceled)"

lemma healthy_every: "healthy s = every_node (\<lambda>n. nstate n \<noteq> Failed \<and> nstate n \<noteq> Canceled) s"
  by (simp only: healthy_def every_node_def)

definition succeeding :: behaviour where
  "succeeding st ctx out \<longleftrightarrow> snd (snd out) = Ok"

interpretation healthy_crew: crew_property succeeding
  "\<lambda>n. nstate n \<noteq> Failed \<and> nstate n \<noteq> Canceled" "\<lambda>d. True"
  by unfold_locales
     (auto simp: succeeding_def started_node_def finished_node_def woken_node_def finish_target_def)

definition only_ready :: "state_event list \<Rightarrow> bool" where
  "only_ready evs \<longleftrightarrow> list_all (\<lambda>ev. ev_state ev = Ready) evs"

lemma only_ready_append [simp]:
  "only_ready []" "only_ready (xs @ ys) \<longleftrightarrow> only_ready xs \<and> only_ready ys"
  by (simp_all add: only_ready_def)

lemma only_ready_facts: "only_ready evs \<Longrightarrow> pause_free evs \<and> end_events i evs = 0"
  by (auto simp: only_ready_def pause_free_def list_all_iff end_events_def filter_empty_conv)

text \<open>What the engine adds to the pool: tasks that have not succeeded, of which only the first, with the
  stage for the storyboard, has no dependencies.\<close>

definition engine_node :: "stage_factory \<Rightarrow> node \<Rightarrow> bool" where
  "engine_node fac n \<longleftrightarrow> nstate n \<noteq> Succeeded \<and> \<not> pause_requested n \<and> (deps (ntask n) = [] \<longrightarrow> fac Storyboard = Some (nstage n))"

definition grew :: "stage_factory \<Rightarrow> pool \<Rightarrow> pool \<Rightarrow> bool" where
  "grew fac s s' \<longleftrightarrow> (\<forall>i n. nodes s' i = Some n \<longrightarrow> nodes s i = Some n \<or> engine_node fac n)"

lemma grew_trans: "grew fac s1 s2 \<Longrightarrow> grew fac s2 s3 \<Longrightarrow> grew fac s1 s3"
  unfolding grew_def by blast

lemma link_deps_blocked:
  "link_deps s i ds u = (s', Link_blocked d v) \<Longrightarrow>
    \<exists>n. nodes s d = Some n \<and> (nstate n = Failed \<or> nstate n = Canceled)"
proof (induction s i ds u arbitrary: s' rule: link_deps.induct)
  case (1 s i unmet)
  then show ?case by simp
next
  case (2 s i e ds unmet)
  from 2(3) obtain en where e: "e \<noteq> i" "nodes s e = Some en" by (auto split: if_splits option.splits)
  let ?s1 = "s\<lparr>successors := add_edge e i (successors s)\<rparr>"
  show ?case
  proof (cases "nstate en = Succeeded")
    case True
    with 2(3) e have "link_deps ?s1 i ds unmet = (s', Link_blocked d v)" by simp
    from 2(1) [OF e refl True this] show ?thesis by simp
  next
    case False
    show ?thesis
    proof (cases "nstate en = Failed \<or> nstate en = Canceled")
      case True
      with 2(3) e have "e = d" by auto
      with e True show ?thesis by auto
    next
      case live: False
      with 2(3) e False have "link_deps ?s1 i ds (Suc unmet) = (s', Link_blocked d v)" by simp
      from 2(2) [OF e refl False live this] show ?thesis by simp
    qed
  qed
qed

lemma submit_healthy:
  assumes sub: "pool_submit now s t stg = (s', evs, r)" and h: "healthy s" and f: "fresh_task t"
  shows "healthy s'"
  using sub fresh_queued [OF f]
proof (cases rule: pool_submit_outcome)
  case (inserted sg hp g lr n)
  have "lr \<noteq> Link_blocked d v" for d v
  proof
    assume "lr = Link_blocked d v"
    from link_deps_blocked [OF inserted(5) [unfolded this]] h show False by (auto simp: healthy_def)
  qed
  with inserted(16) h show ?thesis by (auto simp: inserted(6) emplace_node_def healthy_def)
qed (use h in \<open>simp add: healthy_def\<close>)

lemma submit_accepted:
  assumes f: "fresh_task t" and sub: "pool_submit now s t stg = (s', evs, Inr u)" and h: "healthy s'"
    and base: "deps t = [] \<longrightarrow> stg = fac Storyboard"
  shows "node_order s' = node_order s @ [task_id t] \<and> only_ready evs \<and> grew fac s s'"
  using sub fresh_queued [OF f]
proof (cases rule: pool_submit_outcome)
  case (inserted sg hp g lr n)
  have "nodes s' (task_id t) = Some n" by (simp add: inserted(6,11) emplace_node_def)
  with h have "nstate n \<noteq> Canceled" by (auto simp: healthy_def)
  with inserted show ?thesis using base
    by (auto simp: emplace_node_def only_ready_def grew_def engine_node_def)
qed simp

text \<open>The three kinds of tasks of a workflow; their demand is the default one.\<close>

definition roomy :: "scheduler_config \<Rightarrow> bool" where
  "roomy c \<longleftrightarrow> 256 * worker_count c \<le> INT_MAX"

lemma engine_task_fresh: "engine_task t \<Longrightarrow> fresh_task t"
  by (auto simp: engine_task_def storyboard_task_def image_task_def compose_task_def fresh_task_def task_wf_def new_task_def)

lemma engine_task_sane: "engine_task t \<Longrightarrow> roomy c \<Longrightarrow> sane_demand c (demand t)"
  by (auto simp: engine_task_def roomy_def sane_demand_def storyboard_task_def image_task_def compose_task_def
      new_task_def default_demand_def INT_MAX_def)

text \<open>A task of the engine is one that clients may submit.\<close>

lemma engine_submits:
  assumes c: "sane_config c" "roomy (normalize_config hw c)" and r: "pool_reach hw c evs0 s ws"
    and t: "engine_task t" "set (deps t) \<subseteq> set (node_order s)" and tidy: "tidy s"
    and sub: "pool_submit now s t stg = (s', evs, res)"
  shows "pool_step s ws evs s' ws \<and> tidy s'"
proof (intro conjI step_submit [OF engine_task_fresh [OF t(1)] _ _ sub])
  show "sane_demand (config s) (demand t)"
    using engine_task_sane [OF t(1)] c(2) reach_frame [OF c(1) r] by simp
  show "unleaked s (task_id t)" by (rule tidy_unleaked [OF tidy])
  have "set (deps t) \<subseteq> dom (nodes s)" using t(2) reach_parts(8) [OF c(1) r] by (simp add: wf_index_def)
  from submit_tidy [OF sub fresh_queued [OF engine_task_fresh [OF t(1)]] this tidy] show "tidy s'" .
qed

text \<open>Nothing has failed, what was reported were tasks that became ready.\<close>

interpretation pool_chain: task_chain pool_submit pool_cancel pool_alloc fac node_order
  "\<lambda>evs s. sane_config c \<and> roomy (normalize_config hw c) \<and> pool_reach hw c evs s ws \<and> tidy s \<and> healthy s"
  "\<lambda>s evs s'. only_ready evs \<and> grew fac s s'" for fac hw c ws
proof (unfold_locales, goal_cases)
  case (1 evs0 s t stg now s' evs u)
  then have c: "sane_config c" "roomy (normalize_config hw c)" "pool_reach hw c evs0 s ws" and h: "healthy s" "tidy s" by simp_all
  note step = engine_submits [OF c 1(2,3) h(2) 1(5)] and f = engine_task_fresh [OF 1(2)]
  note h1 = submit_healthy [OF 1(5) h(1) f]
  from submit_accepted [where fac = fac, OF f 1(5) h1 1(4)] h1 c reach_next [OF c(3) conjunct1 [OF step]] step
  show ?case by simp
next
  case (2 evs0 s s' k)
  then obtain hp where s': "s' = s\<lparr>pool_heap := hp\<rparr>" by (auto simp: pool_alloc_def split: prod.splits)
  from reach_next [OF _ step_token [of s ws hp]] 2(1) have "pool_reach hw c (evs0 @ []) s' ws" unfolding s' by blast
  with 2(1) show ?case by (simp add: s' healthy_def grew_def tidy_def)
qed (auto simp: grew_def)

section \<open>The events of a pool that ran dry\<close>

lemma successes_sum:
  assumes "distinct ids"
  shows "length (filter (\<lambda>ev. ev_task ev \<in> set ids \<and> P ev) evs) =
    (\<Sum>i\<leftarrow>ids. length (filter (\<lambda>ev. ev_task ev = i \<and> P ev) evs))"
  using assms
proof (induction ids)
  case Nil
  then show ?case by simp
next
  case (Cons i ids)
  have "length (filter (\<lambda>ev. ev_task ev \<in> set (i # ids) \<and> P ev) evs) =
      length (filter (\<lambda>ev. ev_task ev = i \<and> P ev) evs) + length (filter (\<lambda>ev. ev_task ev \<in> set ids \<and> P ev) evs)"
    using Cons.prems by (induction evs) auto
  with Cons show ?case by simp
qed

lemma healthy_dry:
  assumes "healthy s" "pending_tasks s = 0" "wf_index s" "i \<in> set (node_order s)"
  shows "pool_state_of s i = Some Succeeded"
proof -
  from assms(3,4) obtain n where n: "nodes s i = Some n" by (auto simp: wf_index_def)
  from assms(2,4) have "\<not> live_in s i" by (auto simp: pending_tasks_def filter_empty_conv)
  with n assms(1) show ?thesis by (cases "nstate n") (auto simp: live_in_def pool_state_of_def healthy_def)
qed

lemma dry_events:
  assumes c: "sane_config c" and r: "pool_reach hw c (evs0 @ evs) s ws" and ready: "only_ready evs0"
    and pf: "pause_free evs" and h: "healthy s" and dry: "pending_tasks s = 0"
    and ids: "distinct ids" "set ids = set (node_order s)" "ids \<noteq> []"
  shows "successes ids evs = length ids \<and>
    (\<exists>xs ev. evs = xs @ [ev] \<and> ev_state ev = Succeeded \<and> ev_task ev \<in> set ids)"
proof -
  note idx = reach_parts(8) [OF c r]
  have succ: "\<exists>n. nodes s i = Some n \<and> nstate n = Succeeded" if "i \<in> set ids" for i
    using healthy_dry [OF h dry idx, of i] that ids(2) by (auto simp: pool_state_of_def)
  have acc: "accept (pool_deps s) all_queued (evs0 @ evs) = Some (pool_view s)"
    using pool_reach_simulates [OF c r agrees_pool_deps] .
  have ends: "end_events i evs = 1" if "i \<in> set ids" for i
    using pool_reach_reported [OF c r, of i] succ [OF that] only_ready_facts [OF ready, of i]
    by (auto simp: ended_def)
  have good: "is_terminal (ev_state ev) \<longleftrightarrow> ev_state ev = Succeeded" if "ev \<in> set evs" "ev_task ev \<in> set ids" for ev
  proof
    assume t: "is_terminal (ev_state ev)"
    from accept_reports_end [OF acc _ t] that(1) have "pool_view s (ev_task ev) = At (ev_state ev)" by simp
    with succ [OF that(2)] show "ev_state ev = Succeeded" by (auto simp: pool_view_def)
  qed simp
  have "successes ids evs = length (filter (\<lambda>ev. ev_task ev \<in> set ids \<and> is_terminal (ev_state ev)) evs)"
    unfolding successes_def using good by (intro arg_cong [where f = length] filter_cong) auto
  also have "\<dots> = (\<Sum>i\<leftarrow>ids. end_events i evs)"
    unfolding end_events_def by (rule successes_sum [OF ids(1)])
  also have "\<dots> = (\<Sum>i\<leftarrow>ids. 1)" using ends by (intro arg_cong [where f = sum_list] map_cong) auto
  also have "\<dots> = length ids" by (induction ids) auto
  finally have count: "successes ids evs = length ids" .
  with ids(3) have "evs \<noteq> []" by (auto simp: successes_def)
  then obtain xs ev where last: "evs = xs @ [ev]" by (cases evs rule: rev_cases) auto
  have st: "phase_state (pool_view s (ev_task ev)) = ev_state ev"
    using accept_last [of "pool_deps s" all_queued "evs0 @ xs" ev] acc last by simp
  have "\<forall>ev \<in> set (evs0 @ evs). ev_state ev \<noteq> Paused"
    using only_ready_facts [OF ready] pf by (auto simp: pause_free_def list_all_iff)
  from accept_unpaused [OF acc _ this] last have nq: "ev_state ev \<noteq> Queued" by (simp add: all_queued_def)
  have "nodes s (ev_task ev) \<noteq> None" using st nq by (auto simp: pool_view_def split: option.splits)
  then have known: "ev_task ev \<in> set ids" using ids(2) idx by (auto simp: wf_index_def)
  with succ [OF this] st have "ev_state ev = Succeeded" by (auto simp: pool_view_def)
  with count last known show ?thesis by blast
qed

text \<open>In a pool of ended tasks nothing happens any more.\<close>

definition all_ended :: "pool \<Rightarrow> bool" where
  "all_ended s \<longleftrightarrow> (\<forall>i n. nodes s i = Some n \<longrightarrow> is_terminal (nstate n))"

lemma ended_pool:
  assumes "pending_tasks s = 0" "wf_index s"
  shows "all_ended s"
  using assms by (fastforce simp: all_ended_def pending_tasks_def filter_empty_conv live_in_def pool_state_of_def
      wf_index_def)

lemma dry_tick:
  assumes "all_ended s"
  shows "pool_tick now s = (s, [])"
proof -
  have "\<not> pause_expired now s i" for i
    using assms by (auto simp: pause_expired_def all_ended_def split: option.splits) fastforce
  then show ?thesis by (simp add: pool_tick_def)
qed

text \<open>An accepted first generation: its workflow is the only one of the engine, and its tasks are the only
  ones of the pool.\<close>

lemma generation_taken:
  assumes c: "sane_config c" "roomy (normalize_config hw c)" and n: "n + 2 \<le> INT_MAX"
    and g: "start_generation pool_ops dis now story style n (create_app fac (create_pool hw c h)) = (a, sigs1)"
    and busy: "busy (app_ui a)" and ws: "ws = replicate (nat (worker_count (normalize_config hw c))) None"
  obtains w evs1 where
    "active_workflows (app_engine a) = [w]" "completion_cb (app_engine a) = Some 0" "wf_completed w = 0"
    "wf_total w = n + 2" "length (wf_tasks w) = nat (n + 2)" "0 < n" "app_posted a = []"
    "output_path (app_ui a) = []" "pool_reach hw c evs1 (app_sched a) ws" "healthy (app_sched a)"
    "only_ready evs1" "node_order (app_sched a) = wf_tasks w"
    "every_node (engine_node fac) (app_sched a)" "unpaused (app_sched a)"
    "wf_trace w = current_trace_id (app_ui a)" "current_trace_id (app_ui a) \<noteq> []"
proof -
  let ?s0 = "create_pool hw c h"
  let ?a0 = "create_app fac ?s0"
  have r0: "pool_reach hw c [] ?s0 ws" unfolding ws by (auto simp: pool_reach_def intro: run_here)
  have h0: "healthy ?s0" "tidy ?s0" by (simp_all add: healthy_def tidy_def create_pool_def succs_def)
  obtain eng s1 calls trace p2 where
    st0: "start_workflow (op_submit pool_ops) (op_cancel pool_ops) (op_alloc pool_ops) dis now (app_engine ?a0)
      (app_sched ?a0) story style n = (eng, s1, calls, Inr trace)"
    and a0: "a = \<lparr>app_ui = p2, app_engine = eng, app_sched = s1, app_posted = app_posted ?a0 @ map post_of calls\<rparr>"
    and p2: "output_path p2 = []" "current_trace_id p2 = trace"
    by (rule start_accepted [OF g created_app(1) busy])
  from st0 have st: "start_workflow pool_submit pool_cancel pool_alloc dis now (app_engine ?a0) ?s0 story style n =
      (eng, s1, calls, Inr trace)" by (simp add: pool_ops_def created_app(5))
  from pool_chain.start_taken [of c hw "[]" ?s0 ws, OF _ created_app(3,6) st] c r0 h0 obtain w evs1 where
    w: "active_workflows eng = [w]" "completion_cb eng = Some 0" "wf_completed w = 0" "wf_total w = i32 (n + 2)"
      "length (wf_tasks w) = nat (n + 2)" "0 < n" "calls = []" "wf_trace w = trace" "trace \<noteq> []"
    and took: "pool_reach hw c evs1 s1 ws" "healthy s1" "only_ready evs1" "grew fac ?s0 s1"
      "node_order s1 = node_order ?s0 @ wf_tasks w" by (auto simp: created_app(4))
  have tot: "i32 (n + 2) = n + 2" using w(6) n by (intro i32_id) (simp_all add: INT_MAX_def)
  have new: "every_node (engine_node fac) s1"
    using took(4) by (auto simp: every_node_def grew_def create_pool_def)
  then have u: "unpaused s1" by (auto simp: unpaused_def every_node_def engine_node_def)
  have ord: "node_order s1 = wf_tasks w" using took(5) by (simp add: create_pool_def)
  show thesis
    by (rule that [of w evs1]) (use w took tot new u ord a0 p2 in \<open>simp_all add: created_app(2)\<close>)
qed

text \<open>The crew brings it to the end.\<close>

lemma generation_ends:
  assumes c: "sane_config c" and r: "pool_reach hw c evs1 s1 (hands jobs)" and ready: "only_ready evs1"
    and u: "unpaused s1" and run: "crew_run runs s1 jobs m evs s' jobs'" and e: "\<not> pool_has_pending s'"
  shows "pending_tasks s' = 0 \<and> pool_reach hw c (evs1 @ evs) s' (hands jobs') \<and> node_order s' = node_order s1 \<and>
    pause_free evs \<and> wf_index s'"
proof -
  have "pause_free evs1" using only_ready_facts [OF ready] by simp
  from crew_run_pool [OF c r this u run] reach_parts(8) [OF c] e show ?thesis
    by (auto simp: has_pending_tasks)
qed

text \<open>When the events bring every success of the only workflow, the last of them at the end, the window
  shows it.\<close>

lemma success_shown:
  assumes w: "active_workflows (app_engine a) = [w]" "completion_cb (app_engine a) = Some 0" "wf_completed w = 0"
      "wf_total w = int (length (wf_tasks w))" "wf_total w \<le> INT_MAX" "app_posted a = []"
    and ev: "successes (wf_tasks w) (xs @ [ev]) = length (wf_tasks w)" "ev_state ev = Succeeded"
      "ev_task ev \<in> set (wf_tasks w)"
    and b: "b = deliver_to_app (xs @ [ev]) (a\<lparr>app_sched := s'\<rparr>)"
    and run: "app_run ops dis fm (replicate (length (app_posted b)) (later, Show_next)) b = (d, sigs, rest)"
  shows "\<not> busy (app_ui d) \<and> output_path (app_ui d) = mock_output_path \<and>
    Generation_completed True mock_output_path \<in> set sigs \<and> app_sched d = s'"
proof -
  have less: "wf_completed w + int (successes (wf_tasks w) xs) + 1 = wf_total w"
    using w(3,4) ev by (simp add: successes_def)
  obtain eng calls where dl: "deliver (app_engine a) (xs @ [ev]) = (eng, calls)" by fastforce
  from deliver_last_complete [where us = "[]", OF _ _ _ w(5) less ev(3,2) w(2) dl] w(1,3) obtain calls1 tr where
    calls: "calls = calls1 @ [Completion_call 0 tr True mock_output_path]" by auto
  have "app_posted b = map post_of calls1 @ [Post_completion True mock_output_path]" "app_sched b = s'"
    using b dl calls w(6) by (simp_all add: deliver_to_app_def)
  with run run_show_all [of ops dis fm b later] show_all_completion [where fm = fm and
      clock = "clock_text fm later" and qs = "map post_of calls1" and path = mock_output_path and p = "app_ui b"]
  show ?thesis by auto
qed

section \<open>Properties\<close>

text \<open>A generation completes on the default scheduler. If the first click on start is accepted by an
  application on the thread-pool scheduler and the stages succeed, then in every interleaving of the
  workers that leaves nothing pending every task has succeeded, whatever the priorities; when the
  events have been delivered and the window has run what was posted, the window is idle, shows the
  output and has reported success, and the next timer tick stops the timer.\<close>

theorem generation_completes_pool:
  assumes "sane_config c" and "roomy (normalize_config hw c)" and "n + 2 \<le> INT_MAX"
    and "start_generation pool_ops dis now story style n (create_app fac (create_pool hw c h)) = (a, sigs1)"
    and "busy (app_ui a)"
    and "crew_run succeeding (app_sched a) (replicate (nat (worker_count (normalize_config hw c))) None) m evs s' jobs"
    and "\<not> pool_has_pending s'"
    and "b = deliver_to_app evs (a\<lparr>app_sched := s'\<rparr>)"
    and "app_run pool_ops dis fm (replicate (length (app_posted b)) (later, Show_next)) b = (d, sigs2, rest)"
  shows "\<not> busy (app_ui d) \<and> output_path (app_ui d) = mock_output_path \<and>
    Generation_completed True mock_output_path \<in> set sigs2 \<and>
    m \<le> 2 * nat (n + 2) \<and> length (node_order s') = nat (n + 2) \<and>
    (\<forall>i \<in> set (node_order s'). pool_state_of s' i = Some Succeeded) \<and>
    \<not> timer_active (app_ui (on_tick pool_ops later d))"
proof -
  let ?crew = "replicate (nat (worker_count (normalize_config hw c))) (None :: dispatch option)"
  obtain w evs1 where
    w: "active_workflows (app_engine a) = [w]" "completion_cb (app_engine a) = Some 0" "wf_completed w = 0"
      "wf_total w = n + 2" "length (wf_tasks w) = nat (n + 2)" "0 < n" "app_posted a = []"
    and took: "pool_reach hw c evs1 (app_sched a) (hands ?crew)" "healthy (app_sched a)" "only_ready evs1"
      "node_order (app_sched a) = wf_tasks w" "unpaused (app_sched a)"
    by (rule generation_taken [OF assms(1-5) hands_simps(4)])
  have dry: "pending_tasks s' = 0" "pool_reach hw c (evs1 @ evs) s' (hands jobs)" "node_order s' = wf_tasks w"
    "pause_free evs" "wf_index s'"
    using generation_ends [OF assms(1) took(1,3,5) assms(6,7)] took(4) by simp_all
  note idx = dry(5)
  have calm: "pause_free evs1" using only_ready_facts [OF took(3)] by simp
  have hs: "healthy s'"
    unfolding healthy_every
    by (rule healthy_crew.keeps_run [OF assms(1) took(1) calm took(5) took(2) [unfolded healthy_every] _ assms(6),
          THEN conjunct1]) blast
  have "m \<le> 2 * length (node_order (app_sched a))"
    using crew_run_work [OF assms(1) took(1) calm took(5) assms(6)] crew_work_bound [of "app_sched a"] by simp
  then have m: "m \<le> 2 * nat (n + 2)" using took(4) w(5) by simp
  have ids: "distinct (wf_tasks w)" "set (wf_tasks w) = set (node_order s')" "wf_tasks w \<noteq> []"
    using idx dry(3) w(5,6) by (auto simp: wf_index_def)
  from dry_events [OF assms(1) dry(2) took(3) dry(4) hs dry(1) ids] obtain xs ev where
    ev: "successes (wf_tasks w) evs = length (wf_tasks w)" "evs = xs @ [ev]" "ev_state ev = Succeeded"
      "ev_task ev \<in> set (wf_tasks w)" by blast
  have "wf_total w = int (length (wf_tasks w))" "wf_total w \<le> INT_MAX" using w(4-6) assms(3) by simp_all
  from success_shown [OF w(1-3) this w(7) ev(1) [unfolded ev(2)] ev(3,4) assms(8) [unfolded ev(2)] assms(9)]
  have d: "\<not> busy (app_ui d) \<and> output_path (app_ui d) = mock_output_path \<and>
    Generation_completed True mock_output_path \<in> set sigs2" "app_sched d = s'" by simp_all
  have "\<not> pool_has_pending s'" using dry(1) by (simp add: has_pending_tasks)
  then have "\<not> timer_active (app_ui (on_tick pool_ops later d))"
    by (simp add: d(2) on_tick_def pool_ops_def dry_tick [OF ended_pool [OF dry(1) idx]] deliver_to_app_def)
  with d(1) healthy_dry [OF hs dry(1) idx] dry(3) w(5) m show ?thesis by simp
qed

definition demo_pool_click :: "pool app \<times> ui_signal list" where
  "demo_pool_click = start_generation pool_ops demo_rng 5 ''once'' ''ink'' 1
     (create_app demo_factory (create_pool 4 demo_config empty_heap))"

definition obliging :: executor where
  "obliging st ctx = (ctx, [flt_one], Ok)"

definition demo_work :: "pool \<times> state_event list" where
  "demo_work = worker_alone obliging [(10, 20), (30, 40), (50, 60)] (app_sched (fst demo_pool_click))"

theorem generation_completes_pool_witness:
  "\<exists>b d sigs rest. deliver_to_app (snd demo_work) ((fst demo_pool_click)\<lparr>app_sched := fst demo_work\<rparr>) = b \<and>
    app_run pool_ops demo_rng plain_format (replicate (length (app_posted b)) (90, Show_next)) b = (d, sigs, rest) \<and>
    \<not> busy (app_ui d) \<and> output_path (app_ui d) = mock_output_path"
proof -
  let ?crew = "replicate (nat (worker_count (normalize_config 4 demo_config))) (None :: dispatch option)"
  obtain a sigs1 where a: "demo_pool_click = (a, sigs1)" by fastforce
  have "busy (app_ui (fst demo_pool_click))" by code_simp
  then have busy: "busy (app_ui a)" unfolding a fst_conv .
  have roomy: "roomy (normalize_config 4 demo_config)" by code_simp
  obtain s' evs where w: "demo_work = (s', evs)" by fastforce
  then have al: "worker_alone obliging [(10, 20), (30, 40), (50, 60)] (app_sched a) = (s', evs)"
    unfolding demo_work_def a fst_conv .
  have "\<not> pool_has_pending (fst demo_work)" by code_simp
  then have e: "\<not> pool_has_pending s'" unfolding w fst_conv .
  have n: "(1 :: int) + 2 \<le> INT_MAX" by (simp add: INT_MAX_def)
  obtain evs1 where r: "pool_reach 4 demo_config evs1 (app_sched a) (hands ?crew)" "only_ready evs1"
    "unpaused (app_sched a)"
    by (rule generation_taken [OF demo_sane roomy n a [unfolded demo_pool_click_def] busy hands_simps(4)])
  have c: "0 < length ?crew" "?crew ! 0 = None" by code_simp+
  have ok: "succeeding st ctx (obliging st ctx)" for st ctx by (simp add: succeeding_def obliging_def)
  have "pause_free evs1" using only_ready_facts [OF r(2)] by simp
  from crew_alone [where runs = succeeding and exec = obliging, OF demo_sane r(1) this r(3) c ok al] obtain m where
    run: "crew_run succeeding (app_sched a) ?crew m evs s' ?crew" by blast
  let ?b = "deliver_to_app evs (a\<lparr>app_sched := s'\<rparr>)"
  obtain d sigs rest where act: "app_run pool_ops demo_rng plain_format
      (replicate (length (app_posted ?b)) (90, Show_next)) ?b = (d, sigs, rest)" by (metis prod_cases3)
  note out = generation_completes_pool [OF demo_sane roomy n a [unfolded demo_pool_click_def] busy run e refl act]
  show ?thesis unfolding a fst_conv w snd_conv using act conjunct1 [OF out] conjunct1 [OF conjunct2 [OF out]] by blast
qed

end
