(* ===== verification/Stages.thy ===== *)
theory Stages
  imports Float_Text Http_Client
begin

text \<open>
  \<open>infra/src/stages.cpp\<close> and \<open>stage_factory.h\<close>: the stages that call the server, the text they send
  and what they read in the answer. The HTTP client is an argument, with a state of its own. A
  stage ends by returning or by an exception: \<open>stoi\<close> and \<open>stof\<close> throw, and so does a call of
  \<open>on_progress\<close> when it is empty. The pointer to the client is assumed not to be null.
\<close>

section \<open>Fields of a JSON text\<close>

abbreviation dquote :: char where "dquote \<equiv> CHR 0x22"

definition jkey :: "string \<Rightarrow> string" where
  "jkey k = dquote # k @ [dquote, CHR '':'']"

definition jstr :: "string \<Rightarrow> string \<Rightarrow> string" where
  "jstr k v = jkey k @ dquote # v @ [dquote]"

definition jraw :: "string \<Rightarrow> string \<Rightarrow> string" where
  "jraw k v = jkey k @ v"

text \<open>
  The patterns are \<open>"key"\s*:\s*\<close> followed by the value: the match is the leftmost one, and every
  repetition in them stops at the first character outside its class, so no match needs
  backtracking. The keys the code uses have no character with a meaning in a pattern.
\<close>

definition is_space :: "char \<Rightarrow> bool" where
  "is_space c \<longleftrightarrow> c = CHR '' '' \<or> (9 \<le> (of_char c :: nat) \<and> (of_char c :: nat) \<le> 13)"

definition strip_prefix :: "string \<Rightarrow> string \<Rightarrow> string option" where
  "strip_prefix p s = (if take (length p) s = p then Some (drop (length p) s) else None)"

definition match_colon :: "string \<Rightarrow> string \<Rightarrow> string option" where
  "match_colon key s =
     (case strip_prefix (dquote # key @ [dquote]) s of
        None \<Rightarrow> None
      | Some r \<Rightarrow> (case dropWhile is_space r of
                    [] \<Rightarrow> None
                  | c # r2 \<Rightarrow> if c = CHR '':'' then Some (dropWhile is_space r2) else None))"

definition match_string :: "string \<Rightarrow> string \<Rightarrow> string option" where
  "match_string key s =
     (case match_colon key s of
        Some (c # r) \<Rightarrow>
          if c = dquote \<and> dquote \<in> set r then Some (takeWhile (\<lambda>x. x \<noteq> dquote) r) else None
      | _ \<Rightarrow> None)"

definition match_class :: "(char \<Rightarrow> bool) \<Rightarrow> string \<Rightarrow> string \<Rightarrow> string option" where
  "match_class P key s =
     (case match_colon key s of
        Some (c # r) \<Rightarrow> if P c then Some (takeWhile P (c # r)) else None
      | _ \<Rightarrow> None)"

fun regex_search :: "(string \<Rightarrow> string option) \<Rightarrow> string \<Rightarrow> string option" where
  "regex_search m [] = m []"
| "regex_search m (c # s) = (case m (c # s) of Some v \<Rightarrow> Some v | None \<Rightarrow> regex_search m s)"

definition extract_json_string :: "string \<Rightarrow> string \<Rightarrow> string" where
  "extract_json_string json key =
     (case regex_search (match_string key) json of Some v \<Rightarrow> v | None \<Rightarrow> [])"

definition extract_json_int :: "string \<Rightarrow> string \<Rightarrow> parse_exception + int" where
  "extract_json_int json key =
     (case regex_search (match_class is_digit key) json of Some v \<Rightarrow> stoi v | None \<Rightarrow> Inr 0)"

definition extract_json_float :: "string \<Rightarrow> string \<Rightarrow> parse_exception + flt" where
  "extract_json_float json key =
     (case regex_search (match_class (\<lambda>c. is_digit c \<or> c = CHR ''.'') key) json of
        Some v \<Rightarrow> stof v | None \<Rightarrow> Inr flt_zero)"

section \<open>The stages\<close>

datatype stage_exception = Parse_failed parse_exception | Bad_function_call
datatype stage_end = Returned void_result | Threw stage_exception

type_synonym 'h http_exec = "'h \<Rightarrow> http_request \<Rightarrow> nat option \<Rightarrow> 'h \<times> http_result"

text \<open>The state of the client, the request counter, the context, the progress reports, the end.\<close>

type_synonym 'h stage_run = "'h \<times> nat \<times> stage_context \<times> flt list \<times> stage_end"

definition generate_request_id :: "int \<Rightarrow> nat \<Rightarrow> string \<times> nat" where
  "generate_request_id clock counter =
     (''req-'' @ to_string_int clock @ ''-'' @ to_string_int (int (Suc counter)), Suc counter)"

definition stage_error :: "int \<Rightarrow> string \<Rightarrow> string \<Rightarrow> task_error" where
  "stage_error n user_msg internal_msg = TaskError6 Cat_Pipeline n False user_msg internal_msg Map.empty"

definition stage_request :: "string \<Rightarrow> string \<Rightarrow> int \<Rightarrow> string \<Rightarrow> string \<Rightarrow> string \<Rightarrow> http_request" where
  "stage_request base path timeout trace rid body = \<lparr>req_method = POST, req_url = base @ path, req_id = rid,
     req_headers = [(''Content-Type'', ''application/json'')], req_body = body, req_trace = trace,
     req_timeout = timeout\<rparr>"

text \<open>What the four stages share: the first report, the call, the error cases.\<close>

definition call_server ::
  "'h http_exec \<Rightarrow> string \<Rightarrow> flt \<Rightarrow> http_request \<Rightarrow> stage_context \<Rightarrow> 'h \<Rightarrow>
   'h \<times> flt list \<times> (stage_end + http_response)" where
  "call_server exec name p req ctx h =
     (if \<not> ctx_on_progress ctx then (h, [], Inl (Threw Bad_function_call))
      else (case exec h req (ctx_cancel_token ctx) of
              (h1, Inl e) \<Rightarrow> (h1, [p], Inl (Returned (Inl e)))
            | (h1, Inr resp) \<Rightarrow>
                if status_code resp \<noteq> 200
                then (h1, [p], Inl (Returned (Inl (TaskError6 Cat_Network (status_code resp) True
                        ''Server error'' (name @ '': HTTP '' @ to_string_int (status_code resp)) Map.empty))))
                else (h1, [p], Inr resp)))"

definition storyboard_body :: "string \<Rightarrow> string \<Rightarrow> string \<Rightarrow> flt \<Rightarrow> int \<Rightarrow> string" where
  "storyboard_body trace rid story duration n =
     ''{'' @ jstr ''trace_id'' trace @ '','' @ jstr ''request_id'' rid @ '','' @ jstr ''story_text'' story @ '','' @
     jraw ''target_duration'' (show_flt duration) @ '','' @ jraw ''scene_count'' (to_string_int n) @ ''}''"

definition storyboard_execute ::
  "'h http_exec \<Rightarrow> string \<Rightarrow> int \<Rightarrow> nat \<Rightarrow> 'h \<Rightarrow> stage_context \<Rightarrow> 'h stage_run" where
  "storyboard_execute exec base clock counter h ctx =
     (let story = get_input_string ctx ''story_text'' [];
          duration = get_input_float ctx ''target_duration'' (Fin 30);
          n = get_input_int ctx ''scene_count'' 4
      in if story = []
         then (h, counter, ctx, [], Returned (Inl (stage_error 1 ''Missing story_text''
                 ''StoryboardStage: story_text is empty'')))
         else
           (case generate_request_id clock counter of
              (rid, counter1) \<Rightarrow>
                (case call_server exec ''StoryboardStage'' (f32_div 3 10)
                        (stage_request base ''/v1/storyboard'' 30000 (ctx_trace_id ctx) rid
                           (storyboard_body (ctx_trace_id ctx) rid story duration n)) ctx h of
                   (h1, ps, Inl fin) \<Rightarrow> (h1, counter1, ctx, ps, fin)
                 | (h1, ps, Inr resp) \<Rightarrow>
                     (case extract_json_float (resp_body resp) ''total_duration'' of
                        Inl ex \<Rightarrow> (h1, counter1, ctx, ps @ [f32_div 8 10], Threw (Parse_failed ex))
                      | Inr dur \<Rightarrow>
                          (h1, counter1,
                           set_output (set_output (set_output ctx ''storyboard_json'' (Any_string (resp_body resp)))
                              ''total_duration'' (Any_float dur)) ''scene_count'' (Any_int n),
                           ps @ [f32_div 8 10, flt_one], Returned Ok)))))"

definition imagegen_body :: "string \<Rightarrow> string \<Rightarrow> string \<Rightarrow> int \<Rightarrow> int \<Rightarrow> int \<Rightarrow> string" where
  "imagegen_body trace rid prompt width height steps =
     ''{'' @ jstr ''trace_id'' trace @ '','' @ jstr ''request_id'' rid @ '','' @ jstr ''prompt'' prompt @ '','' @
     jraw ''width'' (to_string_int width) @ '','' @ jraw ''height'' (to_string_int height) @ '','' @
     jraw ''num_inference_steps'' (to_string_int steps) @ ''}''"

definition imagegen_execute ::
  "'h http_exec \<Rightarrow> string \<Rightarrow> int \<Rightarrow> nat \<Rightarrow> 'h \<Rightarrow> stage_context \<Rightarrow> 'h stage_run" where
  "imagegen_execute exec base clock counter h ctx =
     (let prompt = get_input_string ctx ''prompt'' [];
          width = get_input_int ctx ''width'' 512;
          height = get_input_int ctx ''height'' 512;
          steps = get_input_int ctx ''num_inference_steps'' 20
      in if prompt = []
         then (h, counter, ctx, [], Returned (Inl (stage_error 1 ''Missing prompt''
                 ''ImageGenStage: prompt is empty'')))
         else
           (case generate_request_id clock counter of
              (rid, counter1) \<Rightarrow>
                (case call_server exec ''ImageGenStage'' (f32_div 2 10)
                        (stage_request base ''/v1/imagegen'' 120000 (ctx_trace_id ctx) rid
                           (imagegen_body (ctx_trace_id ctx) rid prompt width height steps)) ctx h of
                   (h1, ps, Inl fin) \<Rightarrow> (h1, counter1, ctx, ps, fin)
                 | (h1, ps, Inr resp) \<Rightarrow>
                     (let image_path = extract_json_string (resp_body resp) ''image_path''
                      in if image_path = []
                         then (h1, counter1, ctx, ps @ [f32_div 9 10],
                               Returned (Inl (stage_error 2 ''Invalid response''
                                 ''ImageGenStage: missing image_path in response'')))
                         else (h1, counter1, set_output ctx ''image_path'' (Any_string image_path),
                               ps @ [f32_div 9 10, flt_one], Returned Ok)))))"

text \<open>The two stages that read a path and a duration have the same end, up to the names.\<close>

definition finish_media ::
  "string \<Rightarrow> string \<Rightarrow> nat \<Rightarrow> 'h \<Rightarrow> flt list \<Rightarrow> http_response \<Rightarrow> stage_context \<Rightarrow> 'h stage_run" where
  "finish_media name key counter h ps resp ctx =
     (let path = extract_json_string (resp_body resp) key
      in case extract_json_float (resp_body resp) ''duration_seconds'' of
           Inl ex \<Rightarrow> (h, counter, ctx, ps @ [f32_div 9 10], Threw (Parse_failed ex))
         | Inr duration \<Rightarrow>
             if path = []
             then (h, counter, ctx, ps @ [f32_div 9 10],
                   Returned (Inl (stage_error 2 ''Invalid response''
                     (name @ '': missing '' @ key @ '' in response''))))
             else (h, counter,
                   set_output (set_output ctx key (Any_string path)) ''duration_seconds'' (Any_float duration),
                   ps @ [f32_div 9 10, flt_one], Returned Ok))"

definition tts_body :: "string \<Rightarrow> string \<Rightarrow> string \<Rightarrow> string \<Rightarrow> flt \<Rightarrow> string" where
  "tts_body trace rid txt voice speed =
     ''{'' @ jstr ''trace_id'' trace @ '','' @ jstr ''request_id'' rid @ '','' @ jstr ''text'' txt @ '','' @
     jstr ''voice'' voice @ '','' @ jraw ''speed'' (show_flt speed) @ ''}''"

definition tts_execute ::
  "'h http_exec \<Rightarrow> string \<Rightarrow> int \<Rightarrow> nat \<Rightarrow> 'h \<Rightarrow> stage_context \<Rightarrow> 'h stage_run" where
  "tts_execute exec base clock counter h ctx =
     (let txt = get_input_string ctx ''text'' [];
          voice = get_input_string ctx ''voice'' ''default'';
          speed = get_input_float ctx ''speed'' flt_one
      in if txt = []
         then (h, counter, ctx, [], Returned (Inl (stage_error 1 ''Missing text'' ''TtsStage: text is empty'')))
         else
           (case generate_request_id clock counter of
              (rid, counter1) \<Rightarrow>
                (case call_server exec ''TtsStage'' (f32_div 3 10)
                        (stage_request base ''/v1/tts'' 60000 (ctx_trace_id ctx) rid
                           (tts_body (ctx_trace_id ctx) rid txt voice speed)) ctx h of
                   (h1, ps, Inl fin) \<Rightarrow> (h1, counter1, ctx, ps, fin)
                 | (h1, ps, Inr resp) \<Rightarrow>
                     finish_media ''TtsStage'' ''audio_path'' counter1 h1 ps resp ctx)))"

definition compose_body :: "string \<Rightarrow> string \<Rightarrow> string \<Rightarrow> string \<Rightarrow> string" where
  "compose_body trace rid scenes output_path =
     ''{'' @ jstr ''trace_id'' trace @ '','' @ jstr ''request_id'' rid @ '','' @ jraw ''scenes'' scenes @ '','' @
     jstr ''output_path'' output_path @ '','' @ jraw ''fps'' ''24'' @ ''}''"

definition compose_execute ::
  "'h http_exec \<Rightarrow> string \<Rightarrow> int \<Rightarrow> nat \<Rightarrow> 'h \<Rightarrow> stage_context \<Rightarrow> 'h stage_run" where
  "compose_execute exec base clock counter h ctx =
     (let scenes = get_input_string ctx ''scenes_json'' [];
          output_path = get_input_string ctx ''output_path'' ''/tmp/output.mp4''
      in if scenes = []
         then (h, counter, ctx, [], Returned (Inl (stage_error 1 ''Missing scenes''
                 ''ComposeStage: scenes_json is empty'')))
         else
           (case generate_request_id clock counter of
              (rid, counter1) \<Rightarrow>
                (case call_server exec ''ComposeStage'' (f32_div 2 10)
                        (stage_request base ''/v1/compose'' 300000 (ctx_trace_id ctx) rid
                           (compose_body (ctx_trace_id ctx) rid scenes output_path)) ctx h of
                   (h1, ps, Inl fin) \<Rightarrow> (h1, counter1, ctx, ps, fin)
                 | (h1, ps, Inr resp) \<Rightarrow>
                     finish_media ''ComposeStage'' ''video_path'' counter1 h1 ps resp ctx)))"

fun http_stage_execute ::
  "'h http_exec \<Rightarrow> stage \<Rightarrow> (int \<Rightarrow> nat \<Rightarrow> 'h \<Rightarrow> stage_context \<Rightarrow> 'h stage_run) option" where
  "http_stage_execute exec (StoryboardStage base) = Some (storyboard_execute exec base)"
| "http_stage_execute exec (ImageGenStage base) = Some (imagegen_execute exec base)"
| "http_stage_execute exec (TtsStage base) = Some (tts_execute exec base)"
| "http_stage_execute exec (ComposeStage base) = Some (compose_execute exec base)"
| "http_stage_execute exec _ = None"

fun factory_create_stage :: "string \<Rightarrow> task_type \<Rightarrow> stage option" where
  "factory_create_stage base Storyboard = Some (StoryboardStage base)"
| "factory_create_stage base ImageGen = Some (ImageGenStage base)"
| "factory_create_stage base TTS = Some (TtsStage base)"
| "factory_create_stage base Compose = Some (ComposeStage base)"
| "factory_create_stage base VideoClip = None"

section \<open>Searching a text\<close>

lemma regex_search_skip:
  assumes "\<And>c s. m (c # s) \<noteq> None \<Longrightarrow> c = dquote" and "dquote \<notin> set pre"
  shows "regex_search m (pre @ s) = regex_search m s"
  using assms(2)
proof (induction pre)
  case (Cons c pre)
  then have "m (c # pre @ s) = None" using assms(1) [of c "pre @ s"] by fastforce
  with Cons show ?case by simp
qed simp

lemma match_colon_quote: "match_colon key (c # s) \<noteq> None \<Longrightarrow> c = dquote"
  by (auto simp: match_colon_def strip_prefix_def split: if_splits)

lemma match_string_quote: "match_string key (c # s) \<noteq> None \<Longrightarrow> c = dquote"
  using match_colon_quote [of key c s] by (fastforce simp: match_string_def split: option.splits)

lemma match_class_quote: "match_class P key (c # s) \<noteq> None \<Longrightarrow> c = dquote"
  using match_colon_quote [of key c s] by (fastforce simp: match_class_def split: option.splits)

lemma match_None [simp]:
  "c \<noteq> dquote \<Longrightarrow> match_string key (c # s) = None" "c \<noteq> dquote \<Longrightarrow> match_class P key (c # s) = None"
  using match_string_quote [of key c s] match_class_quote [of P key c s] by blast+

lemma take_key_eq:
  assumes "dquote \<notin> set k" "dquote \<notin> set key"
  shows "take (Suc (length key)) (k @ dquote # r) = key @ [dquote] \<longleftrightarrow> k = key"
  using assms
proof (induction k arbitrary: key)
  case Nil
  then show ?case by (cases key) auto
next
  case (Cons c k)
  then show ?case by (cases key) auto
qed

text \<open>A key as the code uses them: not empty, without quotes, and not starting like a separator.\<close>

definition plain_key :: "string \<Rightarrow> bool" where
  "plain_key key \<longleftrightarrow> key \<noteq> [] \<and> dquote \<notin> set key \<and> hd key \<noteq> CHR '':'' \<and> hd key \<noteq> CHR '','' \<and> hd key \<noteq> CHR ''}''"

lemma match_colon_key:
  assumes "dquote \<notin> set k" "plain_key key"
  shows "match_colon key (dquote # k @ dquote # r) =
    (if k = key then (case dropWhile is_space r of [] \<Rightarrow> None
       | c # r2 \<Rightarrow> if c = CHR '':'' then Some (dropWhile is_space r2) else None) else None)"
  using take_key_eq [OF assms(1), of key r] assms(2)
  by (auto simp: match_colon_def strip_prefix_def plain_key_def)

lemma match_colon_sep:
  assumes "plain_key key" "c \<in> {CHR '':'', CHR '','', CHR ''}''}"
  shows "match_colon key (dquote # c # r) = None"
  using assms by (cases key) (auto simp: match_colon_def strip_prefix_def plain_key_def)

lemma no_space_quote [simp]: "\<not> is_space dquote" "\<not> is_space (CHR '','')" "\<not> is_space (CHR '':'')"
  by (simp_all add: is_space_def)

text \<open>A string field with another key is passed over, one with the key is found.\<close>

lemma search_other_field:
  assumes m: "m = match_string key \<or> m = match_class P key"
    and "plain_key key" "k \<noteq> key" "dquote \<notin> set k" "dquote \<notin> set v"
  shows "regex_search m (jstr k v @ CHR '','' # rest) = regex_search m (CHR '','' # rest)"
proof -
  have none: "m s = None" if "match_colon key s = None" for s
    using m that by (auto simp: match_string_def match_class_def)
  have skip: "regex_search m (pre @ s) = regex_search m s" if "dquote \<notin> set pre" for pre s
    using m match_string_quote match_class_quote that by (intro regex_search_skip) blast+
  have 1: "m (dquote # k @ dquote # CHR '':'' # dquote # v @ dquote # CHR '','' # rest) = None"
    using assms by (intro none) (simp add: match_colon_key)
  have 2: "m (dquote # CHR '':'' # dquote # v @ dquote # CHR '','' # rest) = None"
    using assms by (intro none match_colon_sep) auto
  have 3: "m (dquote # v @ dquote # CHR '','' # rest) = None"
    using assms by (intro none) (simp add: match_colon_key)
  have 4: "m (dquote # CHR '','' # rest) = None"
    using assms by (intro none match_colon_sep) auto
  have 5: "m (CHR '':'' # s) = None" for s
    using m by auto
  show ?thesis
    using 1 2 3 4 5 assms(4,5) by (simp add: jstr_def jkey_def skip)
qed

lemma search_this_field:
  assumes "plain_key key"
  shows "regex_search (match_string key) (jstr key v @ rest) = Some (takeWhile (\<lambda>x. x \<noteq> dquote) v)"
proof -
  have k: "dquote \<notin> set key" using assms by (simp add: plain_key_def)
  have "match_colon key (dquote # key @ dquote # CHR '':'' # dquote # v @ dquote # rest) =
      Some (dquote # v @ dquote # rest)"
    using match_colon_key [OF k assms] by simp
  moreover have "takeWhile (\<lambda>x. x \<noteq> dquote) (v @ dquote # rest) = takeWhile (\<lambda>x. x \<noteq> dquote) v"
    by (induction v) auto
  ultimately show ?thesis by (simp add: jstr_def jkey_def match_string_def)
qed

section \<open>Properties\<close>

text \<open>What a stage reads of an answer. Of an object with string fields written without spaces, the value
  found for a key is that of its first field with the key, up to the first quote: the search knows no
  escapes, so an escaped quote ends the value.\<close>

theorem extract_first_field:
  assumes "plain_key key" and "list_all (\<lambda>(k, v). k \<noteq> key \<and> dquote \<notin> set k \<and> dquote \<notin> set v) fs"
  shows "extract_json_string (''{'' @ concat (map (\<lambda>(k, v). jstr k v @ '','') fs) @ jstr key v @ rest) key =
    takeWhile (\<lambda>x. x \<noteq> dquote) v"
proof -
  have "regex_search (match_string key) (c # concat (map (\<lambda>(k, v). jstr k v @ '','') fs) @ jstr key v @ rest) =
      Some (takeWhile (\<lambda>x. x \<noteq> dquote) v)" if "c \<noteq> dquote" for c
    using assms(2) that
  proof (induction fs arbitrary: c)
    case Nil
    then show ?case by (simp add: search_this_field [OF assms(1)])
  next
    case (Cons f fs)
    obtain k w where f: "f = (k, w)" by fastforce
    let ?t = "concat (map (\<lambda>(k, v). jstr k v @ '','') fs) @ jstr key v @ rest"
    from Cons.prems(1) f have kw: "k \<noteq> key" "dquote \<notin> set k" "dquote \<notin> set w" by simp_all
    have "regex_search (match_string key) (c # jstr k w @ CHR '','' # ?t) = regex_search (match_string key) (CHR '','' # ?t)"
      unfolding regex_search.simps(2) [of _ c] match_None(1) [OF Cons.prems(2)] option.case
      by (rule search_other_field [OF disjI1 [OF refl] assms(1) kw])
    moreover have "regex_search (match_string key) (CHR '','' # ?t) = Some (takeWhile (\<lambda>x. x \<noteq> dquote) v)"
      by (rule Cons.IH) (use Cons.prems in simp_all)
    ultimately show ?case by (simp only: f list.map concat.simps prod.case append_assoc append.simps)
  qed
  from this [of "CHR ''{''"] show ?thesis by (simp add: extract_json_string_def)
qed

theorem extract_first_field_witness:
  "extract_json_string (''{'' @ concat (map (\<lambda>(k, v). jstr k v @ '','') [(''status'', ''ok'')]) @
     jstr ''output_url'' (''a'' @ dquote # ''b'') @ ''}'') ''output_url'' = ''a''"
  by (subst extract_first_field) (simp_all add: plain_key_def)

lemma call_server_cases:
  assumes "call_server exec name p req ctx h = (h1, ps, res)"
  obtains (empty) "\<not> ctx_on_progress ctx" "h1 = h" "ps = []" "res = Inl (Threw Bad_function_call)"
  | (failed) e where "ctx_on_progress ctx" "exec h req (ctx_cancel_token ctx) = (h1, Inl e)" "ps = [p]"
      "res = Inl (Returned (Inl e))"
  | (status) resp e where "ctx_on_progress ctx" "exec h req (ctx_cancel_token ctx) = (h1, Inr resp)" "ps = [p]"
      "status_code resp \<noteq> 200" "res = Inl (Returned (Inl e))" "category e = Cat_Network" "retryable e"
  | (ok) resp where "ctx_on_progress ctx" "exec h req (ctx_cancel_token ctx) = (h1, Inr resp)" "ps = [p]"
      "status_code resp = 200" "res = Inr resp"
proof (cases "ctx_on_progress ctx")
  case False
  with assms empty show ?thesis by (simp add: call_server_def)
next
  case True
  obtain h2 r where x: "exec h req (ctx_cancel_token ctx) = (h2, r)" by fastforce
  show ?thesis
  proof (cases r)
    case (Inl e)
    with assms True x show ?thesis by (intro failed [of e]) (simp_all add: call_server_def)
  next
    case (Inr resp)
    show ?thesis
    proof (cases "status_code resp = 200")
      case True
      with assms \<open>ctx_on_progress ctx\<close> x Inr show ?thesis by (intro ok [of resp]) (simp_all add: call_server_def)
    next
      case False
      with assms True x Inr show ?thesis
        by (intro status [of resp]) (auto simp: call_server_def TaskError6_def)
    qed
  qed
qed

section \<open>The contract of the four stages\<close>

definition stage_contract :: "'h http_exec \<Rightarrow> 'h \<Rightarrow> stage_context \<Rightarrow> 'h stage_run \<Rightarrow> bool" where
  "stage_contract exec h ctx out =
     (case out of (h', k', ctx', ps, fin) \<Rightarrow>
        (fin \<noteq> Returned Ok \<longrightarrow> ctx' = ctx) \<and> (fin = Returned Ok \<longrightarrow> ps \<noteq> [] \<and> last ps = flt_one) \<and>
        sorted_wrt flt_less ps \<and> list_all unit_interval ps \<and>
        (if ps = [] then h' = h
         else \<exists>req r. exec h req (ctx_cancel_token ctx) = (h', r) \<and> req_method req = POST \<and>
           req_trace req = ctx_trace_id ctx \<and>
           (\<forall>e. r = Inl e \<longrightarrow> fin = Returned (Inl e)) \<and>
           (\<forall>resp. r = Inr resp \<and> fin = Returned Ok \<longrightarrow> status_code resp = 200)))"

lemma stage_fractions:
  "sorted_wrt flt_less [f32_div 3 10, f32_div 8 10, flt_one]"
  "sorted_wrt flt_less [f32_div 2 10, f32_div 9 10, flt_one]"
  "sorted_wrt flt_less [f32_div 3 10, f32_div 9 10, flt_one]"
  by (simp_all add: f32_div_def f32_exp.simps f32_round_div_def)

lemma contract_missing: "stage_contract exec h ctx (h, k, ctx, [], Returned (Inl e))"
  by (simp add: stage_contract_def)

lemma contract_step:
  assumes "exec h req (ctx_cancel_token ctx) = (h1, r)" "req_method req = POST" "req_trace req = ctx_trace_id ctx"
    and "ps \<noteq> []" "sorted_wrt flt_less ps" "list_all unit_interval ps"
    and "fin \<noteq> Returned Ok \<Longrightarrow> ctx' = ctx" "fin = Returned Ok \<Longrightarrow> last ps = flt_one"
    and "\<And>e. r = Inl e \<Longrightarrow> fin = Returned (Inl e)"
    and "\<And>resp. r = Inr resp \<Longrightarrow> fin = Returned Ok \<Longrightarrow> status_code resp = 200"
  shows "stage_contract exec h ctx (h1, k, ctx', ps, fin)"
proof -
  have "exec h req (ctx_cancel_token ctx) = (h1, r) \<and> req_method req = POST \<and> req_trace req = ctx_trace_id ctx \<and>
      (\<forall>e. r = Inl e \<longrightarrow> fin = Returned (Inl e)) \<and>
      (\<forall>resp. r = Inr resp \<and> fin = Returned Ok \<longrightarrow> status_code resp = 200)"
    using assms by blast
  then have "\<exists>req r. exec h req (ctx_cancel_token ctx) = (h1, r) \<and> req_method req = POST \<and>
      req_trace req = ctx_trace_id ctx \<and> (\<forall>e. r = Inl e \<longrightarrow> fin = Returned (Inl e)) \<and>
      (\<forall>resp. r = Inr resp \<and> fin = Returned Ok \<longrightarrow> status_code resp = 200)" by blast
  with assms(4-8) show ?thesis by (simp add: stage_contract_def)
qed

lemma contract_call:
  assumes c: "call_server exec name p req ctx h = (h1, ps, res)" and on: "ctx_on_progress ctx"
    and req: "req_method req = POST" "req_trace req = ctx_trace_id ctx"
    and frac: "sorted_wrt flt_less [p, q, flt_one]" "unit_interval p" "unit_interval q"
    and cont: "\<And>resp. res = Inr resp \<Longrightarrow> \<exists>ctx' fin. (cont resp = (h1, k, ctx, ps @ [q], fin) \<and> fin \<noteq> Returned Ok) \<or>
      cont resp = (h1, k, ctx', ps @ [q, flt_one], Returned Ok)"
  shows "stage_contract exec h ctx (case res of Inl fin \<Rightarrow> (h1, k, ctx, ps, fin) | Inr resp \<Rightarrow> cont resp)"
  using c
proof (cases rule: call_server_cases)
  case empty
  with on show ?thesis by simp
next
  case (failed e)
  show ?thesis
    unfolding failed(4) sum.case by (rule contract_step [where req = req and r = "Inl e"])
      (use failed req frac in simp_all)
next
  case (status resp e)
  show ?thesis
    unfolding status(5) sum.case by (rule contract_step [where req = req and r = "Inr resp"])
      (use status req frac in simp_all)
next
  case (ok resp)
  have one: "unit_interval flt_one" by (simp add: unit_interval_def)
  from cont [OF ok(5)] show ?thesis
  proof (elim exE disjE conjE)
    fix fin
    assume r: "cont resp = (h1, k, ctx, ps @ [q], fin)" "fin \<noteq> Returned Ok"
    show ?thesis
      unfolding ok(5) sum.case r(1) by (rule contract_step [where req = req and r = "Inr resp"])
        (use ok r req frac in simp_all)
  next
    fix ctx'
    assume r: "cont resp = (h1, k, ctx', ps @ [q, flt_one], Returned Ok)"
    show ?thesis
      unfolding ok(5) sum.case r by (rule contract_step [where req = req and r = "Inr resp"])
        (use ok req frac one in simp_all)
  qed
qed

lemma finish_media_cont:
  "\<exists>ctx' fin. (finish_media name key k h ps resp ctx = (h, k, ctx, ps @ [f32_div 9 10], fin) \<and> fin \<noteq> Returned Ok) \<or>
     finish_media name key k h ps resp ctx = (h, k, ctx', ps @ [f32_div 9 10, flt_one], Returned Ok)"
  by (cases "extract_json_float (resp_body resp) ''duration_seconds''")
     (auto simp: finish_media_def Let_def)

lemma stage_request_fields [simp]:
  "req_method (stage_request base path tm tr rid body) = POST"
  "req_trace (stage_request base path tm tr rid body) = tr"
  by (simp_all add: stage_request_def)

lemma storyboard_contract:
  assumes "ctx_on_progress ctx"
  shows "stage_contract exec h ctx (storyboard_execute exec base clock k h ctx)"
proof (cases "get_input_string ctx ''story_text'' [] = []")
  case True
  then show ?thesis by (simp add: storyboard_execute_def contract_missing)
next
  case False
  obtain rid k1 where g: "generate_request_id clock k = (rid, k1)" by fastforce
  obtain h1 ps res where c: "call_server exec ''StoryboardStage'' (f32_div 3 10)
      (stage_request base ''/v1/storyboard'' 30000 (ctx_trace_id ctx) rid
        (storyboard_body (ctx_trace_id ctx) rid (get_input_string ctx ''story_text'' [])
          (get_input_float ctx ''target_duration'' (Fin 30)) (get_input_int ctx ''scene_count'' 4))) ctx h = (h1, ps, res)"
    by (metis prod_cases3)
  have out: "storyboard_execute exec base clock k h ctx =
      (case res of Inl fin \<Rightarrow> (h1, k1, ctx, ps, fin) | Inr resp \<Rightarrow> (case extract_json_float (resp_body resp) ''total_duration'' of
           Inl ex \<Rightarrow> (h1, k1, ctx, ps @ [f32_div 8 10], Threw (Parse_failed ex))
         | Inr dur \<Rightarrow>
             (h1, k1, set_output (set_output (set_output ctx ''storyboard_json'' (Any_string (resp_body resp)))
                ''total_duration'' (Any_float dur)) ''scene_count'' (Any_int (get_input_int ctx ''scene_count'' 4)),
              ps @ [f32_div 8 10, flt_one], Returned Ok)))"
    using False g c by (simp add: storyboard_execute_def Let_def)
  show ?thesis
    unfolding out
    by (rule contract_call [OF c assms _ _ stage_fractions(1)])
       (simp_all add: f32_div_unit split: sum.split)
qed

lemma imagegen_contract:
  assumes "ctx_on_progress ctx"
  shows "stage_contract exec h ctx (imagegen_execute exec base clock k h ctx)"
proof (cases "get_input_string ctx ''prompt'' [] = []")
  case True
  then show ?thesis by (simp add: imagegen_execute_def contract_missing)
next
  case False
  obtain rid k1 where g: "generate_request_id clock k = (rid, k1)" by fastforce
  obtain h1 ps res where c: "call_server exec ''ImageGenStage'' (f32_div 2 10)
      (stage_request base ''/v1/imagegen'' 120000 (ctx_trace_id ctx) rid
        (imagegen_body (ctx_trace_id ctx) rid (get_input_string ctx ''prompt'' [])
          (get_input_int ctx ''width'' 512) (get_input_int ctx ''height'' 512) (get_input_int ctx ''num_inference_steps'' 20))) ctx h = (h1, ps, res)"
    by (metis prod_cases3)
  have out: "imagegen_execute exec base clock k h ctx =
      (case res of Inl fin \<Rightarrow> (h1, k1, ctx, ps, fin) | Inr resp \<Rightarrow> (let image_path = extract_json_string (resp_body resp) ''image_path''
         in if image_path = []
            then (h1, k1, ctx, ps @ [f32_div 9 10],
                  Returned (Inl (stage_error 2 ''Invalid response''
                    ''ImageGenStage: missing image_path in response'')))
            else (h1, k1, set_output ctx ''image_path'' (Any_string image_path),
                  ps @ [f32_div 9 10, flt_one], Returned Ok)))"
    using False g c by (cases res) (simp_all add: imagegen_execute_def Let_def)
  show ?thesis
    unfolding out
    by (rule contract_call [OF c assms _ _ stage_fractions(2)])
       (simp_all add: f32_div_unit Let_def)
qed

lemma tts_contract:
  assumes "ctx_on_progress ctx"
  shows "stage_contract exec h ctx (tts_execute exec base clock k h ctx)"
proof (cases "get_input_string ctx ''text'' [] = []")
  case True
  then show ?thesis by (simp add: tts_execute_def contract_missing)
next
  case False
  obtain rid k1 where g: "generate_request_id clock k = (rid, k1)" by fastforce
  obtain h1 ps res where c: "call_server exec ''TtsStage'' (f32_div 3 10)
      (stage_request base ''/v1/tts'' 60000 (ctx_trace_id ctx) rid
        (tts_body (ctx_trace_id ctx) rid (get_input_string ctx ''text'' [])
          (get_input_string ctx ''voice'' ''default'') (get_input_float ctx ''speed'' flt_one))) ctx h = (h1, ps, res)"
    by (metis prod_cases3)
  have out: "tts_execute exec base clock k h ctx =
      (case res of Inl fin \<Rightarrow> (h1, k1, ctx, ps, fin) | Inr resp \<Rightarrow> finish_media ''TtsStage'' ''audio_path'' k1 h1 ps resp ctx)"
    using False g c by (simp add: tts_execute_def Let_def)
  show ?thesis
    unfolding out
    by (rule contract_call [OF c assms _ _ stage_fractions(3) _ _ finish_media_cont])
       (simp_all add: f32_div_unit)
qed

lemma compose_contract:
  assumes "ctx_on_progress ctx"
  shows "stage_contract exec h ctx (compose_execute exec base clock k h ctx)"
proof (cases "get_input_string ctx ''scenes_json'' [] = []")
  case True
  then show ?thesis by (simp add: compose_execute_def contract_missing)
next
  case False
  obtain rid k1 where g: "generate_request_id clock k = (rid, k1)" by fastforce
  obtain h1 ps res where c: "call_server exec ''ComposeStage'' (f32_div 2 10)
      (stage_request base ''/v1/compose'' 300000 (ctx_trace_id ctx) rid
        (compose_body (ctx_trace_id ctx) rid (get_input_string ctx ''scenes_json'' [])
          (get_input_string ctx ''output_path'' ''/tmp/output.mp4''))) ctx h = (h1, ps, res)"
    by (metis prod_cases3)
  have out: "compose_execute exec base clock k h ctx =
      (case res of Inl fin \<Rightarrow> (h1, k1, ctx, ps, fin) | Inr resp \<Rightarrow> finish_media ''ComposeStage'' ''video_path'' k1 h1 ps resp ctx)"
    using False g c by (simp add: compose_execute_def Let_def)
  show ?thesis
    unfolding out
    by (rule contract_call [OF c assms _ _ stage_fractions(2) _ _ finish_media_cont])
       (simp_all add: f32_div_unit)
qed

section \<open>Properties of every stage\<close>

text \<open>C28: All four server stages keep one contract. A stage that does not succeed leaves the context as
  it was; its progress reports are within range and strictly increase, to one if it succeeds; it
  makes at most one call, a POST under the context's trace id and token, after its first report;
  a transport error is returned unchanged, and success needs status 200.\<close>

theorem http_stage_contract:
  assumes "http_stage_execute exec stg = Some run" and "ctx_on_progress ctx"
    and "run clock k h ctx = (h', k', ctx', ps, fin)"
  shows "(fin \<noteq> Returned Ok \<longrightarrow> ctx' = ctx) \<and> (fin = Returned Ok \<longrightarrow> ps \<noteq> [] \<and> last ps = flt_one) \<and>
    sorted_wrt flt_less ps \<and> list_all unit_interval ps \<and>
    (if ps = [] then h' = h
     else \<exists>req r. exec h req (ctx_cancel_token ctx) = (h', r) \<and> req_method req = POST \<and>
       req_trace req = ctx_trace_id ctx \<and>
       (\<forall>e. r = Inl e \<longrightarrow> fin = Returned (Inl e)) \<and>
       (\<forall>resp. r = Inr resp \<and> fin = Returned Ok \<longrightarrow> status_code resp = 200))"
proof -
  have "stage_contract exec h ctx (run clock k h ctx)"
    using assms(1) storyboard_contract [OF assms(2)] imagegen_contract [OF assms(2)]
      tts_contract [OF assms(2)] compose_contract [OF assms(2)]
    by (cases stg) auto
  with assms(3) show ?thesis by (simp add: stage_contract_def)
qed

text \<open>A server that always answers with one body.\<close>

definition answering :: "string \<Rightarrow> nat http_exec" where
  "answering body n req tok = (Suc n, Inr \<lparr>status_code = 200, resp_headers = [], resp_body = body,
     resp_id = req_id req @ ''_resp'', elapsed_ms = 1\<rparr>)"

definition voice_ctx :: stage_context where
  "voice_ctx = new_context\<lparr>ctx_inputs := [''text'' \<mapsto> Any_string ''hi''], ctx_on_progress := True\<rparr>"

theorem http_stage_contract_witness:
  "fst (tts_execute (answering ''{}'') ''u'' 0 0 7 voice_ctx) = 8 \<and>
   fst (snd (snd (tts_execute (answering ''{}'') ''u'' 0 0 7 voice_ctx))) = voice_ctx"
proof -
  obtain h' k' ctx' ps fin where x: "tts_execute (answering ''{}'') ''u'' 0 0 7 voice_ctx = (h', k', ctx', ps, fin)"
    by (metis prod_cases5)
  have on: "ctx_on_progress voice_ctx" by (simp add: voice_ctx_def)
  have st: "http_stage_execute (answering ''{}'') (TtsStage ''u'') = Some (tts_execute (answering ''{}'') ''u'')"
    by simp
  have "extract_json_string ''{}'' ''audio_path'' = []" "extract_json_float ''{}'' ''duration_seconds'' = Inr flt_zero"
    by code_simp+
  moreover have "get_input_string voice_ctx ''text'' [] = ''hi''"
    by (simp add: get_input_string_def voice_ctx_def)
  ultimately have "ps \<noteq> []" "fin \<noteq> Returned Ok"
    using x on by (auto simp: tts_execute_def call_server_def answering_def finish_media_def Let_def
        generate_request_id_def)
  with http_stage_contract [OF st on x] x show ?thesis by (auto simp: answering_def)
qed

text \<open>A malformed answer is not an error value but an exception. If the server answers the
  storyboard request with status 200 and a duration that is a lone point, the stage throws, and
  neither scheduler catches what a stage throws.\<close>

theorem storyboard_answer_throws:
  assumes "get_input_string ctx ''story_text'' [] \<noteq> []" and "ctx_on_progress ctx"
  shows "snd (snd (snd (snd (storyboard_execute (answering (jraw ''total_duration'' ''.''))
    base clock k h ctx)))) = Threw (Parse_failed Invalid_argument)"
proof -
  have "extract_json_float (jraw ''total_duration'' ''.'') ''total_duration'' = Inl Invalid_argument"
    by code_simp
  with assms show ?thesis
    by (simp add: storyboard_execute_def call_server_def answering_def generate_request_id_def Let_def)
qed

theorem storyboard_answer_throws_witness:
  "snd (snd (snd (snd (storyboard_execute (answering (jraw ''total_duration'' ''.'')) ''u'' 0 0 0
     (new_context\<lparr>ctx_inputs := [''story_text'' \<mapsto> Any_string ''once''], ctx_on_progress := True\<rparr>))))) =
   Threw (Parse_failed Invalid_argument)"
  by (rule storyboard_answer_throws) (simp_all add: get_input_string_def)

end
