(* ===== verification/App_Flow.thy ===== *)
theory App_Flow
  imports Stages Scenarios
begin

text \<open>
  The application as \<open>main\<close> puts it together: the workflow engine over the thread-pool scheduler, with
  the stages that call the server. What a stage of a workflow gets to see is decided by the
  scheduler: the outputs of the task's dependencies, and nothing else.
\<close>

text \<open>The outputs a stage leaves when it succeeds on a fresh context.\<close>

definition outputs_of :: "(int \<Rightarrow> nat \<Rightarrow> 'h \<Rightarrow> stage_context \<Rightarrow> 'h stage_run) \<Rightarrow> any_map \<Rightarrow> bool" where
  "outputs_of run outs \<longleftrightarrow> (\<exists>clock k h ctx h' k' ctx' ps. ctx_outputs ctx = Map.empty \<and>
     run clock k h ctx = (h', k', ctx', ps, Returned Ok) \<and> outs = ctx_outputs ctx')"

section \<open>Keys\<close>

lemma call_server_not_ok:
  "call_server exec name p req ctx h = (h1, ps, Inl fin) \<Longrightarrow> fin \<noteq> Returned Ok"
  by (erule call_server_cases) auto

lemma storyboard_output_keys:
  assumes "outputs_of (storyboard_execute exec base) outs"
  shows "dom outs \<subseteq> {''storyboard_json'', ''total_duration'', ''scene_count''}"
  using assms call_server_not_ok
  by (fastforce simp: outputs_of_def storyboard_execute_def Let_def set_output_def
      split: if_splits prod.splits sum.splits)

lemma imagegen_output_keys:
  assumes "outputs_of (imagegen_execute exec base) outs"
  shows "dom outs \<subseteq> {''image_path''}"
  using assms call_server_not_ok
  by (fastforce simp: outputs_of_def imagegen_execute_def Let_def set_output_def
      split: if_splits prod.splits sum.splits)

lemma dom_collect_outputs:
  "dom (collect_outputs ns ds m) \<subseteq> dom m \<union> (\<Union>d \<in> set ds. case ns d of None \<Rightarrow> {} | Some n \<Rightarrow> dom (last_outputs n))"
proof (induction ds arbitrary: m)
  case (Cons d ds)
  show ?case
  proof (cases "ns d")
    case None
    with Cons [of m] show ?thesis by auto
  next
    case (Some n)
    with Cons [of "m ++ last_outputs n"] show ?thesis by auto
  qed
qed simp

lemma no_key:
  assumes "dom (ctx_inputs ctx) \<subseteq> K" "key \<notin> K"
  shows "get_input_string ctx key dflt = dflt"
proof -
  have "ctx_inputs ctx key = None" using assms by (meson domIff subsetD)
  then show ?thesis by (simp add: get_input_string_def)
qed

text \<open>The keys a dispatched stage finds are those its dependencies left.\<close>

lemma dispatched_keys:
  assumes b: "worker_begin now s = (s', evs, Some d)" and n: "nodes s (dtask d) = Some n"
    and K: "\<And>x m. x \<in> set (deps (ntask n)) \<Longrightarrow> nodes s x = Some m \<Longrightarrow> dom (last_outputs m) \<subseteq> K"
  shows "dom (ctx_inputs (dctx d)) \<subseteq> K"
proof -
  obtain c where c: "pick_candidate now s True = Some c"
    using b worker_begin_idle [of now s] by (cases "pick_candidate now s True") auto
  from worker_begin_dispatch [OF c b] n obtain n0 where
    n0: "nodes s (cand_id c) = Some n0" "s' = dispatched now s (cand_id c) n0" "dtask d = cand_id c"
      "ctx_inputs (dctx d) = collect_outputs (nodes s') (deps (ntask n0)) Map.empty" by auto
  have same: "n0 = n" using n n0 by simp
  have "dom (last_outputs m) \<subseteq> K" if "x \<in> set (deps (ntask n))" "nodes s' x = Some m" for x m
    using that K [of x] n0 same
    by (auto simp: dispatched_def put_node_def started_node_def split: if_splits)
  then have "(\<Union>x \<in> set (deps (ntask n)). case nodes s' x of None \<Rightarrow> {} | Some m \<Rightarrow> dom (last_outputs m)) \<subseteq> K"
    by (fastforce split: option.splits)
  then have "dom (collect_outputs (nodes s') (deps (ntask n)) Map.empty) \<subseteq> K"
    using dom_collect_outputs [of "nodes s'" "deps (ntask n)" Map.empty] by blast
  then show ?thesis using n0(4) same by simp
qed

section \<open>Properties\<close>

text \<open>Workflows of server stages starve. The engine gives the story, the style and the number of
  scenes to nobody, and the stages of a workflow write none of the fields that the next ones
  need: a storyboard task has no story text, an image task that depends on storyboards has no
  prompt, a composition of images has no scene list. Each of them fails at once, without a call
  to the server, whatever the server is.\<close>

theorem http_workflow_starves:
  assumes "worker_begin now s = (s', evs, Some d)" and "nodes s (dtask d) = Some n"
  shows "(deps (ntask n) = [] \<longrightarrow>
      storyboard_execute exec base clock k h (dctx d) = (h, k, dctx d, [], Returned (Inl
        (stage_error 1 ''Missing story_text'' ''StoryboardStage: story_text is empty'')))) \<and>
    ((\<forall>x \<in> set (deps (ntask n)). \<forall>m. nodes s x = Some m \<longrightarrow>
        outputs_of (storyboard_execute exec base) (last_outputs m)) \<longrightarrow>
      imagegen_execute exec base clock k h (dctx d) = (h, k, dctx d, [], Returned (Inl
        (stage_error 1 ''Missing prompt'' ''ImageGenStage: prompt is empty'')))) \<and>
    ((\<forall>x \<in> set (deps (ntask n)). \<forall>m. nodes s x = Some m \<longrightarrow>
        outputs_of (imagegen_execute exec base) (last_outputs m)) \<longrightarrow>
      compose_execute exec base clock k h (dctx d) = (h, k, dctx d, [], Returned (Inl
        (stage_error 1 ''Missing scenes'' ''ComposeStage: scenes_json is empty''))))"
proof (intro conjI impI)
  assume none: "deps (ntask n) = []"
  have "dom (ctx_inputs (dctx d)) \<subseteq> {}" by (rule dispatched_keys [OF assms]) (simp add: none)
  from no_key [OF this, of "''story_text''" "[]"]
  show "storyboard_execute exec base clock k h (dctx d) = (h, k, dctx d, [], Returned (Inl
      (stage_error 1 ''Missing story_text'' ''StoryboardStage: story_text is empty'')))"
    by (simp add: storyboard_execute_def)
next
  assume "\<forall>x \<in> set (deps (ntask n)). \<forall>m. nodes s x = Some m \<longrightarrow>
    outputs_of (storyboard_execute exec base) (last_outputs m)"
  then have "dom (ctx_inputs (dctx d)) \<subseteq> {''storyboard_json'', ''total_duration'', ''scene_count''}"
    using storyboard_output_keys by (intro dispatched_keys [OF assms]) blast
  from no_key [OF this, of "''prompt''" "[]"]
  show "imagegen_execute exec base clock k h (dctx d) = (h, k, dctx d, [], Returned (Inl
      (stage_error 1 ''Missing prompt'' ''ImageGenStage: prompt is empty'')))"
    by (simp add: imagegen_execute_def)
next
  assume "\<forall>x \<in> set (deps (ntask n)). \<forall>m. nodes s x = Some m \<longrightarrow>
    outputs_of (imagegen_execute exec base) (last_outputs m)"
  then have "dom (ctx_inputs (dctx d)) \<subseteq> {''image_path''}"
    using imagegen_output_keys by (intro dispatched_keys [OF assms]) blast
  from no_key [OF this, of "''scenes_json''" "[]"]
  show "compose_execute exec base clock k h (dctx d) = (h, k, dctx d, [], Returned (Inl
      (stage_error 1 ''Missing scenes'' ''ComposeStage: scenes_json is empty'')))"
    by (simp add: compose_execute_def)
qed

text \<open>A server that nobody gets to call.\<close>

definition unreached :: "nat http_exec" where
  "unreached n req tok = (Suc n, Inl (make_http_error UNKNOWN ''unreached'' [] False))"

theorem http_workflow_starves_witness:
  "\<exists>d. snd (snd (worker_begin 30 demo2)) = Some d \<and> dtask d = ''a'' \<and>
     fst (storyboard_execute unreached ''http://server'' 1 0 7 (dctx d)) = 7"
proof -
  obtain s' evs od where b: "worker_begin 30 demo2 = (s', evs, od)" by (metis prod_cases3)
  have "case snd (snd (worker_begin 30 demo2)) of None \<Rightarrow> False | Some d \<Rightarrow> dtask d = ''a''" by code_simp
  with b obtain d where d: "od = Some d" "dtask d = ''a''" by (cases od) auto
  have n: "nodes demo2 (dtask d) = Some (demo_node demo2 ''a'')"
    unfolding d(2) by (rule demo_node) code_simp
  have "deps (ntask (demo_node demo2 ''a'')) = []" by code_simp
  with http_workflow_starves [OF b [unfolded d(1)] n, of unreached "''http://server''" 1 0 7] b d
  show ?thesis by simp
qed

end
