(* ===== verification/App_Main.thy ===== *)
theory App_Main
  imports App_Config App_Pool App_Flow
begin

text \<open>
  \<open>main\<close> as a whole: the settings, the scheduler they select, the server stages and the window. The
  objects are the models of the other theories; Qt is the queue of actions that the window runs.
  What comes out is that the generation the program was built for never ends on a server.
\<close>

section \<open>The application that is started\<close>

datatype main_window = On_simple "simple app" | On_pool "pool app"

text \<open>\<open>hardware\<close> is what \<open>std::thread::hardware_concurrency\<close> returns, here and in the scheduler.\<close>

definition main_app :: "int \<Rightarrow> environment \<Rightarrow> token_heap \<Rightarrow> main_window \<times> log_entry list" where
  "main_app hardware env h =
     (case build_scheduler_config True hardware env of
        (cfg, log1) \<Rightarrow>
          (case choose_scheduler env cfg of
             (choice, log2) \<Rightarrow>
               (let fac = factory_create_stage (main_api_base_url env)
                in (case choice of
                      Use_simple \<Rightarrow> On_simple (create_app fac (create_simple_scheduler h))
                    | Use_thread_pool c \<Rightarrow> On_pool (create_app fac (create_pool hardware c h)),
                    log1 @ log2))))"

lemma main_app_pool:
  assumes m: "main_app hardware env h = (On_pool a0, logs)"
    and small: "\<And>name raw. env name = Some raw \<Longrightarrow> fst (strtol10 raw) \<le> 8388607"
  obtains c where "a0 = create_app (factory_create_stage (main_api_base_url env)) (create_pool hardware c h)"
    "sane_config c" "roomy (normalize_config hardware c)"
proof -
  obtain c log1 where c: "build_scheduler_config True hardware env = (c, log1)" by fastforce
  have "\<forall>name raw. env name = Some raw \<longrightarrow> fst (strtol10 raw) \<le> 8388607" using small by blast
  note b = build_scheduler_config_bounds [OF this _ _ refl, of True hardware, unfolded c fst_conv]
  have f: "sane_config c" "normalize_config hardware c = c"
    using in_force [of c hardware] b by (simp_all add: INT_MAX_def)
  show thesis
  proof (rule that [of c])
    show "a0 = create_app (factory_create_stage (main_api_base_url env)) (create_pool hardware c h)"
      using m c by (auto simp: main_app_def choose_scheduler_def Let_def split: prod.splits if_splits)
    show "roomy (normalize_config hardware c)" using b(1) f(2) by (simp add: roomy_def INT_MAX_def)
  qed (rule f)
qed

section \<open>Nothing succeeds\<close>

text \<open>What the server stages may do, whatever the clock, the request counter and the state of the client
  are when they run; after an exception anything, for other stages anything.\<close>

fun outcome_of_run :: "'h stage_run \<Rightarrow> stage_outcome \<Rightarrow> bool" where
  "outcome_of_run (h, k, ctx, ps, Returned r) out \<longleftrightarrow> out = (ctx, ps, r)"
| "outcome_of_run (h, k, ctx, ps, Threw e) out \<longleftrightarrow> True"

fun serving :: "'h http_exec \<Rightarrow> behaviour" where
  "serving http (StoryboardStage base) ctx out \<longleftrightarrow>
     (\<exists>clock k h. outcome_of_run (storyboard_execute http base clock k h ctx) out)"
| "serving http (ImageGenStage base) ctx out \<longleftrightarrow>
     (\<exists>clock k h. outcome_of_run (imagegen_execute http base clock k h ctx) out)"
| "serving http (TtsStage base) ctx out \<longleftrightarrow>
     (\<exists>clock k h. outcome_of_run (tts_execute http base clock k h ctx) out)"
| "serving http (ComposeStage base) ctx out \<longleftrightarrow>
     (\<exists>clock k h. outcome_of_run (compose_execute http base clock k h ctx) out)"
| "serving http st ctx out \<longleftrightarrow> True"

lemma storyboard_without_inputs:
  assumes "serving http (StoryboardStage base) ctx (ctx', ps, res)" and "ctx_inputs ctx = Map.empty"
  shows "\<exists>e. res = Inl e"
proof -
  have "get_input_string ctx ''story_text'' [] = []" by (rule no_key [of _ "{}"]) (simp_all add: assms(2))
  then have "storyboard_execute http base clock k h ctx = (h, k, ctx, [], Returned (Inl
      (stage_error 1 ''Missing story_text'' ''StoryboardStage: story_text is empty'')))" for clock k h
    by (simp add: storyboard_execute_def)
  with assms(1) show ?thesis by simp
qed

text \<open>No task has succeeded, and those that can start without another are storyboards; the tasks that are
  started are storyboards without inputs.\<close>

definition barren_node :: "string \<Rightarrow> node \<Rightarrow> bool" where
  "barren_node base n \<longleftrightarrow> nstate n \<noteq> Succeeded \<and>
     (\<not> is_terminal (nstate n) \<longrightarrow> deps (ntask n) = [] \<longrightarrow> nstage n = StoryboardStage base)"

definition hopeless :: "string \<Rightarrow> dispatch \<Rightarrow> bool" where
  "hopeless base d \<longleftrightarrow> dstage d = StoryboardStage base \<and> ctx_inputs (dctx d) = Map.empty"

lemma hopeless_fails: "hopeless base d \<Longrightarrow> serving http (dstage d) (dctx d) (ctx, ps, res) \<Longrightarrow> \<exists>e. res = Inl e"
  by (metis hopeless_def storyboard_without_inputs)

interpretation barren_crew: crew_property "serving http" "barren_node base" "hopeless base" for http base
proof (unfold_locales, goal_cases)
  case (2 n d N)
  have "deps (ntask n) = []" using 2(5) by (cases "deps (ntask n)") (auto simp: barren_node_def)
  with 2(1-4) show ?case by (simp add: barren_node_def hopeless_def)
next
  case (4 n d ctx ps res now s outs)
  from hopeless_fails [OF 4(2,3)] obtain e where "res = Inl e" by blast
  with 4(1,5) show ?case by (auto simp: barren_node_def finished_node_def finish_target_def)
next
  case (6 n d ctx ps res s m now m')
  then show ?case by (auto simp: barren_node_def dest: dep_canceled_fields(1))
qed (auto simp: barren_node_def started_node_def clear_pause_def woken_node_def)

text \<open>The events of a run in which nothing succeeds bring no success.\<close>

lemma barren_events:
  assumes c: "sane_config c" and r: "pool_reach hw c (evs0 @ evs) s ws" and b: "every_node (barren_node base) s"
  shows "successes ids evs = 0"
proof -
  have acc: "accept (pool_deps s) all_queued (evs0 @ evs) = Some (pool_view s)"
    using pool_reach_simulates [OF c r agrees_pool_deps] .
  have "ev_state ev \<noteq> Succeeded" if "ev \<in> set evs" for ev
  proof
    assume s: "ev_state ev = Succeeded"
    from accept_reports_end [OF acc, of ev] that s have "pool_view s (ev_task ev) = At Succeeded" by simp
    with b show False by (auto simp: pool_view_def phase_of_def every_node_def barren_node_def all_queued_def split: option.splits if_splits)
  qed
  then show ?thesis by (simp add: successes_def filter_empty_conv)
qed

section \<open>A window over a pool that has ended\<close>

fun window_action :: "'s action \<Rightarrow> bool" where
  "window_action (Worker_events s evs) = False"
| "window_action act = True"

lemma ended_cancel:
  assumes "all_ended s" "pool_cancel now s i = (s', evs, r)"
  shows "all_ended s' \<and> evs = []"
  using assms(2)
proof (cases rule: pool_cancel_cases)
  case unknown
  with assms(1) show ?thesis by simp
next
  case (ended n)
  with assms(1) show ?thesis by (auto simp: all_ended_def split: if_splits)
next
  case (live n evs2)
  with assms(1) show ?thesis by (simp add: all_ended_def)
qed

lemma ended_cancel_all:
  "all_ended s \<Longrightarrow> cancel_all pool_cancel now s ids = (s', evs) \<Longrightarrow> all_ended s' \<and> evs = []"
proof (induction ids arbitrary: s s' evs)
  case (Cons i ids)
  obtain s1 ev1 r where one: "pool_cancel now s i = (s1, ev1, r)" by (metis prod_cases3)
  obtain s2 ev2 where two: "cancel_all pool_cancel now s1 ids = (s2, ev2)" by fastforce
  from ended_cancel [OF Cons.prems(1) one] Cons.IH [OF _ two] Cons.prems(2) one two show ?case by simp
qed simp

lemma ended_act:
  assumes e: "all_ended (app_sched a)" and q: "quiet a" and w: "window_action act"
    and act: "app_act pool_ops dis fm now act a = (a', sigs)"
  shows "all_ended (app_sched a') \<and> busy_events pool_ops now act a = []"
proof (cases act)
  case (Click_start story style n)
  with act e q show ?thesis by (auto simp: start_generation_def quiet_def split: prod.splits)
next
  case Click_cancel
  have b: "busy (app_ui a)" using q by (simp add: quiet_def)
  have "all_ended (app_sched a')"
  proof (cases "current_trace_id (app_ui a) = []")
    case True
    with act e Click_cancel show ?thesis by (simp add: cancel_generation_def)
  next
    case False
    obtain p1 g1 where p1: "append_log ''Canceling workflow...'' (app_ui a) = (p1, g1)" by fastforce
    obtain eng s calls r where cw: "cancel_workflow pool_cancel now (app_engine a) (app_sched a)
        (current_trace_id p1) = (eng, s, calls, r)" by (metis prod_cases4)
    have "app_sched a' = s"
      using act b False p1 cw unfolding Click_cancel
      by (auto simp: cancel_generation_def pool_ops_def split: prod.splits)
    moreover have "all_ended s"
      using cw e by (auto simp: cancel_workflow_def dest: ended_cancel_all split: option.splits prod.splits)
    ultimately show ?thesis by simp
  qed
  moreover have "busy_events pool_ops now act a = []"
    using ended_cancel_all [OF e] unfolding Click_cancel
    by (auto simp: pool_ops_def split: option.splits) (metis prod.collapse)
  ultimately show ?thesis by blast
next
  case Timer_tick
  with act e show ?thesis
    by (auto simp: on_tick_def pool_ops_def dry_tick [OF e] deliver_to_app_def Let_def split: if_splits)
next
  case (Worker_events s evs)
  with w show ?thesis by simp
next
  case Show_next
  with act e show ?thesis by (auto simp: run_posted_def split: list.splits prod.splits)
qed

lemma ended_window:
  assumes "quiet a" "all_ended (app_sched a)" "\<forall>x \<in> set acts. window_action (snd x)"
    and "app_run pool_ops dis fm acts a = (d, sigs, evs)"
  shows "quiet d \<and> \<not> finishes sigs \<and> output_path (app_ui d) = output_path (app_ui a) \<and> evs = []"
  using assms
proof (induction acts arbitrary: a sigs evs)
  case Nil
  then show ?case by (simp add: finishes_def)
next
  case (Cons x acts)
  obtain now act where x: "x = (now, act)" by fastforce
  obtain a1 sigs1 where act: "app_act pool_ops dis fm now act a = (a1, sigs1)" by fastforce
  obtain a2 sigs2 evs2 where run: "app_run pool_ops dis fm acts a1 = (a2, sigs2, evs2)" by (metis prod_cases3)
  have w: "window_action act" using Cons.prems(3) x by simp
  note e1 = ended_act [OF Cons.prems(2,1) w act]
  have "deliver (app_engine a) (busy_events pool_ops now act a) = (app_engine a, [])" using e1 by simp
  from app_act_busy [OF Cons.prems(1) act this] have q1: "quiet a1" "\<not> finishes sigs1"
    "output_path (app_ui a1) = output_path (app_ui a)" by (simp_all add: no_completion_def)
  have eqs: "d = a2" "sigs = sigs1 @ sigs2" "evs = busy_events pool_ops now act a @ evs2"
    using Cons.prems(4) x act run by simp_all
  have "quiet d \<and> \<not> finishes sigs2 \<and> output_path (app_ui d) = output_path (app_ui a1) \<and> evs2 = []"
    by (rule Cons.IH [OF q1(1) _ _ run [folded eqs(1)]]) (use e1 Cons.prems(3) in auto)
  with e1 q1 eqs show ?case by simp
qed

section \<open>Properties\<close>

text \<open>The application as it is started never completes a generation. With settings below \<open>2^23\<close> and the
  thread-pool scheduler, whatever the server would answer: after an accepted first click, in every
  interleaving of the workers that leaves nothing pending every task has failed or was canceled; and
  then, whatever is clicked, ticked or shown, the window stays busy, shows no output and reports
  nothing.\<close>

theorem server_generation_stalls:
  assumes "\<And>name raw. env name = Some raw \<Longrightarrow> fst (strtol10 raw) \<le> 8388607" and "n + 2 \<le> INT_MAX"
    and "main_app hardware env h = (On_pool a0, logs)"
    and "start_generation pool_ops dis now story style n a0 = (a, sigs1)" and "busy (app_ui a)"
    and "crew_run (serving http) (app_sched a) (replicate (nat (worker_count (config (app_sched a0)))) None)
      m evs s' jobs"
    and "\<not> pool_has_pending s'"
    and "\<forall>x \<in> set acts. window_action (snd x)"
    and "app_run pool_ops dis fm acts (deliver_to_app evs (a\<lparr>app_sched := s'\<rparr>)) = (d, sigs2, evs2)"
  shows "length (node_order s') = nat (n + 2) \<and>
    (\<forall>i \<in> set (node_order s'). pool_state_of s' i = Some Failed \<or> pool_state_of s' i = Some Canceled) \<and>
    busy (app_ui d) \<and> output_path (app_ui d) = [] \<and> (\<forall>ok path. Generation_completed ok path \<notin> set sigs2)"
proof -
  let ?base = "main_api_base_url env"
  obtain c where a0: "a0 = create_app (factory_create_stage ?base) (create_pool hardware c h)"
    and c: "sane_config c" "roomy (normalize_config hardware c)"
    by (rule main_app_pool [OF assms(3,1)])
  let ?crew = "replicate (nat (worker_count (normalize_config hardware c))) (None :: dispatch option)"
  have crew: "crew_run (serving http) (app_sched a) ?crew m evs s' jobs"
    using assms(6) by (simp add: a0 created_app(5) create_pool_def)
  obtain w evs1 where
    w: "active_workflows (app_engine a) = [w]" "wf_completed w = 0" "wf_total w = n + 2"
      "length (wf_tasks w) = nat (n + 2)" "0 < n" "app_posted a = []" "output_path (app_ui a) = []"
    and took: "pool_reach hardware c evs1 (app_sched a) (hands ?crew)" "only_ready evs1"
      "node_order (app_sched a) = wf_tasks w" "unpaused (app_sched a)"
    and new: "every_node (engine_node (factory_create_stage ?base)) (app_sched a)"
    by (rule generation_taken [OF c assms(2) assms(4) [unfolded a0] assms(5) hands_simps(4)])
  have start: "every_node (barren_node ?base) (app_sched a)"
    using new by (auto simp: every_node_def barren_node_def engine_node_def)
  have dry: "pending_tasks s' = 0" "pool_reach hardware c (evs1 @ evs) s' (hands jobs)" "node_order s' = wf_tasks w"
    "wf_index s'"
    using generation_ends [OF c(1) took(1,2,4) crew assms(7)] took(3) by simp_all
  have calm: "pause_free evs1" using only_ready_facts [OF took(2)] by simp
  have none: "every_node (barren_node ?base) s'"
    by (rule barren_crew.keeps_run [OF c(1) took(1) calm took(4) start _ crew, THEN conjunct1]) simp
  have all: "pool_state_of s' i = Some Failed \<or> pool_state_of s' i = Some Canceled" if i: "i \<in> set (node_order s')" for i
  proof -
    from i dry(4) obtain k where k: "nodes s' i = Some k" by (auto simp: wf_index_def)
    from ended_pool [OF dry(1,4)] k have "is_terminal (nstate k)" by (simp add: all_ended_def)
    moreover from none k have "nstate k \<noteq> Succeeded" by (simp add: every_node_def barren_node_def)
    ultimately show ?thesis using k by (cases "nstate k") (auto simp: pool_state_of_def)
  qed
  obtain eng calls where dl: "deliver (app_engine a) evs = (eng, calls)" by fastforce
  have "no_completion calls"
    using deliver_last_incomplete [where us = "[]", OF _ _ _ _ _ dl]
      barren_events [OF c(1) dry(2) none, of "wf_tasks w"] w assms(2) by simp
  then have "quiet (deliver_to_app evs (a\<lparr>app_sched := s'\<rparr>))"
    using assms(5) w(6) dl by (auto simp: quiet_def deliver_to_app_def no_completion_def list_ex_iff)
  moreover have "all_ended (app_sched (deliver_to_app evs (a\<lparr>app_sched := s'\<rparr>)))"
    using ended_pool [OF dry(1,4)] dl by (simp add: deliver_to_app_def)
  ultimately have "quiet d \<and> \<not> finishes sigs2 \<and>
      output_path (app_ui d) = output_path (app_ui (deliver_to_app evs (a\<lparr>app_sched := s'\<rparr>)))"
    using ended_window [OF _ _ assms(8,9)] by blast
  with all dry(3) w(4,7) dl show ?thesis by (simp add: quiet_def finishes_def deliver_to_app_def)
qed

text \<open>The application without any variable set, and a server that nobody gets to call.\<close>

definition main_demo :: "pool app" where
  "main_demo = create_app (factory_create_stage (main_api_base_url Map.empty))
     (create_pool 4 (fst (build_scheduler_config True 4 Map.empty)) empty_heap)"

definition main_click :: "pool app \<times> ui_signal list" where
  "main_click = start_generation pool_ops demo_rng 5 ''once'' ''ink'' 1 main_demo"

definition stage_end_result :: "'h stage_run \<Rightarrow> stage_outcome" where
  "stage_end_result run = (case run of (h, k, ctx, ps, e) \<Rightarrow> (ctx, ps, (case e of Returned r \<Rightarrow> r | Threw x \<Rightarrow> Ok)))"

fun unreached_exec :: executor where
  "unreached_exec (StoryboardStage base) ctx = stage_end_result (storyboard_execute unreached base 1 0 7 ctx)"
| "unreached_exec (ImageGenStage base) ctx = stage_end_result (imagegen_execute unreached base 1 0 7 ctx)"
| "unreached_exec (TtsStage base) ctx = stage_end_result (tts_execute unreached base 1 0 7 ctx)"
| "unreached_exec (ComposeStage base) ctx = stage_end_result (compose_execute unreached base 1 0 7 ctx)"
| "unreached_exec st ctx = (ctx, [], Ok)"

lemma outcome_of_result: "outcome_of_run run (stage_end_result run)"
  by (auto simp: stage_end_result_def split: prod.splits stage_end.splits)

lemma unreached_serves: "serving unreached st ctx (unreached_exec st ctx)"
  using outcome_of_result by (cases st) (simp_all, blast+)

definition main_work :: "pool \<times> state_event list" where
  "main_work = worker_alone unreached_exec [(10, 20), (30, 40), (50, 60)] (app_sched (fst main_click))"

theorem server_generation_stalls_witness:
  "\<exists>d sigs evs. app_run pool_ops demo_rng plain_format [(80, Show_next), (85, Click_cancel), (90, Timer_tick)]
     (deliver_to_app (snd main_work) ((fst main_click)\<lparr>app_sched := fst main_work\<rparr>)) = (d, sigs, evs) \<and>
   busy (app_ui d)"
proof -
  let ?acts = "[(80, Show_next), (85, Click_cancel), (90, Timer_tick)] :: (int \<times> pool action) list"
  let ?c = "fst (build_scheduler_config True 4 Map.empty)"
  let ?crew = "replicate (nat (worker_count (config (app_sched main_demo)))) (None :: dispatch option)"
  obtain a sigs1 where a: "main_click = (a, sigs1)" by fastforce
  have "busy (app_ui (fst main_click))" by code_simp
  then have busy: "busy (app_ui a)" unfolding a fst_conv .
  have "snd (build_scheduler_config True 4 Map.empty) = []" by code_simp
  then have m: "main_app 4 Map.empty empty_heap = (On_pool main_demo, [])"
    by (auto simp: main_app_def main_demo_def choose_scheduler_def Let_def split: prod.splits)
  obtain s' evs where w: "main_work = (s', evs)" by fastforce
  then have al: "worker_alone unreached_exec [(10, 20), (30, 40), (50, 60)] (app_sched a) = (s', evs)"
    unfolding main_work_def a fst_conv .
  have "\<not> pool_has_pending (fst main_work)" by code_simp
  then have e: "\<not> pool_has_pending s'" unfolding w fst_conv .
  have small: "fst (strtol10 raw) \<le> 8388607" if "Map.empty name = Some raw" for name :: string and raw
    using that by simp
  have n: "(1 :: int) + 2 \<le> INT_MAX" by (simp add: INT_MAX_def)
  have cfg: "sane_config ?c" "roomy (normalize_config 4 ?c)" by code_simp+
  have crew: "hands ?crew = replicate (nat (worker_count (normalize_config 4 ?c))) None"
    by (simp add: main_demo_def created_app(5) create_pool_def)
  obtain evs1 where r: "pool_reach 4 ?c evs1 (app_sched a) (hands ?crew)" "only_ready evs1" "unpaused (app_sched a)"
    by (rule generation_taken [OF cfg n a [unfolded main_click_def main_demo_def] busy crew])
  have k: "0 < length ?crew" "?crew ! 0 = None" by code_simp+
  have "pause_free evs1" using only_ready_facts [OF r(2)] by simp
  from crew_alone [where runs = "serving unreached" and exec = unreached_exec,
      OF cfg(1) r(1) this r(3) k unreached_serves al] obtain l where
    run: "crew_run (serving unreached) (app_sched a) ?crew l evs s' ?crew" by blast
  obtain d sigs rest where act: "app_run pool_ops demo_rng plain_format ?acts
      (deliver_to_app evs (a\<lparr>app_sched := s'\<rparr>)) = (d, sigs, rest)" by (metis prod_cases3)
  have acts: "\<forall>x \<in> set ?acts. window_action (snd x)" by simp
  note out = server_generation_stalls [OF small n m a [unfolded main_click_def] busy run e acts act]
  show ?thesis unfolding a fst_conv w snd_conv using act out by blast
qed

end
