(* ===== verification/Pool_Client.thy ===== *)
theory Pool_Client
  imports Pool_Crew Pool_Operations
begin

text \<open>
  Clients beside the crew. While the workers run, clients submit, cancel and tick, in any order and
  at any moment; only nobody asks for a pause. The crew still ends every task: a submission adds
  two steps, a cancellation takes some away.
\<close>

section \<open>Steps of clients\<close>

inductive client_step ::
  "behaviour \<Rightarrow> pool \<Rightarrow> crew \<Rightarrow> nat \<Rightarrow> state_event list \<Rightarrow> pool \<Rightarrow> crew \<Rightarrow> bool" for runs where
  client_crew: "crew_step runs s jobs m evs s' jobs' \<Longrightarrow> client_step runs s jobs m evs s' jobs'"
| client_submit: "fresh_task t \<Longrightarrow> sane_demand (config s) (demand t) \<Longrightarrow> unleaked s (task_id t) \<Longrightarrow>
    pool_submit now s t stg = (s', evs, r) \<Longrightarrow> client_step runs s jobs 0 evs s' jobs"
| client_cancel: "pool_cancel now s i = (s', evs, r) \<Longrightarrow> client_step runs s jobs 0 evs s' jobs"
| client_tick: "pool_tick now s = (s', evs) \<Longrightarrow> client_step runs s jobs 0 evs s' jobs"
| client_register: "client_step runs s jobs 0 [] (pool_on_state_change s cb) jobs"
| client_token: "client_step runs s jobs 0 [] (s\<lparr>pool_heap := h\<rparr>) jobs"

inductive client_run ::
  "behaviour \<Rightarrow> pool \<Rightarrow> crew \<Rightarrow> nat \<Rightarrow> state_event list \<Rightarrow> pool \<Rightarrow> crew \<Rightarrow> bool" for runs where
  client_here: "client_run runs s jobs 0 [] s jobs"
| client_next: "client_run runs s jobs m evs s1 jobs1 \<Longrightarrow> client_step runs s1 jobs1 k ev s2 jobs2 \<Longrightarrow>
    client_run runs s jobs (m + k) (evs @ ev) s2 jobs2"

lemma crew_run_client: "crew_run runs s jobs m evs s' jobs' \<Longrightarrow> client_run runs s jobs m evs s' jobs'"
  by (induction rule: crew_run.induct) (auto intro: client_here client_next client_crew)

lemma client_run_crew:
  assumes "crew_run runs s1 jobs1 k ev s2 jobs2" "client_run runs s jobs m evs s1 jobs1"
  shows "client_run runs s jobs (m + k) (evs @ ev) s2 jobs2"
  using assms
proof (induction rule: crew_run.induct)
  case (crew_next s1 jobs1 k ev s2 jobs2 l ev2 s3 jobs3)
  from client_next [OF crew_next.IH [OF crew_next.prems] client_crew [OF crew_next.hyps(2)]] show ?case
    by (simp add: add.assoc)
qed simp

section \<open>Cancellation\<close>

lemma cancel_nodes:
  assumes "pool_cancel now s i = (s', evs, r)" "nodes s' x = Some n'"
  obtains n where "nodes s x = Some n" "n' = n \<or> n' = clear_pause n \<or>
    (\<not> is_terminal (nstate n) \<and> n' = canceled_node now n) \<or> dep_canceled now n n'"
  using assms(1)
proof (cases rule: pool_cancel_cases)
  case unknown
  with that assms(2) show thesis by blast
next
  case (ended n)
  with that assms(2) show thesis by (cases "x = i") auto
next
  case (live n evs2)
  have self: "nodes (cancel_self now s i n) x = (if x = i then Some (canceled_node now n) else nodes s x)"
    by (simp add: cancel_self_def)
  from prop_rel_nodes [OF prop_rel_propagate [OF live(3)], of x] show thesis
  proof
    assume "nodes s' x = nodes (cancel_self now s i n) x"
    with that self live(1,2) assms(2) show thesis by (cases "x = i") auto
  next
    assume "\<exists>m m'. nodes (cancel_self now s i n) x = Some m \<and> nodes s' x = Some m' \<and> dep_canceled now m m'"
    then obtain m where m: "nodes (cancel_self now s i n) x = Some m" "dep_canceled now m n'" using assms(2) by auto
    from dep_canceled_fields(8) [OF m(2)] m(1) self have "x \<noteq> i" by (auto simp: canceled_node_def)
    with self m(1) have "nodes s x = Some m" by simp
    with that m(2) show thesis by blast
  qed
qed

lemma canceled_node_fields [simp]:
  "nstate (canceled_node now n) = Canceled" "nrunning (canceled_node now n) = nrunning n"
  "\<not> pause_requested (canceled_node now n)" "deps (ntask (canceled_node now n)) = deps (ntask n)"
  "nstage (canceled_node now n) = nstage n"
  by (simp_all add: canceled_node_def clear_pause_def)

lemma cancel_serene:
  assumes c: "pool_cancel now s i = (s', evs, r)"
  shows "pause_free evs \<and> (unpaused s \<longrightarrow> unpaused s') \<and> node_order s' = node_order s \<and>
    work_of s' j \<le> work_of s j"
proof (intro conjI impI)
  show "pause_free evs"
    using c by (cases rule: pool_cancel_cases) (auto simp: pause_free_def list_all_iff dest: propagate_changed(2))
  show "node_order s' = node_order s" using calm_cancel [OF c] by (simp add: changes_def)
next
  assume u: "unpaused s"
  show "unpaused s'"
    unfolding unpaused_def every_node_def
  proof (intro allI impI)
    fix x n'
    assume "nodes s' x = Some n'"
    from cancel_nodes [OF c this] obtain n where
      n: "nodes s x = Some n" "n' = n \<or> n' = clear_pause n \<or>
        (\<not> is_terminal (nstate n) \<and> n' = canceled_node now n) \<or> dep_canceled now n n'" by blast
    from u n(1) have "\<not> pause_requested n" by (auto simp: unpaused_def every_node_def)
    with n(2) show "\<not> pause_requested n'" by (auto simp: clear_pause_def dep_canceled_def)
  qed
next
  show "work_of s' j \<le> work_of s j"
  proof (cases "nodes s' j")
    case (Some n')
    from cancel_nodes [OF c this] obtain n where
      "nodes s j = Some n" "n' = n \<or> n' = clear_pause n \<or>
        (\<not> is_terminal (nstate n) \<and> n' = canceled_node now n) \<or> dep_canceled now n n'" by blast
    with Some show ?thesis
      by (auto simp: work_of_def task_work_def clear_pause_def dest: dep_canceled_fields(1,5,8))
  qed (simp add: work_of_def)
qed

text \<open>Without a request there is nothing that a tick could expire.\<close>

lemma unpaused_tick: "unpaused s \<Longrightarrow> pool_tick now s = (s, [])"
proof -
  assume "unpaused s"
  then have "\<not> pause_expired now s i" for i
    by (auto simp: pause_expired_def unpaused_def every_node_def split: option.splits)
  then show ?thesis by (simp add: pool_tick_def)
qed

section \<open>Submission\<close>

lemma submit_serene:
  assumes sub: "pool_submit now s t stg = (s', evs, r)" and f: "fresh_task t"
  shows "pause_free evs \<and> (unpaused s \<longrightarrow> unpaused s') \<and>
    (nodes s' = nodes s \<and> node_order s' = node_order s \<or>
     nodes s (task_id t) = None \<and> node_order s' = node_order s @ [task_id t] \<and>
       (\<exists>n. nodes s' = (nodes s)(task_id t \<mapsto> n) \<and> \<not> nrunning n \<and> \<not> pause_requested n))"
  using sub fresh_queued [OF f]
proof (cases rule: pool_submit_outcome)
  case (inserted sg h g lr n)
  then show ?thesis
    by (auto simp: emplace_node_def pause_free_def unpaused_def every_node_def)
qed (simp add: pause_free_def unpaused_def every_node_def)

section \<open>What every client step keeps\<close>

definition serene :: "int \<Rightarrow> scheduler_config \<Rightarrow> state_event list \<Rightarrow> pool \<Rightarrow> crew \<Rightarrow> bool" where
  "serene hw c evs s jobs \<longleftrightarrow> pool_reach hw c evs s (hands jobs) \<and> pause_free evs \<and> unpaused s"

lemma serene_crew_step:
  assumes "sane_config c" "serene hw c evs s jobs" "crew_step runs s jobs m ev s' jobs'"
  shows "serene hw c (evs @ ev) s' jobs' \<and> node_order s' = node_order s"
proof -
  from assms(2) have "pool_reach hw c evs s (hands jobs)" "pause_free evs" "unpaused s" by (simp_all add: serene_def)
  from crew_step_pool [OF assms(1) this assms(3)] assms(2) show ?thesis by (simp add: serene_def)
qed

lemma serene_client:
  assumes "serene hw c evs s jobs" "pool_step s (hands jobs) ev s' (hands jobs)"
    "pause_free ev" "unpaused s \<longrightarrow> unpaused s'"
  shows "serene hw c (evs @ ev) s' jobs"
  using assms by (auto simp: serene_def intro: reach_next)

lemma serene_cancel:
  assumes "serene hw c evs s jobs" "pool_cancel now s i = (s', ev, r)"
  shows "serene hw c (evs @ ev) s' jobs \<and> node_order s' = node_order s"
  using serene_client [OF assms(1) step_cancel [OF assms(2)]] cancel_serene [OF assms(2)] by simp

lemma submit_work:
  assumes sub: "pool_submit now s t stg = (s', evs, r)" and f: "fresh_task t" and idx: "wf_index s"
  shows "crew_work s' + 2 * length (node_order s) \<le> crew_work s + 2 * length (node_order s')"
proof -
  from submit_serene [OF sub f] consider (none) "nodes s' = nodes s" "node_order s' = node_order s"
    | (new) n where "nodes s (task_id t) = None" "node_order s' = node_order s @ [task_id t]"
      "nodes s' = (nodes s)(task_id t \<mapsto> n)" by blast
  then show ?thesis
  proof cases
    case none
    then show ?thesis by (simp add: crew_work_def work_of_def)
  next
    case new
    from new(1) idx have "task_id t \<notin> set (node_order s)" by (auto simp: wf_index_def)
    then have "(\<Sum>i\<leftarrow>node_order s. work_of s' i) = crew_work s"
      unfolding crew_work_def by (intro sum_list_cong_set) (auto simp: work_of_def new(3))
    moreover have "work_of s' (task_id t) \<le> 2" by (simp add: work_of_def task_work_def split: option.splits)
    ultimately show ?thesis by (simp add: crew_work_def new(2))
  qed
qed

lemma client_step_serene:
  assumes c: "sane_config c" and s: "serene hw c evs s jobs" and st: "client_step runs s jobs m ev s' jobs'"
  shows "serene hw c (evs @ ev) s' jobs' \<and>
    m + crew_work s' + 2 * length (node_order s) \<le> crew_work s + 2 * length (node_order s')"
  using st
proof (cases rule: client_step.cases)
  case client_crew
  from s have "pool_reach hw c evs s (hands jobs)" "pause_free evs" "unpaused s" by (simp_all add: serene_def)
  from serene_crew_step [OF c s client_crew] crew_step_work [OF c this client_crew] show ?thesis by simp
next
  case (client_submit t stg now r)
  have "wf_index s" using s reach_parts(8) [OF c] by (auto simp: serene_def)
  from submit_work [OF client_submit(6,3) this] serene_client [OF s step_submit [OF client_submit(3-6)]]
    submit_serene [OF client_submit(6,3)] client_submit(1,2) show ?thesis by simp
next
  case (client_cancel now i r)
  have "crew_work s' \<le> crew_work s"
    using cancel_serene [OF client_cancel(3)] by (simp add: crew_work_def sum_list_mono)
  with serene_cancel [OF s client_cancel(3)] client_cancel(1,2) show ?thesis by simp
next
  case (client_tick now)
  then have "s' = s" "ev = []" using s unpaused_tick by (simp_all add: serene_def)
  with s client_tick(1,2) show ?thesis by simp
next
  case (client_register cb)
  with step_register [of s "hands jobs" cb] have "serene hw c (evs @ ev) s' jobs"
    by (intro serene_client [OF s])
       (simp_all add: pause_free_def unpaused_def every_node_def pool_on_state_change_def)
  with client_register show ?thesis by (simp add: crew_work_def work_of_def pool_on_state_change_def)
next
  case (client_token h)
  then have "serene hw c (evs @ ev) s' jobs"
    by (intro serene_client [OF s]) (simp_all add: step_token pause_free_def unpaused_def every_node_def)
  with client_token show ?thesis by (simp add: crew_work_def work_of_def)
qed

lemma client_run_serene:
  assumes c: "sane_config c" and s: "serene hw c evs s jobs" and run: "client_run runs s jobs m ev s' jobs'"
  shows "serene hw c (evs @ ev) s' jobs' \<and>
    m + crew_work s' + 2 * length (node_order s) \<le> crew_work s + 2 * length (node_order s')"
  using run s
proof (induction rule: client_run.induct)
  case (client_next s jobs m evs1 s1 jobs1 k ev1 s2 jobs2)
  then have one: "serene hw c (evs @ evs1) s1 jobs1"
    "m + crew_work s1 + 2 * length (node_order s) \<le> crew_work s + 2 * length (node_order s1)" by simp_all
  from client_step_serene [OF c one(1) client_next.hyps(2)] one(2) show ?case by simp
qed simp

lemma ended_reports:
  assumes c: "sane_config c" and r: "pool_reach hw c evs s ws" and e: "\<not> pool_has_pending s"
    and i: "i \<in> set (node_order s)"
  shows "end_events i evs = 1"
proof -
  from i reach_parts(8) [OF c r] obtain n where n: "nodes s i = Some n" by (auto simp: wf_index_def)
  with e i have "is_terminal (nstate n)" by (auto simp: pool_has_pending_def list_ex_iff)
  with pool_reach_reported [OF c r, of i] n show ?thesis by (simp add: ended_def)
qed

section \<open>Properties\<close>

text \<open>C8: The pool serves its clients. While the workers run, clients submit, cancel and tick, in any
  interleaving, and the stages return what they like; nobody pauses. What is submitted are tasks in
  their initial state, with a demand whose sums fit an \<open>int\<close> and under an id for which no refused
  submission has left edges; their dependencies may be unknown, so that they are refused, or may have
  failed. Then the workers begin and end at most two times per task that was ever accepted; as long
  as a task is pending some worker can begin or end one; and when none is pending every task has
  reported its end exactly once.\<close>

theorem clients_drain:
  assumes "sane_config c" and "pool_reach hw c evs s (hands jobs)" and "pause_free evs" and "unpaused s"
    and "\<And>st ctx. \<exists>out. runs st ctx out" and "client_run runs s jobs m evs' s' jobs'"
  shows "m \<le> 2 * length (node_order s') \<and>
    (if pool_has_pending s' then \<exists>ev s2 jobs2. crew_step runs s' jobs' 1 ev s2 jobs2
     else \<forall>i \<in> set (node_order s'). end_events i (evs @ evs') = 1)"
proof -
  have "serene hw c evs s jobs" using assms(2-4) by (simp add: serene_def)
  from client_run_serene [OF assms(1) this assms(6)] have r: "pool_reach hw c (evs @ evs') s' (hands jobs')"
    "pause_free (evs @ evs')"
    "m + crew_work s' + 2 * length (node_order s) \<le> crew_work s + 2 * length (node_order s')"
    by (simp_all add: serene_def)
  have "m \<le> 2 * length (node_order s')" using r(3) crew_work_bound [of s] by simp
  with crew_enabled [OF assms(1) r(1,2) assms(5)] ended_reports [OF assms(1) r(1)] show ?thesis by simp
qed

text \<open>A client cancels the second task of \<open>demo2\<close>, then a worker takes the first.\<close>

definition demo_late :: "pool \<times> state_event list" where
  "demo_late = worker_alone demo_exec [(30, 40), (50, 60)] (fst (pool_cancel 25 demo2 ''b''))"

theorem clients_drain_witness:
  "\<exists>m evs. client_run (\<lambda>st ctx out. out = demo_exec st ctx) demo2 [None, None] m evs (fst demo_late) [None, None] \<and>
     m \<le> 4 \<and> end_events ''a'' (demo_events2 @ evs) = 1 \<and> end_events ''b'' (demo_events2 @ evs) = 1"
proof -
  let ?jobs = "[None, None] :: crew"
  let ?runs = "\<lambda>st ctx out. out = demo_exec st ctx"
  obtain s1 ev1 r1 where cn: "pool_cancel 25 demo2 ''b'' = (s1, ev1, r1)" by (metis prod_cases3)
  obtain s' ev2 where late: "demo_late = (s', ev2)" by fastforce
  have w: "worker_alone demo_exec [(30, 40), (50, 60)] s1 = (s', ev2)"
    using late unfolding demo_late_def cn fst_conv .
  have r: "pool_reach 4 demo_config demo_events2 demo2 (hands ?jobs)" using demo_reach2 by (simp add: hands_def)
  have f: "pause_free demo_events2" by code_simp
  have o: "node_order demo2 = [''a'', ''b'']" by code_simp
  have "list_all (\<lambda>i. case nodes demo2 i of None \<Rightarrow> True | Some n \<Rightarrow> \<not> pause_requested n) (node_order demo2)"
    by code_simp
  then have u: "unpaused demo2" by (rule unpaused_listed [OF reach_parts(8) [OF demo_sane r]])
  have "serene 4 demo_config demo_events2 demo2 ?jobs" using r f u by (simp add: serene_def)
  from serene_cancel [OF this cn] have s1: "pool_reach 4 demo_config (demo_events2 @ ev1) s1 (hands ?jobs)"
    "pause_free (demo_events2 @ ev1)" "unpaused s1" by (simp_all add: serene_def)
  have "0 < length ?jobs" "?jobs ! 0 = None" by simp_all
  from crew_alone [where runs = ?runs, OF demo_sane s1 this refl w] obtain k where
    k: "crew_run ?runs s1 ?jobs k ev2 s' ?jobs" by blast
  from client_run_crew [OF k client_next [OF client_here client_cancel [OF cn]]]
  have run: "client_run ?runs demo2 ?jobs k (ev1 @ ev2) s' ?jobs" by simp
  have "\<not> pool_has_pending (fst demo_late)" "node_order (fst demo_late) = [''a'', ''b'']" by code_simp+
  then have e: "\<not> pool_has_pending s'" "node_order s' = [''a'', ''b'']" unfolding late fst_conv .
  have "\<exists>out. ?runs st ctx out" for st ctx by blast
  from clients_drain [OF demo_sane r f u this run] e have "k \<le> 4" "end_events ''a'' (demo_events2 @ ev1 @ ev2) = 1"
    "end_events ''b'' (demo_events2 @ ev1 @ ev2) = 1" by simp_all
  with run show ?thesis unfolding late fst_conv by blast
qed

end
