(* ===== verification/Window_Track.thy ===== *)
theory Window_Track
  imports Presenter
begin

text \<open>
  The window of one generation, from the outside: how many successes its engine has been told of
  decides whether it is busy, has the completion in its queue, or shows the result. Events may come
  one by one and between them anything may happen on the window's thread.
\<close>

section \<open>What is known of the window\<close>

definition shows_success :: "presenter \<Rightarrow> ui_signal list \<Rightarrow> bool" where
  "shows_success p sigs \<longleftrightarrow> \<not> busy p \<and> output_path p = mock_output_path \<and>
     Generation_completed True mock_output_path \<in> set sigs"

text \<open>The only workflow has the trace id \<open>tr\<close> and the tasks \<open>ids\<close>, its engine was told of \<open>k\<close> successes, and the window has
  emitted \<open>sigs\<close> so far.\<close>

definition counts :: "string \<Rightarrow> string list \<Rightarrow> nat \<Rightarrow> engine \<Rightarrow> bool" where
  "counts tr ids k eng \<longleftrightarrow> completion_cb eng = Some 0 \<and>
     (\<exists>w. active_workflows eng = [w] \<and> wf_trace w = tr \<and> wf_tasks w = ids \<and> wf_total w = int (length ids) \<and> wf_completed w = int k)"

definition tracks :: "string \<Rightarrow> string list \<Rightarrow> nat \<Rightarrow> ui_signal list \<Rightarrow> 's app \<Rightarrow> bool" where
  "tracks tr ids k sigs a \<longleftrightarrow> counts tr ids k (app_engine a) \<and> current_trace_id (app_ui a) = tr \<and>
     (\<forall>ok path. Post_completion ok path \<in> set (app_posted a) \<longrightarrow> ok \<and> path = mock_output_path) \<and>
     (if k < length ids then quiet a \<and> \<not> finishes sigs \<and> output_path (app_ui a) = []
      else list_ex is_post_completion (app_posted a) \<or> shows_success (app_ui a) sigs)"

lemma shows_success_append [simp]: "shows_success p xs \<Longrightarrow> shows_success p (xs @ ys)"
  by (simp add: shows_success_def)

text \<open>Only the flags of the window and the output matter.\<close>

lemma tracks_cong:
  assumes "tracks tr ids k sigs a" "app_engine b = app_engine a" "app_posted b = app_posted a"
    "current_trace_id (app_ui b) = current_trace_id (app_ui a)" "busy (app_ui b) = busy (app_ui a)" "output_path (app_ui b) = output_path (app_ui a)" "\<not> finishes new"
  shows "tracks tr ids k (sigs @ new) b"
  using assms by (auto simp: tracks_def quiet_def shows_success_def split: if_splits)

lemma tracks_done:
  assumes "tracks tr ids (length ids) sigs a" "app_posted a = []"
  shows "shows_success (app_ui a) sigs"
  using assms by (simp add: tracks_def)

lemma tracks_busy:
  assumes "tracks tr ids k sigs a" "k < length ids"
  shows "busy (app_ui a) \<and> output_path (app_ui a) = [] \<and> (\<forall>ok path. Generation_completed ok path \<notin> set sigs)"
  using assms by (auto simp: tracks_def quiet_def finishes_def)

section \<open>Events\<close>

lemma counts_event:
  assumes c: "counts tr ids k eng" and le: "k + successes ids [ev] \<le> length ids" "int (length ids) \<le> INT_MAX"
    and h: "handle_state_change eng ev = (eng', calls)"
  shows "counts tr ids (k + successes ids [ev]) eng' \<and>
    (\<forall>ok path. Post_completion ok path \<in> set (map post_of calls) \<longrightarrow> ok \<and> path = mock_output_path) \<and>
    (k + successes ids [ev] < length ids \<longrightarrow> no_completion calls) \<and>
    (k < length ids \<and> k + successes ids [ev] = length ids \<longrightarrow> list_ex is_post_completion (map post_of calls))"
proof -
  from c obtain w where w: "active_workflows eng = [w]" "wf_trace w = tr" "wf_tasks w = ids" "wf_total w = int (length ids)"
    "wf_completed w = int k" and cb: "completion_cb eng = Some 0" by (auto simp: counts_def)
  show ?thesis
  proof (cases "ev_task ev \<in> set ids")
    case False
    then have "successes ids [ev] = 0" by (simp add: successes_def)
    moreover from False h w have "eng' = eng" "calls = []" by (auto simp: handle_state_change_def)
    ultimately show ?thesis using c by (simp add: no_completion_def)
  next
    case True
    obtain w' where w': "workflow_event (Some 0) (progress_cb eng) w ev = (w', calls)"
      "eng' = eng\<lparr>active_workflows := [w']\<rparr>"
      using h w(1-3) cb True by (auto simp: handle_state_change_def split: prod.splits)
    have hit: "successes ids [ev] = (if ev_state ev = Succeeded then 1 else 0)"
      using True by (simp add: successes_def)
    have "i32 (int k + 1) = int k + 1" if "ev_state ev = Succeeded"
      using that hit le by (intro i32_id) (simp_all add: INT_MAX_def)
    with workflow_event_fields [OF w'(1)] w hit have f: "wf_tasks w' = ids" "wf_total w' = int (length ids)" "wf_trace w' = tr"
      "wf_completed w' = int (k + successes ids [ev])" by simp_all
    have "counts tr ids (k + successes ids [ev]) eng'" using w'(2) f cb by (simp add: counts_def)
    moreover have "calls = (case progress_cb eng of None \<Rightarrow> []
          | Some p \<Rightarrow> [Progress_call p (wf_trace w) (ev_task ev) (ev_state ev) (ev_progress ev)]) @
        (if k + successes ids [ev] = length ids then [Completion_call 0 (wf_trace w) True mock_output_path] else [])"
      using w'(1) f workflow_event_fields(2) [OF w'(1)]
      by (auto simp: workflow_event_def Let_def split: if_splits)
    ultimately show ?thesis by (auto simp: no_completion_def split: option.splits)
  qed
qed

lemma tracks_event:
  assumes t: "tracks tr ids k sigs a" and le: "k + successes ids [ev] \<le> length ids" "int (length ids) \<le> INT_MAX"
  shows "tracks tr ids (k + successes ids [ev]) sigs (deliver_to_app [ev] a)"
proof -
  obtain eng calls where h: "handle_state_change (app_engine a) ev = (eng, calls)" by fastforce
  have b: "deliver_to_app [ev] a = a\<lparr>app_engine := eng, app_posted := app_posted a @ map post_of calls\<rparr>"
    using h by (simp add: deliver_to_app_def)
  have "counts tr ids k (app_engine a)" using t by (simp add: tracks_def)
  from counts_event [OF this le h] t le(1) show ?thesis
    unfolding b by (auto simp: tracks_def quiet_def no_completion_def list_ex_iff split: if_splits)
qed

lemma deliver_to_app_Cons: "deliver_to_app (ev # evs) a = deliver_to_app evs (deliver_to_app [ev] a)"
  by (simp add: deliver_to_app_def split: prod.splits)

lemma tracks_deliver:
  assumes "tracks tr ids k sigs a" "k + successes ids evs \<le> length ids" "int (length ids) \<le> INT_MAX"
  shows "tracks tr ids (k + successes ids evs) sigs (deliver_to_app evs a)"
  using assms
proof (induction evs arbitrary: k a)
  case Nil
  then show ?case by (simp add: successes_def deliver_to_app_def)
next
  case (Cons ev evs)
  have sum: "successes ids (ev # evs) = successes ids [ev] + successes ids evs"
    using successes_append [of ids "[ev]" evs] by simp
  with Cons.prems(2) have "k + successes ids [ev] \<le> length ids" by simp
  from Cons.IH [OF tracks_event [OF Cons.prems(1) this Cons.prems(3)]] Cons.prems(2,3) sum
  show ?case by (subst deliver_to_app_Cons) (simp add: add.assoc)
qed

section \<open>Actions of the window's thread\<close>

lemma show_keeps_trace: "current_trace_id (fst (show_posted fm clock q p)) = current_trace_id p"
  by (cases q) (simp_all add: ui_then_fst)

lemma tracks_show:
  assumes t: "tracks tr ids k sigs a" and r: "run_posted fm clock a = (a', new)"
  shows "tracks tr ids k (sigs @ new) a'"
proof (cases "app_posted a")
  case Nil
  with t r show ?thesis by (simp add: run_posted_def)
next
  case (Cons q qs)
  obtain p sg where sp: "show_posted fm clock q (app_ui a) = (p, sg)" by fastforce
  have a': "a' = a\<lparr>app_ui := p, app_posted := qs\<rparr>" "new = sg" using r Cons sp by (simp_all add: run_posted_def)
  show ?thesis
  proof (cases q)
    case (Post_completion ok path)
    have "Post_completion ok path \<in> set (app_posted a)" using Cons Post_completion by simp
    with t Post_completion have q: "q = Post_completion True mock_output_path" unfolding tracks_def by blast
    then have late: "\<not> k < length ids" using t Cons by (auto simp: tracks_def quiet_def)
    from sp have "p = fst (show_posted fm clock q (app_ui a))" "sg = snd (show_posted fm clock q (app_ui a))" by simp_all
    with show_completion [where fm = fm and clock = clock and ok = True and path = mock_output_path and p = "app_ui a"]
    have "shows_success p (sigs @ sg)" by (simp only: q shows_success_def set_append Un_iff if_True simp_thms)
    moreover have "current_trace_id p = current_trace_id (app_ui a)" using sp show_keeps_trace [of fm clock q "app_ui a"] by simp
    ultimately show ?thesis using t late Cons unfolding a' by (auto simp: tracks_def)
  next
    case (Post_progress i st x)
    then have "\<not> is_post_completion q" by simp
    from show_progress_keeps [OF this sp] Post_progress t Cons show ?thesis
      unfolding a' by (auto simp: tracks_def quiet_def shows_success_def split: if_splits)
  qed
qed

text \<open>Clicks count while the window is busy: one on start is then ignored. A click on an idle window
  would begin another generation.\<close>

fun clicks :: "'s action \<Rightarrow> bool" where
  "clicks (Click_start story style n) = True"
| "clicks Click_cancel = True"
| "clicks act = False"

lemma tracks_cancel:
  assumes t: "tracks tr ids k sigs a" and b: "busy (app_ui a)"
    and le: "k + successes ids (busy_events ops now Click_cancel a) \<le> length ids" "int (length ids) \<le> INT_MAX"
    and c: "cancel_generation ops now a = (a', new)"
  shows "tracks tr ids (k + successes ids (busy_events ops now Click_cancel a)) (sigs @ new) a'"
proof (cases "current_trace_id (app_ui a) = []")
  case True
  with t c show ?thesis by (simp add: cancel_generation_def successes_def)
next
  case False
  obtain p1 g1 where p1: "append_log ''Canceling workflow...'' (app_ui a) = (p1, g1)" by fastforce
  obtain p2 g2 where p2: "set_status_text ''Canceling...'' p1 = (p2, g2)" by fastforce
  obtain eng s calls r where cw: "cancel_workflow (op_cancel ops) now (app_engine a) (app_sched a)
      (current_trace_id p1) = (eng, s, calls, r)" by (metis prod_cases4)
  have p: "current_trace_id p1 = current_trace_id (app_ui a)" "current_trace_id p2 = current_trace_id (app_ui a)" "busy p2 = busy (app_ui a)"
    "output_path p2 = output_path (app_ui a)" "\<not> finishes (g1 @ g2)"
    using p1 p2 by (auto simp: append_log_def set_status_text_def finishes_def split: if_splits)
  have a': "a' = \<lparr>app_ui = p2, app_engine = eng, app_sched = s, app_posted = app_posted a @ map post_of calls\<rparr>"
    "new = g1 @ g2"
    using c b False p1 p2 cw by (simp_all add: cancel_generation_def)
  have "deliver (app_engine a) (busy_events ops now Click_cancel a) = (eng, calls)"
    using cw False p(1) by (auto simp: cancel_workflow_def split: option.splits prod.splits)
  then have d: "app_engine a' = app_engine (deliver_to_app (busy_events ops now Click_cancel a) a)"
    "app_posted a' = app_posted (deliver_to_app (busy_events ops now Click_cancel a) a)"
    "app_ui (deliver_to_app (busy_events ops now Click_cancel a) a) = app_ui a"
    by (simp_all add: a' deliver_to_app_def)
  show ?thesis
    by (rule tracks_cong [OF tracks_deliver [OF t le]]) (use d p a' in simp_all)
qed

lemma tracks_act:
  assumes t: "tracks tr ids k sigs a" and w: "clicks act \<longrightarrow> busy (app_ui a)"
    and le: "k + successes ids (busy_events ops now act a) \<le> length ids" "int (length ids) \<le> INT_MAX"
    and act: "app_act ops dis fm now act a = (a', new)"
  shows "tracks tr ids (k + successes ids (busy_events ops now act a)) (sigs @ new) a'"
proof (cases act)
  case (Click_start story style n)
  with act w have "a' = a\<lparr>app_ui := app_ui a'\<rparr>" "busy (app_ui a') = busy (app_ui a)"
    "current_trace_id (app_ui a') = current_trace_id (app_ui a)" "output_path (app_ui a') = output_path (app_ui a)" "\<not> finishes new"
    by (auto simp: start_generation_def append_log_def finishes_def)
  with tracks_cong [OF t, of a' new] show ?thesis
    by (cases a) (cases a', simp add: Click_start successes_def)
next
  case Click_cancel
  with tracks_cancel [OF t] w le act show ?thesis by simp
next
  case Timer_tick
  show ?thesis
  proof (cases "timer_active (app_ui a)")
    case True
    obtain s evs where e: "op_tick ops now (app_sched a) = (s, evs)" by fastforce
    let ?b = "deliver_to_app evs (a\<lparr>app_sched := s\<rparr>)"
    have "tracks tr ids k (sigs @ []) (a\<lparr>app_sched := s\<rparr>)" by (rule tracks_cong [OF t]) (simp_all add: finishes_def)
    from tracks_deliver [OF this, of evs] le have "tracks tr ids (k + successes ids evs) sigs ?b"
      using True e by (simp add: Timer_tick)
    then have "tracks tr ids (k + successes ids evs) (sigs @ []) a'"
      by (rule tracks_cong) (use act True e in \<open>auto simp: Timer_tick on_tick_def Let_def finishes_def split: if_splits\<close>)
    with act True e show ?thesis by (simp add: Timer_tick)
  next
    case False
    with act t show ?thesis by (simp add: Timer_tick successes_def)
  qed
next
  case (Worker_events s evs)
  have "tracks tr ids k (sigs @ []) (a\<lparr>app_sched := s\<rparr>)" by (rule tracks_cong [OF t]) (simp_all add: finishes_def)
  from tracks_deliver [OF this, of evs] le act show ?thesis by (auto simp: Worker_events)
next
  case Show_next
  with tracks_show [OF t] act show ?thesis by (simp add: successes_def)
qed

end
