(* ===== verification/App_System.thy ===== *)
theory App_System
  imports App_Main Pool_Client Window_Track
begin

text \<open>
  The whole application at work: the window's thread and all workers, in any interleaving. A worker
  changes the pool under the mutex and then, without it, delivers the events one by one before it
  goes on; what it has not delivered yet is its flight. Meanwhile the other workers step, the
  window's thread runs posted closures, the timer fires and the user clicks.
\<close>

section \<open>Steps of the application\<close>

text \<open>One worker by its index.\<close>

inductive worker_step ::
  "behaviour \<Rightarrow> nat \<Rightarrow> pool \<Rightarrow> crew \<Rightarrow> nat \<Rightarrow> state_event list \<Rightarrow> pool \<Rightarrow> crew \<Rightarrow> bool" for runs k where
  worker_begins: "k < length jobs \<Longrightarrow> jobs ! k = None \<Longrightarrow> worker_begin now s = (s', evs, Some d) \<Longrightarrow>
    worker_step runs k s jobs 1 evs s' (jobs[k := Some d])"
| worker_reports: "k < length jobs \<Longrightarrow> jobs ! k = Some d \<Longrightarrow>
    progress_checkpoint now s (dtask d) p = (s', evs, b) \<Longrightarrow> worker_step runs k s jobs 0 evs s' jobs"
| worker_finishes: "k < length jobs \<Longrightarrow> jobs ! k = Some d \<Longrightarrow> runs (dstage d) (dctx d) (ctx, ps, res) \<Longrightarrow>
    finalize_execution now s (dtask d) (ctx_outputs ctx) res = (s', evs) \<Longrightarrow>
    worker_step runs k s jobs 1 evs s' (jobs[k := None])"

lemma worker_step_crew:
  "worker_step runs k s jobs m evs s' jobs' \<Longrightarrow> crew_step runs s jobs m evs s' jobs' \<and> k < length jobs"
  by (induction rule: worker_step.induct) (simp only: simp_thms, blast intro: crew_step.intros)+

record system =
  sys_app :: "pool app"
  sys_jobs :: crew
  sys_flights :: "state_event list list"

definition system_of :: "pool app \<Rightarrow> system" where
  "system_of a =
     (let k = nat (worker_count (config (app_sched a)))
      in \<lparr>sys_app = a, sys_jobs = replicate k None, sys_flights = replicate k []\<rparr>)"

text \<open>A step with the beginnings and endings it counts, the events of the pool, and the signals of the
  window. The user clicks while the window is busy; \<open>may\<close> restricts the actions further.\<close>

inductive system_step ::
  "behaviour \<Rightarrow> (pool action \<Rightarrow> bool) \<Rightarrow> rng \<Rightarrow> ui_format \<Rightarrow>
   system \<Rightarrow> nat \<Rightarrow> state_event list \<Rightarrow> ui_signal list \<Rightarrow> system \<Rightarrow> bool" for runs may dis fm where
  system_work: "worker_step runs k (app_sched (sys_app x)) (sys_jobs x) m evs s' jobs' \<Longrightarrow>
    sys_flights x ! k = [] \<Longrightarrow>
    system_step runs may dis fm x m evs []
      \<lparr>sys_app = (sys_app x)\<lparr>app_sched := s'\<rparr>, sys_jobs = jobs', sys_flights = (sys_flights x)[k := evs]\<rparr>"
| system_deliver: "k < length (sys_flights x) \<Longrightarrow> sys_flights x ! k = ev # evs \<Longrightarrow>
    system_step runs may dis fm x 0 [] []
      (x\<lparr>sys_app := deliver_to_app [ev] (sys_app x), sys_flights := (sys_flights x)[k := evs]\<rparr>)"
| system_act: "may act \<Longrightarrow> window_action act \<Longrightarrow> clicks act \<longrightarrow> busy (app_ui (sys_app x)) \<Longrightarrow>
    app_act pool_ops dis fm now act (sys_app x) = (a', sigs) \<Longrightarrow>
    system_step runs may dis fm x 0 (busy_events pool_ops now act (sys_app x)) sigs (x\<lparr>sys_app := a'\<rparr>)"

inductive system_run ::
  "behaviour \<Rightarrow> (pool action \<Rightarrow> bool) \<Rightarrow> rng \<Rightarrow> ui_format \<Rightarrow>
   system \<Rightarrow> nat \<Rightarrow> state_event list \<Rightarrow> ui_signal list \<Rightarrow> system \<Rightarrow> bool" for runs may dis fm where
  system_here: "system_run runs may dis fm x 0 [] [] x"
| system_next: "system_run runs may dis fm x m evs sigs y \<Longrightarrow> system_step runs may dis fm y k ev new z \<Longrightarrow>
    system_run runs may dis fm x (m + k) (evs @ ev) (sigs @ new) z"

text \<open>What the window's thread does to a pool without pauses is a number of cancellations.\<close>

lemma act_pool:
  assumes u: "unpaused (app_sched a)" and w: "window_action act" "clicks act \<longrightarrow> busy (app_ui a)"
    and act: "app_act pool_ops dis fm now act a = (a', sigs)"
  shows "\<exists>is. cancel_all pool_cancel now (app_sched a) is = (app_sched a', busy_events pool_ops now act a)"
proof (cases act)
  case (Click_start story style n)
  with act w(2) have "app_sched a' = app_sched a" by (auto simp: start_generation_def split: prod.splits)
  with Click_start show ?thesis by (intro exI [of _ "[]"]) simp
next
  case Click_cancel
  with w(2) have b: "busy (app_ui a)" by simp
  show ?thesis
  proof (cases "current_trace_id (app_ui a) = []")
    case True
    with act Click_cancel show ?thesis by (intro exI [of _ "[]"]) (auto simp: cancel_generation_def)
  next
    case False
    obtain p1 g1 where p1: "append_log ''Canceling workflow...'' (app_ui a) = (p1, g1)" by fastforce
    then have tr: "current_trace_id p1 = current_trace_id (app_ui a)" by (auto simp: append_log_def)
    obtain eng s calls r where cw: "cancel_workflow pool_cancel now (app_engine a) (app_sched a)
        (current_trace_id p1) = (eng, s, calls, r)" by (metis prod_cases4)
    have s: "app_sched a' = s"
      using act b False p1 cw unfolding Click_cancel
      by (auto simp: cancel_generation_def pool_ops_def split: prod.splits)
    show ?thesis
    proof (cases "List.find (\<lambda>w. wf_trace w = current_trace_id (app_ui a)) (active_workflows (app_engine a))")
      case None
      with cw tr s False show ?thesis
        by (intro exI [of _ "[]"]) (simp add: Click_cancel cancel_workflow_def)
    next
      case (Some w)
      with cw tr s False show ?thesis
        by (intro exI [of _ "wf_tasks w"])
           (auto simp: Click_cancel cancel_workflow_def pool_ops_def split: prod.splits)
    qed
  qed
next
  case Timer_tick
  with act unpaused_tick [OF u] show ?thesis
    by (intro exI [of _ "[]"]) (auto simp: on_tick_def pool_ops_def deliver_to_app_def Let_def split: if_splits)
next
  case (Worker_events s evs)
  with w(1) show ?thesis by simp
next
  case Show_next
  with act show ?thesis by (intro exI [of _ "[]"]) (auto simp: run_posted_def split: list.splits prod.splits)
qed

lemma serene_cancel_all:
  "serene hw c evs s jobs \<Longrightarrow> cancel_all pool_cancel now s is = (s', ev) \<Longrightarrow>
    serene hw c (evs @ ev) s' jobs \<and> node_order s' = node_order s"
proof (induction "is" arbitrary: evs s ev)
  case (Cons i "is")
  obtain s1 ev1 r where one: "pool_cancel now s i = (s1, ev1, r)" by (metis prod_cases3)
  obtain s2 ev2 where two: "cancel_all pool_cancel now s1 is = (s2, ev2)" by fastforce
  have eqs: "s' = s2" "ev = ev1 @ ev2" using Cons.prems(2) one two by simp_all
  note s1 = serene_cancel [OF Cons.prems(1) one]
  from Cons.IH [OF conjunct1 [OF s1] two [folded eqs(1)]] s1 eqs(2) show ?case by simp
qed simp

section \<open>The events and the states\<close>

lemma filter_indicator: "(\<Sum>i\<leftarrow>xs. if P i then 1 else 0) = length (filter P xs)"
  by (induction xs) auto

text \<open>Of each task a success was reported exactly if it has succeeded.\<close>

lemma successes_state:
  assumes c: "sane_config c" and r: "pool_reach hw c evs s ws" and d: "distinct ids"
  shows "successes ids evs = length (filter (\<lambda>i. pool_state_of s i = Some Succeeded) ids)"
proof -
  have acc: "accept (pool_deps s) all_queued evs = Some (pool_view s)"
    using pool_reach_simulates [OF c r agrees_pool_deps] .
  have view: "pool_state_of s (ev_task ev) = Some (ev_state ev)"
    if "ev \<in> set evs" "is_terminal (ev_state ev)" for ev
    using accept_reports_end [OF acc that] that(2)
    by (auto simp: pool_view_def pool_state_of_def phase_of_def all_queued_def split: option.splits if_splits)
  have "length (filter (\<lambda>ev. ev_task ev = i \<and> ev_state ev = Succeeded) evs) =
      (if pool_state_of s i = Some Succeeded then 1 else 0)" for i
  proof (cases "pool_state_of s i = Some Succeeded")
    case True
    have "filter (\<lambda>ev. ev_task ev = i \<and> ev_state ev = Succeeded) evs =
        filter (\<lambda>ev. ev_task ev = i \<and> is_terminal (ev_state ev)) evs"
      using view True by (intro filter_cong) auto
    with True pool_reach_reported [OF c r, of i] show ?thesis
      by (auto simp: end_events_def ended_def pool_state_of_def)
  next
    case False
    with view have "filter (\<lambda>ev. ev_task ev = i \<and> ev_state ev = Succeeded) evs = []"
      by (fastforce simp: filter_empty_conv)
    with False show ?thesis by simp
  qed
  then have "successes ids evs = (\<Sum>i\<leftarrow>ids. if pool_state_of s i = Some Succeeded then 1 else 0)"
    unfolding successes_def successes_sum [OF d] by (simp only:)
  then show ?thesis by (simp only: filter_indicator)
qed

section \<open>The invariant of the application\<close>

text \<open>The pool is in a run without pauses that brought \<open>evs\<close>, its tasks are \<open>ids\<close>, and the window was told
  of every success that is neither in flight nor lost.\<close>

definition follows ::
  "int \<Rightarrow> scheduler_config \<Rightarrow> string \<Rightarrow> string list \<Rightarrow> nat \<Rightarrow> system \<Rightarrow> state_event list \<Rightarrow>
   ui_signal list \<Rightarrow> bool" where
  "follows hw c tr ids lost x evs sigs \<longleftrightarrow> serene hw c evs (app_sched (sys_app x)) (sys_jobs x) \<and>
     node_order (app_sched (sys_app x)) = ids \<and> length (sys_flights x) = length (sys_jobs x) \<and>
     (\<exists>k. tracks tr ids k sigs (sys_app x) \<and> k + successes ids (concat (sys_flights x)) + lost = successes ids evs)"

lemma successes_update:
  assumes "k < length fs"
  shows "successes ids (concat (fs[k := f])) + successes ids (fs ! k) = successes ids (concat fs) + successes ids f"
proof -
  have fs: "fs = take k fs @ fs ! k # drop (Suc k) fs" using assms by (rule id_take_nth_drop)
  have "fs[k := f] = take k fs @ f # drop (Suc k) fs" using assms by (rule upd_conv_take_nth_drop)
  moreover have "concat fs = concat (take k fs) @ fs ! k @ concat (drop (Suc k) fs)"
    by (subst fs) simp
  ultimately show ?thesis by (simp add: successes_append)
qed

lemma serene_reach:
  assumes "sane_config c" "serene hw c evs s jobs"
  shows "pool_reach hw c evs s (hands jobs)" "distinct (node_order s)"
  using assms reach_parts(8) [OF assms(1)] by (auto simp: serene_def wf_index_def)

lemma serene_successes:
  assumes "sane_config c" "serene hw c evs s jobs"
  shows "successes (node_order s) evs = length (filter (\<lambda>i. pool_state_of s i = Some Succeeded) (node_order s))"
  using successes_state [OF assms(1) serene_reach [OF assms]] .

lemma successes_le:
  assumes "sane_config c" "serene hw c evs s jobs" "node_order s = ids"
  shows "successes ids evs \<le> length ids"
  using serene_successes [OF assms(1,2)] assms(3) by (metis length_filter_le)

lemma follows_step:
  assumes c: "sane_config c" and n: "int (length ids) \<le> INT_MAX" and f: "follows hw c tr ids lost x evs sigs"
    and st: "system_step runs may dis fm x m ev new y"
  shows "follows hw c tr ids lost y (evs @ ev) (sigs @ new)"
proof -
  from f obtain k where s: "serene hw c evs (app_sched (sys_app x)) (sys_jobs x)"
    "node_order (app_sched (sys_app x)) = ids" "length (sys_flights x) = length (sys_jobs x)"
    and t: "tracks tr ids k sigs (sys_app x)" "k + successes ids (concat (sys_flights x)) + lost = successes ids evs"
    by (auto simp: follows_def)
  show ?thesis
    using st
  proof (cases rule: system_step.cases)
    case (system_work j s' jobs')
    from worker_step_crew [OF system_work(3)] have cs: "crew_step runs (app_sched (sys_app x)) (sys_jobs x) m ev s' jobs'"
      and j: "j < length (sys_flights x)" using s(3) by simp_all
    note s1 = serene_crew_step [OF c s(1) cs]
    have "tracks tr ids k (sigs @ []) ((sys_app x)\<lparr>app_sched := s'\<rparr>)"
      by (rule tracks_cong [OF t(1)]) (simp_all add: finishes_def)
    moreover have "k + successes ids (concat ((sys_flights x)[j := ev])) + lost = successes ids (evs @ ev)"
      using successes_update [OF j, of ids ev] system_work(4) t(2) by (simp add: successes_append successes_def)
    ultimately show ?thesis
      using s1 s(2,3) crew_step_length [OF cs] system_work(1,2) by (auto simp: follows_def)
  next
    case (system_deliver j e rest)
    have sum: "successes ids (concat ((sys_flights x)[j := rest])) + successes ids [e] = successes ids (concat (sys_flights x))"
      using successes_update [OF system_deliver(5), of ids rest] successes_append [of ids "[e]" rest] system_deliver(6)
      by simp
    have "k + successes ids [e] \<le> length ids" using successes_le [OF c s(1,2)] t(2) sum by simp
    from tracks_event [OF t(1) this n] sum t(2) s
    have "\<exists>l. tracks tr ids l sigs (deliver_to_app [e] (sys_app x)) \<and>
        l + successes ids (concat ((sys_flights x)[j := rest])) + lost = successes ids evs"
      by (intro exI [of _ "k + successes ids [e]"]) simp
    moreover have "app_sched (deliver_to_app [e] (sys_app x)) = app_sched (sys_app x)"
      by (simp add: deliver_to_app_def split: prod.splits)
    ultimately show ?thesis using s system_deliver(2-4) by (auto simp: follows_def)
  next
    case (system_act act now a')
    have u: "unpaused (app_sched (sys_app x))" using s(1) by (simp add: serene_def)
    obtain "is" where "cancel_all pool_cancel now (app_sched (sys_app x)) is = (app_sched a', ev)"
      using act_pool [OF u system_act(5-7)] system_act(2) by blast
    note s1 = serene_cancel_all [OF s(1) this]
    have "successes ids (evs @ ev) \<le> length ids" using successes_le [OF c conjunct1 [OF s1]] s1 s(2) by simp
    with t(2) have "k + successes ids ev \<le> length ids" by (simp add: successes_append)
    from tracks_act [OF t(1) system_act(6) _ n system_act(7)] this system_act(2)
    have "tracks tr ids (k + successes ids ev) (sigs @ new) a'" by simp
    with s1 s t(2) system_act(3) show ?thesis
      by (auto simp: follows_def successes_append intro!: exI [of _ "k + successes ids ev"])
  qed
qed

lemma follows_run:
  assumes "sane_config c" "int (length ids) \<le> INT_MAX" "system_run runs may dis fm x m ev new y"
    and "follows hw c tr ids lost x evs sigs"
  shows "follows hw c tr ids lost y (evs @ ev) (sigs @ new)"
  using assms(3,4)
proof (induction rule: system_run.induct)
  case (system_next x m evs1 sigs1 y k ev2 new2 z)
  from follows_step [OF assms(1,2) system_next.IH [OF system_next.prems] system_next.hyps(2)] show ?case by simp
qed simp

text \<open>The window reflects the pool.\<close>

lemma follows_busy:
  assumes c: "sane_config c" and f: "follows hw c tr ids lost x evs sigs"
    and i: "i \<in> set ids" "pool_state_of (app_sched (sys_app x)) i \<noteq> Some Succeeded"
  shows "busy (app_ui (sys_app x)) \<and> output_path (app_ui (sys_app x)) = [] \<and>
    (\<forall>ok path. Generation_completed ok path \<notin> set sigs)"
proof -
  from f obtain k where s: "serene hw c evs (app_sched (sys_app x)) (sys_jobs x)"
    "node_order (app_sched (sys_app x)) = ids"
    and t: "tracks tr ids k sigs (sys_app x)" "k + successes ids (concat (sys_flights x)) + lost = successes ids evs"
    by (auto simp: follows_def)
  have "successes ids evs < length ids"
    using serene_successes [OF c s(1)] s(2) length_filter_less [OF i(1), of "\<lambda>i. pool_state_of (app_sched (sys_app x)) i = Some Succeeded"] i(2)
    by simp
  with t(2) have "k < length ids" by simp
  from tracks_busy [OF t(1) this] show ?thesis .
qed

text \<open>A window that has missed a success is busy for ever.\<close>

lemma follows_lost:
  assumes c: "sane_config c" and f: "follows hw c tr ids lost x evs sigs" and l: "0 < lost"
  shows "busy (app_ui (sys_app x)) \<and> output_path (app_ui (sys_app x)) = [] \<and>
    (\<forall>ok path. Generation_completed ok path \<notin> set sigs)"
proof -
  from f obtain k where s: "serene hw c evs (app_sched (sys_app x)) (sys_jobs x)"
    "node_order (app_sched (sys_app x)) = ids"
    and t: "tracks tr ids k sigs (sys_app x)" "k + successes ids (concat (sys_flights x)) + lost = successes ids evs"
    by (auto simp: follows_def)
  from successes_le [OF c s] t(2) l have "k < length ids" by simp
  from tracks_busy [OF t(1) this] show ?thesis .
qed

lemma follows_done:
  assumes c: "sane_config c" and f: "follows hw c tr ids 0 x evs sigs"
    and all: "\<And>i. i \<in> set ids \<Longrightarrow> pool_state_of (app_sched (sys_app x)) i = Some Succeeded"
    and idle: "concat (sys_flights x) = []" "app_posted (sys_app x) = []"
  shows "shows_success (app_ui (sys_app x)) sigs"
proof -
  from f obtain k where s: "serene hw c evs (app_sched (sys_app x)) (sys_jobs x)"
    "node_order (app_sched (sys_app x)) = ids"
    and t: "tracks tr ids k sigs (sys_app x)" "k + successes ids (concat (sys_flights x)) = successes ids evs"
    by (auto simp: follows_def)
  have "filter (\<lambda>i. pool_state_of (app_sched (sys_app x)) i = Some Succeeded) ids = ids"
    using all by (simp add: filter_id_conv)
  with serene_successes [OF c s(1)] s(2) t(2) idle(1) have "k = length ids" by (simp add: successes_def)
  from tracks_done [OF t(1) [unfolded this] idle(2)] show ?thesis .
qed

section \<open>Runs of the parts are runs of the application\<close>

lemma system_run_trans:
  "system_run runs may dis fm y k ev new z \<Longrightarrow> system_run runs may dis fm x m evs sigs y \<Longrightarrow>
    system_run runs may dis fm x (m + k) (evs @ ev) (sigs @ new) z"
proof (induction rule: system_run.induct)
  case (system_next y k ev new z l ev2 new2 u)
  from system_run.system_next [OF system_next.IH [OF system_next.prems] system_next.hyps(2)] show ?case
    by (simp add: add.assoc)
qed simp

lemma system_run_step: "system_step runs may dis fm x m ev new y \<Longrightarrow> system_run runs may dis fm x m ev new y"
  using system_next [OF system_here] by fastforce

lemma crew_step_worker:
  "crew_step runs s jobs m ev s' jobs' \<Longrightarrow> \<exists>k < length jobs. worker_step runs k s jobs m ev s' jobs'"
  by (induction rule: crew_step.induct) (blast intro: worker_step.intros)+

lemma deliver_to_app_sched [simp]:
  "(deliver_to_app evs a)\<lparr>app_sched := s\<rparr> = deliver_to_app evs (a\<lparr>app_sched := s\<rparr>)"
  "app_sched (deliver_to_app evs a) = app_sched a"
  by (simp_all add: deliver_to_app_def split: prod.splits)

lemma deliver_to_app_append: "deliver_to_app (xs @ ys) a = deliver_to_app ys (deliver_to_app xs a)"
  by (simp add: deliver_to_app_def deliver_append split: prod.splits)

lemma deliver_to_app_nil [simp]: "deliver_to_app [] a = a"
  by (simp add: deliver_to_app_def)

lemma system_land:
  assumes "k < length (sys_flights x)" "sys_flights x ! k = evs"
  shows "system_run runs may dis fm x 0 [] []
    (x\<lparr>sys_app := deliver_to_app evs (sys_app x), sys_flights := (sys_flights x)[k := []]\<rparr>)"
  using assms
proof (induction evs arbitrary: x)
  case Nil
  then have "x\<lparr>sys_app := deliver_to_app [] (sys_app x), sys_flights := (sys_flights x)[k := []]\<rparr> = x"
    by (metis (no_types, lifting) deliver_to_app_nil list_update_id system.surjective system.update_convs(1,3))
  with system_here [of runs may dis fm x] show ?case by simp
next
  case (Cons ev evs)
  let ?y = "x\<lparr>sys_app := deliver_to_app [ev] (sys_app x), sys_flights := (sys_flights x)[k := evs]\<rparr>"
  have "system_run runs may dis fm x 0 [] [] ?y"
    by (rule system_run_step [OF system_deliver [OF Cons.prems]])
  with system_run_trans [OF Cons.IH [of ?y] this] Cons.prems(1) show ?case
    by (simp add: deliver_to_app_Cons [of ev evs])
qed

lemma crew_system:
  assumes "crew_run runs s jobs m evs s' jobs'"
  shows "system_run runs may dis fm
    \<lparr>sys_app = a\<lparr>app_sched := s\<rparr>, sys_jobs = jobs, sys_flights = replicate (length jobs) []\<rparr> m evs []
    \<lparr>sys_app = deliver_to_app evs (a\<lparr>app_sched := s'\<rparr>), sys_jobs = jobs', sys_flights = replicate (length jobs) []\<rparr>
    \<and> length jobs' = length jobs"
  using assms
proof (induction rule: crew_run.induct)
  case (crew_here s jobs)
  then show ?case by (simp add: system_here)
next
  case (crew_next s jobs m evs s1 jobs1 k ev s2 jobs2)
  let ?y = "\<lparr>sys_app = deliver_to_app evs (a\<lparr>app_sched := s1\<rparr>), sys_jobs = jobs1, sys_flights = replicate (length jobs) []\<rparr>"
  obtain j where j: "j < length jobs1" "worker_step runs j s1 jobs1 k ev s2 jobs2"
    using crew_step_worker [OF crew_next.hyps(2)] by blast
  let ?z = "\<lparr>sys_app = (sys_app ?y)\<lparr>app_sched := s2\<rparr>, sys_jobs = jobs2, sys_flights = (sys_flights ?y)[j := ev]\<rparr>"
  have "system_step runs may dis fm ?y k ev [] ?z"
    by (rule system_work) (use j crew_next.IH in simp_all)
  note to_z = system_run_trans [OF system_run_step [OF this] conjunct1 [OF crew_next.IH]]
  have len: "j < length (sys_flights ?z)" "sys_flights ?z ! j = ev" using j(1) crew_next.IH by simp_all
  have "(replicate (length jobs) ([] :: state_event list))[j := []] = replicate (length jobs) []"
    using j(1) crew_next.IH by (metis list_update_id nth_replicate)
  with system_run_trans [OF system_land [OF len] to_z] crew_next.IH crew_step_length [OF crew_next.hyps(2)]
  show ?case by (simp add: deliver_to_app_append)
qed

lemma system_shows:
  assumes "may Show_next" "app_run pool_ops dis fm (replicate j (now, Show_next)) (sys_app x) = (a', sigs, evs)"
  shows "system_run runs may dis fm x 0 [] sigs (x\<lparr>sys_app := a'\<rparr>)"
  using assms(2)
proof (induction j arbitrary: x sigs evs)
  case 0
  then show ?case using system_here [of runs may dis fm x] by (cases x) simp
next
  case (Suc j)
  obtain a1 g1 where one: "app_act pool_ops dis fm now Show_next (sys_app x) = (a1, g1)" by fastforce
  obtain g2 ev2 where two: "app_run pool_ops dis fm (replicate j (now, Show_next)) a1 = (a', g2, ev2)" "sigs = g1 @ g2"
    using Suc.prems one by (auto split: prod.splits)
  have "system_step runs may dis fm x 0 (busy_events pool_ops now Show_next (sys_app x)) g1 (x\<lparr>sys_app := a1\<rparr>)"
    by (rule system_act [where act = Show_next and x = x and may = may, OF assms(1) _ _ one]) simp_all
  from system_run_trans [OF Suc.IH [of "x\<lparr>sys_app := a1\<rparr>"] system_run_step [OF this]] two show ?case by simp
qed

end
