(* ===== verification/App_Outcome.thy ===== *)
theory App_Outcome
  imports App_System
begin

text \<open>
  How a generation ends, in any interleaving of the window's thread and the workers, after a start in
  which the workers take nothing before the workflow is registered: once it was canceled, or with the
  server stages, the window never shows a result.
\<close>

section \<open>The start\<close>

lemma system_start:
  assumes c: "sane_config c" "roomy (normalize_config hw c)" and n: "n + 2 \<le> INT_MAX"
    and g: "start_generation pool_ops dis now story style n (create_app fac (create_pool hw c h)) = (a, sigs1)"
    and busy: "busy (app_ui a)"
  obtains tr ids evs1 where
    "follows hw c tr ids 0 (system_of a) evs1 []" "length ids = nat (n + 2)" "int (length ids) \<le> INT_MAX"
    "0 < length ids" "tr \<noteq> []" "only_ready evs1" "healthy (app_sched a)"
    "every_node (engine_node fac) (app_sched a)"
    "sys_jobs (system_of a) = replicate (nat (worker_count (config (app_sched a)))) None"
proof -
  let ?k = "nat (worker_count (normalize_config hw c))"
  obtain w evs1 where
    w: "active_workflows (app_engine a) = [w]" "completion_cb (app_engine a) = Some 0" "wf_completed w = 0"
      "wf_total w = n + 2" "length (wf_tasks w) = nat (n + 2)" "0 < n" "app_posted a = []" "output_path (app_ui a) = []"
      "wf_trace w = current_trace_id (app_ui a)" "current_trace_id (app_ui a) \<noteq> []"
    and took: "pool_reach hw c evs1 (app_sched a) (hands (replicate ?k None))" "healthy (app_sched a)" "only_ready evs1"
      "node_order (app_sched a) = wf_tasks w" "every_node (engine_node fac) (app_sched a)" "unpaused (app_sched a)"
    by (rule generation_taken [OF c n g busy hands_simps(4)])
  have cfg: "config (app_sched a) = normalize_config hw c" using reach_frame [OF c(1) took(1)] by simp
  have len: "int (length (wf_tasks w)) = n + 2" using w(5,6) by simp
  have none: "successes (wf_tasks w) evs1 = 0"
    using took(3) by (auto simp: successes_def only_ready_def list_all_iff filter_empty_conv)
  have "tracks (wf_trace w) (wf_tasks w) 0 [] a"
    using w len busy by (auto simp: tracks_def counts_def quiet_def finishes_def)
  moreover have "serene hw c evs1 (app_sched a) (replicate ?k None)"
    using took only_ready_facts by (simp add: serene_def)
  ultimately have "follows hw c (wf_trace w) (wf_tasks w) 0 (system_of a) evs1 []"
    using took(4) none by (auto simp: follows_def system_of_def cfg Let_def successes_def)
  with that w(5,6,9,10) len n took(2,3,5) show thesis by (simp add: system_of_def Let_def)
qed

section \<open>What a run keeps\<close>

lemma cancel_all_calm: "cancel_all pool_cancel now s is = (s', ev) \<Longrightarrow> calm s s' \<and> crew_work s' \<le> crew_work s"
proof (induction "is" arbitrary: s ev)
  case (Cons i "is")
  obtain s1 ev1 r where one: "pool_cancel now s i = (s1, ev1, r)" by (metis prod_cases3)
  obtain s2 ev2 where two: "cancel_all pool_cancel now s1 is = (s2, ev2)" by fastforce
  have "crew_work s1 \<le> crew_work s"
    using cancel_serene [OF one] by (simp add: crew_work_def sum_list_mono)
  with Cons.IH [of s1 ev2] calm_cancel [OF one] Cons.prems one two
  show ?case by (auto intro: calm_trans)
qed simp

lemma system_step_keeps:
  assumes c: "sane_config c" and f: "follows hw c tr ids lost x evs sigs" and st: "system_step runs may dis fm x m ev new y"
  shows "absorbing (app_sched (sys_app x)) (app_sched (sys_app y)) \<and>
    m + crew_work (app_sched (sys_app y)) \<le> crew_work (app_sched (sys_app x))"
proof -
  from f have s: "serene hw c evs (app_sched (sys_app x)) (sys_jobs x)" by (simp add: follows_def)
  then have r: "pool_reach hw c evs (app_sched (sys_app x)) (hands (sys_jobs x))" "pause_free evs"
    "unpaused (app_sched (sys_app x))" by (simp_all add: serene_def)
  show ?thesis
    using st
  proof (cases rule: system_step.cases)
    case (system_work j s' jobs')
    then have cs: "crew_step runs (app_sched (sys_app x)) (sys_jobs x) m ev s' jobs'"
      using worker_step_crew by blast
    from absorbing_step [OF conjunct1 [OF crew_step_moves [OF c r cs]] pool_reach_inv [OF c r(1)]]
      crew_step_work [OF c r cs] system_work(2) show ?thesis by simp
  next
    case (system_deliver j e rest)
    then show ?thesis by (simp add: deliver_to_app_def absorbing_def split: prod.splits)
  next
    case (system_act act now a')
    with act_pool [OF r(3) system_act(5-7)] cancel_all_calm absorbing_calm show ?thesis by fastforce
  qed
qed

lemma system_run_keeps:
  assumes c: "sane_config c" and n: "int (length ids) \<le> INT_MAX" and run: "system_run runs may dis fm x m ev new y"
    and f: "follows hw c tr ids lost x evs sigs"
  shows "absorbing (app_sched (sys_app x)) (app_sched (sys_app y)) \<and>
    m + crew_work (app_sched (sys_app y)) \<le> crew_work (app_sched (sys_app x))"
  using run f
proof (induction rule: system_run.induct)
  case (system_here x)
  then show ?case by (simp add: absorbing_def)
next
  case (system_next x m evs1 sigs1 y k ev2 new2 z)
  from system_step_keeps [OF c follows_run [OF c n system_next.hyps(1) system_next.prems] system_next.hyps(2)]
    system_next.IH [OF system_next.prems] show ?case by (auto intro: absorbing_trans)
qed

text \<open>What a crew property gives of a run of the application, if the actions of the window keep it.\<close>

context crew_property
begin

lemma keeps_system_run:
  assumes c: "sane_config c" and n: "int (length ids) \<le> INT_MAX"
    and acts: "\<And>act now a a' sigs. may act \<Longrightarrow> window_action act \<Longrightarrow> clicks act \<longrightarrow> busy (app_ui a) \<Longrightarrow>
      unpaused (app_sched a) \<Longrightarrow> app_act pool_ops dis fm now act a = (a', sigs) \<Longrightarrow>
      every_node P (app_sched a) \<Longrightarrow> every_node P (app_sched a')"
    and run: "system_run runs may dis fm x m ev new y" and f: "follows hw c tr ids lost x evs sigs"
    and p: "every_node P (app_sched (sys_app x))" "\<forall>d. Some d \<in> set (sys_jobs x) \<longrightarrow> J d"
  shows "every_node P (app_sched (sys_app y)) \<and> (\<forall>d. Some d \<in> set (sys_jobs y) \<longrightarrow> J d)"
  using run f p
proof (induction rule: system_run.induct)
  case (system_next x m evs1 sigs1 y k ev2 new2 z)
  from follows_run [OF c n system_next.hyps(1) system_next.prems(1)]
  have s: "pool_reach hw c (evs @ evs1) (app_sched (sys_app y)) (hands (sys_jobs y))" "pause_free (evs @ evs1)"
    "unpaused (app_sched (sys_app y))" by (simp_all add: follows_def serene_def)
  note y = system_next.IH [OF system_next.prems]
  show ?case
    using system_next.hyps(2)
  proof (cases rule: system_step.cases)
    case (system_work j s' jobs')
    then have "crew_step runs (app_sched (sys_app y)) (sys_jobs y) k ev2 s' jobs'"
      using worker_step_crew by blast
    from keeps_step [OF c s conjunct1 [OF y] conjunct2 [OF y] this] system_work(2) show ?thesis by simp
  next
    case (system_deliver j e rest)
    with y show ?thesis by (simp add: deliver_to_app_def split: prod.splits)
  next
    case (system_act act now a')
    with acts [OF system_act(4-6) s(3) system_act(7)] y show ?thesis by simp
  qed
qed simp

end

text \<open>Until it is canceled, the window leaves the pool alone.\<close>

definition patient :: "pool action \<Rightarrow> bool" where
  "patient act \<longleftrightarrow> act \<noteq> Click_cancel"

lemma patient_keeps:
  assumes "patient act" "window_action act" "clicks act \<longrightarrow> busy (app_ui a)" "unpaused (app_sched a)"
    and "app_act pool_ops dis fm now act a = (a', sigs)"
  shows "app_sched a' = app_sched a"
proof -
  from act_pool [OF assms(4,2,3,5)] obtain "is" where
    "cancel_all pool_cancel now (app_sched a) is = (app_sched a', busy_events pool_ops now act a)" by blast
  show ?thesis
  proof (cases act)
    case (Click_start story style n)
    with assms(3,5) show ?thesis by (auto simp: start_generation_def split: prod.splits)
  next
    case Click_cancel
    with assms(1) show ?thesis by (simp add: patient_def)
  next
    case Timer_tick
    with assms(5) unpaused_tick [OF assms(4)] show ?thesis
      by (auto simp: on_tick_def pool_ops_def deliver_to_app_def Let_def split: if_splits)
  next
    case (Worker_events s evs)
    with assms(2) show ?thesis by simp
  next
    case Show_next
    with assms(5) show ?thesis by (auto simp: run_posted_def split: list.splits prod.splits)
  qed
qed

text \<open>A barren pool stays barren when tasks are canceled.\<close>

lemma cancel_barren:
  assumes "every_node (barren_node base) s" "pool_cancel now s i = (s', ev, r)"
  shows "every_node (barren_node base) s'"
  unfolding every_node_def
proof (intro allI impI)
  fix x n'
  assume "nodes s' x = Some n'"
  from cancel_nodes [OF assms(2) this] obtain n where n: "nodes s x = Some n" "n' = n \<or> n' = clear_pause n \<or>
    (\<not> is_terminal (nstate n) \<and> n' = canceled_node now n) \<or> dep_canceled now n n'" by blast
  from assms(1) n(1) have "barren_node base n" by (simp add: every_node_def)
  with n(2) show "barren_node base n'" by (auto simp: barren_node_def clear_pause_def dest: dep_canceled_fields(1))
qed

lemma cancel_all_barren:
  "every_node (barren_node base) s \<Longrightarrow> cancel_all pool_cancel now s is = (s', ev) \<Longrightarrow> every_node (barren_node base) s'"
proof (induction "is" arbitrary: s ev)
  case (Cons i "is")
  obtain s1 ev1 r where one: "pool_cancel now s i = (s1, ev1, r)" by (metis prod_cases3)
  with Cons.IH [OF cancel_barren [OF Cons.prems(1) one]] Cons.prems(2) show ?case
    by (auto split: prod.splits)
qed simp

section \<open>A generation that was canceled\<close>

lemma ended_work:
  assumes inv: "sys_inv s (hands jobs)" and e: "all_ended s"
  shows "crew_work s \<le> length jobs"
proof -
  have ord: "distinct (node_order s)" "wf_running s"
    using inv by (simp_all add: sys_inv_def pool_inv_def pool_core_def wf_index_def)
  let ?run = "\<lambda>i. \<exists>n. nodes s i = Some n \<and> nrunning n"
  have "work_of s i = (if ?run i then 1 else 0)" for i
    using e by (auto simp: work_of_def task_work_def all_ended_def split: option.splits)
  then have "crew_work s = length (filter ?run (node_order s))"
    by (simp only: crew_work_def filter_indicator)
  also have "\<dots> = card (set (filter ?run (node_order s)))"
    by (rule distinct_card [symmetric]) (simp add: ord(1))
  also have "\<dots> \<le> card (set (running_set s))"
    using ord(2) by (intro card_mono) (auto simp: wf_running_def)
  also have "\<dots> \<le> length (running_set s)" by (rule card_length)
  also have "\<dots> \<le> length jobs"
  proof -
    have "length (Pool_Steps.busy xs) \<le> length xs" for xs by (induction xs) (auto split: option.splits)
    from this [of "hands jobs"] running_length [OF inv] show ?thesis by simp
  qed
  finally show ?thesis .
qed

lemma ended_order:
  assumes "wf_index s" "\<And>i st. i \<in> set (node_order s) \<Longrightarrow> pool_state_of s i = Some st \<Longrightarrow> is_terminal st"
  shows "all_ended s"
  using assms by (auto simp: all_ended_def pool_state_of_def wf_index_def)

lemma ended_not_pending: "all_ended s \<Longrightarrow> \<not> pool_has_pending s"
  by (auto simp: all_ended_def pool_has_pending_def list_ex_iff split: option.splits)

lemma absorbing_ended:
  assumes "absorbing s s'" "all_ended s" "wf_index s" "wf_index s'" "node_order s' = node_order s"
  shows "all_ended s'"
proof (rule ended_order [OF assms(4)])
  fix i st
  assume i: "i \<in> set (node_order s')" "pool_state_of s' i = Some st"
  with assms(3,5) obtain n where "nodes s i = Some n" by (auto simp: wf_index_def)
  with assms(2) have "pool_state_of s i = Some (nstate n)" "is_terminal (nstate n)"
    by (simp_all add: pool_state_of_def all_ended_def)
  with assms(1) i(2) show "is_terminal st" by (auto simp: absorbing_def)
qed

text \<open>The click on cancel in a window that follows its pool.\<close>

lemma cancel_click:
  assumes c: "sane_config c" and n: "int (length ids) \<le> INT_MAX" and f: "follows hw c tr ids lost x evs sigs"
    and tr: "tr \<noteq> []" and pend: "pool_has_pending (app_sched (sys_app x))"
    and click: "cancel_generation pool_ops now (sys_app x) = (a, new)"
  shows "\<exists>ev. follows hw c tr ids lost (x\<lparr>sys_app := a\<rparr>) (evs @ ev) (sigs @ new)" "all_ended (app_sched a)"
    "\<exists>i \<in> set ids. pool_state_of (app_sched a) i \<noteq> Some Succeeded"
proof -
  from f obtain k where s: "serene hw c evs (app_sched (sys_app x)) (sys_jobs x)"
    "node_order (app_sched (sys_app x)) = ids" and t: "tracks tr ids k sigs (sys_app x)"
    by (auto simp: follows_def)
  note idx = reach_parts(8) [OF c serene_reach(1) [OF c s(1)]]
  from pend s(2) obtain i m where i: "i \<in> set ids" "nodes (app_sched (sys_app x)) i = Some m" "\<not> is_terminal (nstate m)"
    by (auto simp: pool_has_pending_def list_ex_iff split: option.splits)
  then have "pool_state_of (app_sched (sys_app x)) i \<noteq> Some Succeeded" by (auto simp: pool_state_of_def)
  from follows_busy [OF c f i(1) this] have b: "busy (app_ui (sys_app x))" by simp
  from t obtain w where w: "active_workflows (app_engine (sys_app x)) = [w]" "wf_trace w = tr" "wf_tasks w = ids"
    "current_trace_id (app_ui (sys_app x)) = tr" by (auto simp: tracks_def counts_def)
  obtain p1 g1 where p1: "append_log ''Canceling workflow...'' (app_ui (sys_app x)) = (p1, g1)" by fastforce
  then have tr1: "current_trace_id p1 = tr" using w(4) by (auto simp: append_log_def)
  obtain s2 ev where all: "cancel_all pool_cancel now (app_sched (sys_app x)) ids = (s2, ev)" by fastforce
  have s2: "app_sched a = s2"
    using click b w tr p1 tr1 all
    by (auto simp: cancel_generation_def pool_ops_def cancel_workflow_def split: prod.splits)
  have "system_step r (\<lambda>act. True) dis fm x 0 (busy_events pool_ops now Click_cancel (sys_app x)) new (x\<lparr>sys_app := a\<rparr>)"
    for r dis fm by (rule system_act) (use b click in simp_all)
  from follows_step [OF c n f this] show "\<exists>ev. follows hw c tr ids lost (x\<lparr>sys_app := a\<rparr>) (evs @ ev) (sigs @ new)"
    by blast
  note s3 = serene_cancel_all [OF s(1) all]
  have idx2: "wf_index s2" using reach_parts(8) [OF c serene_reach(1) [OF c conjunct1 [OF s3]]] .
  show "all_ended (app_sched a)"
    unfolding s2
  proof (rule ended_order [OF idx2])
    fix j st
    assume "j \<in> set (node_order s2)" "pool_state_of s2 j = Some st"
    with pool_host.cancel_all_ends [OF idx all] s3 s(2) show "is_terminal st" by simp
  qed
  from changes_Some_fwd [OF conjunct1 [OF cancel_all_calm [OF all]] i(2)] obtain m' where m': "nodes s2 i = Some m'" "calm_node m m'" by blast
  from calm_nodeD [OF m'(2)] i(3) have "nstate m' \<noteq> Succeeded" by auto
  with m'(1) s2 have "pool_state_of (app_sched a) i \<noteq> Some Succeeded" by (simp add: pool_state_of_def)
  with i(1) show "\<exists>i \<in> set ids. pool_state_of (app_sched a) i \<noteq> Some Succeeded" by blast
qed

section \<open>Properties\<close>

text \<open>C19: A canceled generation never ends for the window. Whatever the stages do and whenever the user clicks on
  cancel while a task is pending: all tasks have ended at once, each worker at most returns from the
  stage it is in, and then, whatever is clicked, ticked, delivered or shown, the window stays busy,
  shows no output and never reports that the generation is over.\<close>

theorem canceled_generation_hangs:
  assumes "sane_config c" and "roomy (normalize_config hw c)" and "n + 2 \<le> INT_MAX"
    and "start_generation pool_ops dis now story style n (create_app fac (create_pool hw c h)) = (a, sigs1)"
    and "busy (app_ui a)"
    and "system_run runs (\<lambda>act. True) dis fm (system_of a) m evs sigs x"
    and "pool_has_pending (app_sched (sys_app x))"
    and "cancel_generation pool_ops later (sys_app x) = (b, sigs2)"
    and "system_run runs (\<lambda>act. True) dis fm (x\<lparr>sys_app := b\<rparr>) k evs3 sigs3 y"
  shows "\<not> pool_has_pending (app_sched b) \<and> \<not> pool_has_pending (app_sched (sys_app y)) \<and>
    k \<le> nat (worker_count (config (app_sched a))) \<and>
    busy (app_ui (sys_app y)) \<and> output_path (app_ui (sys_app y)) = [] \<and>
    (\<forall>ok path. Generation_completed ok path \<notin> set (sigs @ sigs2 @ sigs3))"
proof -
  obtain tr ids evs1 where
    f0: "follows hw c tr ids 0 (system_of a) evs1 []" and ids: "int (length ids) \<le> INT_MAX" and tr: "tr \<noteq> []"
    and idle: "sys_jobs (system_of a) = replicate (nat (worker_count (config (app_sched a)))) None"
    by (rule system_start [OF assms(1-5)])
  let ?z = "x\<lparr>sys_app := b\<rparr>"
  note f1 = follows_run [OF assms(1) ids assms(6) f0, unfolded append_Nil]
  from cancel_click [OF assms(1) ids f1 tr assms(7,8)] obtain ev i where
    f2: "follows hw c tr ids 0 ?z ((evs1 @ evs) @ ev) (sigs @ sigs2)"
    and b: "all_ended (app_sched b)" "i \<in> set ids" "pool_state_of (app_sched b) i \<noteq> Some Succeeded" by blast
  note f3 = follows_run [OF assms(1) ids assms(9) f2]
  note keeps = system_run_keeps [OF assms(1) ids assms(9) f2]
  have z: "pool_reach hw c ((evs1 @ evs) @ ev) (app_sched b) (hands (sys_jobs x))" "node_order (app_sched b) = ids"
    using f2 by (simp_all add: follows_def serene_def)
  have y: "pool_reach hw c (((evs1 @ evs) @ ev) @ evs3) (app_sched (sys_app y)) (hands (sys_jobs y))"
    "node_order (app_sched (sys_app y)) = ids"
    using f3 by (simp_all add: follows_def serene_def)
  note idx = reach_parts(8) [OF assms(1) z(1)] reach_parts(8) [OF assms(1) y(1)]
  have ended: "all_ended (app_sched (sys_app y))"
    by (rule absorbing_ended [OF _ b(1) idx]) (use keeps y(2) z(2) in simp_all)
  from b(1,2) idx(1) z(2) obtain st where "pool_state_of (app_sched b) i = Some st" "is_terminal st"
    by (auto simp: wf_index_def all_ended_def pool_state_of_def)
  with keeps b(3) have "pool_state_of (app_sched (sys_app y)) i \<noteq> Some Succeeded" by (auto simp: absorbing_def)
  note stay = follows_busy [OF assms(1) f3 b(2) this]
  have "length (sys_jobs x) = nat (worker_count (config (app_sched a)))"
    using pool_reach_inv [OF assms(1) z(1)] reach_frame [OF assms(1) z(1)] f0
      reach_frame [OF assms(1), of hw evs1 "app_sched a"]
    by (auto simp: sys_inv_def follows_def serene_def system_of_def Let_def)
  with ended_work [OF pool_reach_inv [OF assms(1) z(1)] b(1)] keeps
  have "k \<le> nat (worker_count (config (app_sched a)))" by simp
  with stay b(1) ended ended_not_pending show ?thesis by simp
qed

theorem canceled_generation_hangs_witness:
  "busy (app_ui (fst (cancel_generation pool_ops 30 (fst demo_pool_click)))) \<and>
   \<not> pool_has_pending (app_sched (fst (cancel_generation pool_ops 30 (fst demo_pool_click))))"
proof -
  obtain a sigs1 where a: "demo_pool_click = (a, sigs1)" by fastforce
  have "busy (app_ui (fst demo_pool_click))" "pool_has_pending (app_sched (fst demo_pool_click))" by code_simp+
  then have busy: "busy (app_ui a)" "pool_has_pending (app_sched (sys_app (system_of a)))"
    unfolding a fst_conv by (simp_all add: system_of_def Let_def)
  have roomy: "roomy (normalize_config 4 demo_config)" by code_simp
  have n: "(1 :: int) + 2 \<le> INT_MAX" by (simp add: INT_MAX_def)
  obtain b sigs2 where b: "cancel_generation pool_ops 30 a = (b, sigs2)" by fastforce
  then have "cancel_generation pool_ops 30 (sys_app (system_of a)) = (b, sigs2)" by (simp add: system_of_def Let_def)
  from canceled_generation_hangs [OF demo_sane roomy n a [unfolded demo_pool_click_def] busy(1) system_here busy(2)
      this system_here] b
  show ?thesis unfolding a fst_conv by simp
qed

text \<open>C18: The application as it is started never completes a generation. With settings below \<open>2^23\<close> and the
  thread-pool scheduler, whatever the server would answer: after an accepted first click, at every
  moment of every interleaving of workers, deliveries, timer, closures and clicks no task has
  succeeded, the window is busy, shows no output and has reported nothing; and when nothing is
  pending every task has failed or was canceled.\<close>

theorem server_system_stalls:
  assumes "\<And>name raw. env name = Some raw \<Longrightarrow> fst (strtol10 raw) \<le> 8388607" and "n + 2 \<le> INT_MAX"
    and "main_app hardware env h = (On_pool a0, logs)"
    and "start_generation pool_ops dis now story style n a0 = (a, sigs1)" and "busy (app_ui a)"
    and "system_run (serving http) (\<lambda>act. True) dis fm (system_of a) m evs sigs x"
  shows "length (node_order (app_sched (sys_app x))) = nat (n + 2) \<and>
    busy (app_ui (sys_app x)) \<and> output_path (app_ui (sys_app x)) = [] \<and>
    (\<forall>ok path. Generation_completed ok path \<notin> set sigs) \<and>
    (\<forall>i \<in> set (node_order (app_sched (sys_app x))). \<exists>st. pool_state_of (app_sched (sys_app x)) i = Some st \<and>
       st \<noteq> Succeeded \<and> (\<not> pool_has_pending (app_sched (sys_app x)) \<longrightarrow> st = Failed \<or> st = Canceled))"
proof -
  let ?base = "main_api_base_url env" and ?s = "app_sched (sys_app x)"
  obtain c where a0: "a0 = create_app (factory_create_stage ?base) (create_pool hardware c h)"
    and c: "sane_config c" "roomy (normalize_config hardware c)"
    by (rule main_app_pool [OF assms(3,1)])
  obtain tr ids evs1 where
    f0: "follows hardware c tr ids 0 (system_of a) evs1 []"
    and ids: "length ids = nat (n + 2)" "int (length ids) \<le> INT_MAX" "0 < length ids"
    and new: "every_node (engine_node (factory_create_stage ?base)) (app_sched a)"
    and idle: "sys_jobs (system_of a) = replicate (nat (worker_count (config (app_sched a)))) None"
    by (rule system_start [OF c assms(2) assms(4) [unfolded a0] assms(5)])
  have a: "sys_app (system_of a) = a" by (simp add: system_of_def Let_def)
  note f = follows_run [OF c(1) ids(2) assms(6) f0, unfolded append_Nil]
  have ord: "node_order ?s = ids" "wf_index ?s"
    using f reach_parts(8) [OF c(1)] by (auto simp: follows_def serene_def)
  have start: "every_node (barren_node ?base) (app_sched (sys_app (system_of a)))"
    using new a by (auto simp: every_node_def barren_node_def engine_node_def)
  have acts: "every_node (barren_node ?base) (app_sched b')"
    if "window_action act" "clicks act \<longrightarrow> busy (app_ui b)" "unpaused (app_sched b)"
      "app_act pool_ops dis fm t act b = (b', g)" "every_node (barren_node ?base) (app_sched b)" for act t b b' g
    using act_pool [OF that(3,1,2,4)] cancel_all_barren [OF that(5)] by blast
  have none: "every_node (barren_node ?base) ?s"
    by (rule barren_crew.keeps_system_run [OF c(1) ids(2) _ assms(6) f0 start, THEN conjunct1])
       (use acts idle in auto)
  have state: "\<exists>st. pool_state_of ?s i = Some st \<and> st \<noteq> Succeeded \<and>
      (\<not> pool_has_pending ?s \<longrightarrow> st = Failed \<or> st = Canceled)" if i: "i \<in> set ids" for i
  proof -
    from i ord obtain k where k: "nodes ?s i = Some k" by (auto simp: wf_index_def)
    with none have "nstate k \<noteq> Succeeded" by (auto simp: every_node_def barren_node_def)
    moreover from this have "nstate k = Failed \<or> nstate k = Canceled" if "\<not> pool_has_pending ?s"
      using that k i ord(1) by (cases "nstate k") (auto simp: pool_has_pending_def list_ex_iff)
    ultimately show ?thesis using k by (auto simp: pool_state_of_def)
  qed
  from ids(3) have first: "hd ids \<in> set ids" by simp
  from state [OF this] have "pool_state_of ?s (hd ids) \<noteq> Some Succeeded" by auto
  from follows_busy [OF c(1) f first this] state ord(1) ids(1) show ?thesis by simp
qed

theorem server_system_stalls_witness:
  "\<exists>m evs x. system_run (serving unreached) (\<lambda>act. True) demo_rng plain_format (system_of (fst main_click)) m evs [] x \<and>
     \<not> pool_has_pending (app_sched (sys_app x)) \<and> busy (app_ui (sys_app x))"
proof -
  let ?c = "fst (build_scheduler_config True 4 Map.empty)"
  let ?crew = "replicate (nat (worker_count (normalize_config 4 ?c))) (None :: dispatch option)"
  obtain a sigs1 where a: "main_click = (a, sigs1)" by fastforce
  have "busy (app_ui (fst main_click))" by code_simp
  then have busy: "busy (app_ui a)" unfolding a fst_conv .
  have "snd (build_scheduler_config True 4 Map.empty) = []" by code_simp
  then have m: "main_app 4 Map.empty empty_heap = (On_pool main_demo, [])"
    by (auto simp: main_app_def main_demo_def choose_scheduler_def Let_def split: prod.splits)
  have small: "fst (strtol10 raw) \<le> 8388607" if "Map.empty name = Some raw" for name :: string and raw
    using that by simp
  have n: "(1 :: int) + 2 \<le> INT_MAX" by (simp add: INT_MAX_def)
  have cfg: "sane_config ?c" "roomy (normalize_config 4 ?c)" by code_simp+
  note g = a [unfolded main_click_def]
  obtain tr ids evs1 where start: "follows 4 ?c tr ids 0 (system_of a) evs1 []"
    by (rule system_start [OF cfg n g [unfolded main_demo_def] busy])
  then have r: "pool_reach 4 ?c evs1 (app_sched a) (hands (sys_jobs (system_of a)))" "pause_free evs1"
    "unpaused (app_sched a)" by (simp_all add: follows_def serene_def system_of_def Let_def)
  have "config (app_sched a) = normalize_config 4 ?c" using reach_frame [OF cfg(1) r(1)] by simp
  then have sys: "system_of a = \<lparr>sys_app = a, sys_jobs = ?crew, sys_flights = replicate (length ?crew) []\<rparr>"
    by (simp add: system_of_def Let_def)
  with r have s: "pool_reach 4 ?c evs1 (app_sched a) (hands ?crew)" "pause_free evs1" "unpaused (app_sched a)"
    by simp_all
  obtain s' evs where w: "main_work = (s', evs)" by fastforce
  then have al: "worker_alone unreached_exec [(10, 20), (30, 40), (50, 60)] (app_sched a) = (s', evs)"
    unfolding main_work_def a fst_conv .
  have "\<not> pool_has_pending (fst main_work)" by code_simp
  then have e: "\<not> pool_has_pending s'" unfolding w fst_conv .
  have k: "0 < length ?crew" "?crew ! 0 = None" by code_simp+
  from crew_alone [where runs = "serving unreached" and exec = unreached_exec, OF cfg(1) s k unreached_serves al]
  obtain l where crew: "crew_run (serving unreached) (app_sched a) ?crew l evs s' ?crew" by blast
  let ?y = "\<lparr>sys_app = deliver_to_app evs (a\<lparr>app_sched := s'\<rparr>), sys_jobs = ?crew,
    sys_flights = replicate (length ?crew) []\<rparr>"
  have run: "system_run (serving unreached) (\<lambda>act. True) demo_rng plain_format (system_of a) l evs [] ?y"
    using crew_system [OF crew, of "\<lambda>act. True" demo_rng plain_format a] by (simp add: sys)
  from server_system_stalls [OF small n m g busy run] have "busy (app_ui (sys_app ?y))" by blast
  with run e show ?thesis
    unfolding a fst_conv by (intro exI [of _ l] exI [of _ evs] exI [of _ ?y]) simp
qed

end
