(* ===== verification/App_Race.thy ===== *)
theory App_Race
  imports App_Outcome
begin

text \<open>
  The start while the workers run. \<open>start_workflow\<close> submits its tasks one by one; each submission
  releases the mutex and wakes the workers, and only after the last one the workflow is registered.
  The shop is the pool with its workers and the events they have not delivered yet; between two
  submissions, and between the last one and the registration, it does any number of steps. The engine
  knows no workflow for what is delivered then and drops it.
\<close>

section \<open>The shop\<close>

record shop =
  shop_pool :: pool
  shop_jobs :: crew
  shop_flights :: "state_event list list"

definition open_shop :: "int \<Rightarrow> scheduler_config \<Rightarrow> token_heap \<Rightarrow> shop" where
  "open_shop hw c h =
     (let k = nat (worker_count (normalize_config hw c))
      in \<lparr>shop_pool = create_pool hw c h, shop_jobs = replicate k None, shop_flights = replicate k []\<rparr>)"

text \<open>A step with what it counts, the events of the pool, and the events that are delivered.\<close>

inductive shop_step ::
  "behaviour \<Rightarrow> shop \<Rightarrow> nat \<Rightarrow> state_event list \<Rightarrow> state_event list \<Rightarrow> shop \<Rightarrow> bool" for runs where
  shop_work: "worker_step runs k (shop_pool f) (shop_jobs f) m evs s' jobs' \<Longrightarrow> shop_flights f ! k = [] \<Longrightarrow>
    shop_step runs f m evs []
      \<lparr>shop_pool = s', shop_jobs = jobs', shop_flights = (shop_flights f)[k := evs]\<rparr>"
| shop_deliver: "k < length (shop_flights f) \<Longrightarrow> shop_flights f ! k = ev # evs \<Longrightarrow>
    shop_step runs f 0 [] [ev] (f\<lparr>shop_flights := (shop_flights f)[k := evs]\<rparr>)"

inductive shop_run ::
  "behaviour \<Rightarrow> shop \<Rightarrow> nat \<Rightarrow> state_event list \<Rightarrow> state_event list \<Rightarrow> shop \<Rightarrow> bool" for runs where
  shop_here: "shop_run runs f 0 [] [] f"
| shop_next: "shop_run runs f m evs dl f1 \<Longrightarrow> shop_step runs f1 k ev d f2 \<Longrightarrow>
    shop_run runs f (m + k) (evs @ ev) (dl @ d) f2"

text \<open>What the workers do after a submission is a function of the shop, each of whose values is a run.\<close>

type_synonym shop_work = "shop \<Rightarrow> shop \<times> state_event list"

definition works :: "behaviour \<Rightarrow> shop_work \<Rightarrow> bool" where
  "works runs work \<longleftrightarrow> (\<forall>f f' dl. work f = (f', dl) \<longrightarrow> (\<exists>m evs. shop_run runs f m evs dl f'))"

definition shop_submit :: "shop_work \<Rightarrow> shop submit_op" where
  "shop_submit work now f t stg =
     (case pool_submit now (shop_pool f) t stg of
        (s1, ev1, r) \<Rightarrow> (case work (f\<lparr>shop_pool := s1\<rparr>) of (f', dl) \<Rightarrow> (f', ev1 @ dl, r)))"

definition shop_cancel :: "shop cancel_op" where
  "shop_cancel now f i = (case pool_cancel now (shop_pool f) i of (s1, evs, r) \<Rightarrow> (f\<lparr>shop_pool := s1\<rparr>, evs, r))"

definition shop_alloc :: "shop \<Rightarrow> shop \<times> nat" where
  "shop_alloc f = (case pool_alloc (shop_pool f) of (s1, a) \<Rightarrow> (f\<lparr>shop_pool := s1\<rparr>, a))"

definition shop_ops :: "shop_work \<Rightarrow> shop host_ops" where
  "shop_ops work = \<lparr>op_submit = shop_submit work, op_cancel = shop_cancel, op_alloc = shop_alloc,
     op_tick = \<lambda>now f. (case pool_tick now (shop_pool f) of (s, evs) \<Rightarrow> (f\<lparr>shop_pool := s\<rparr>, evs)),
     op_pending = \<lambda>f. pool_has_pending (shop_pool f)\<rparr>"

text \<open>The application that goes on from the shop.\<close>

definition system_at :: "shop app \<Rightarrow> system" where
  "system_at a = \<lparr>sys_app = \<lparr>app_ui = app_ui a, app_engine = app_engine a, app_sched = shop_pool (app_sched a),
     app_posted = app_posted a\<rparr>, sys_jobs = shop_jobs (app_sched a), sys_flights = shop_flights (app_sched a)\<rparr>"

text \<open>A success that was delivered already.\<close>

definition missed :: "shop \<Rightarrow> string \<Rightarrow> bool" where
  "missed f i \<longleftrightarrow> pool_state_of (shop_pool f) i = Some Succeeded \<and>
     (\<forall>ev \<in> set (concat (shop_flights f)). ev_task ev = i \<longrightarrow> ev_state ev \<noteq> Succeeded)"

section \<open>What the shop keeps\<close>

lemma submit_order:
  assumes sub: "pool_submit now s t stg = (s', evs, Inr u)" and f: "fresh_task t"
  shows "node_order s' = node_order s @ [task_id t]"
  using sub fresh_queued [OF f] by (cases rule: pool_submit_outcome) (simp_all add: emplace_node_def)

lemma crew_step_edges:
  assumes c: "sane_config c" and s: "serene hw c evs s jobs" and st: "crew_step runs s jobs m ev s' jobs'"
  shows "successors s' = successors s"
proof -
  from s have r: "pool_reach hw c evs s (hands jobs)" "pause_free evs" by (simp_all add: serene_def)
  show ?thesis
    using st
  proof (cases rule: crew_step.cases)
    case (crew_begin k now d)
    from begun_node [OF c r(1) crew_begin(5)] show ?thesis by (metis dispatched_simps(4))
  next
    case (crew_report k d now p b)
    from calm_checkpoint [OF crew_report(5)] show ?thesis by (simp add: changes_def)
  next
    case (crew_finish k d ctx ps res now)
    obtain n where n: "nodes s (dtask d) = Some n" "nrunning n" "nstate n = Running \<or> nstate n = Canceled"
      by (rule held_node [OF c r crew_finish(3,4)])
    from finalize_other(1) [OF n crew_finish(6)] show ?thesis .
  qed
qed

definition tended :: "behaviour \<Rightarrow> int \<Rightarrow> scheduler_config \<Rightarrow> state_event list \<Rightarrow> shop \<Rightarrow> bool" where
  "tended runs hw c dl f \<longleftrightarrow> tidy (shop_pool f) \<and> length (shop_flights f) = length (shop_jobs f) \<and>
     (runs = succeeding \<longrightarrow> healthy (shop_pool f)) \<and>
     (\<exists>evs. serene hw c evs (shop_pool f) (shop_jobs f) \<and>
        (\<forall>ids. successes ids dl + successes ids (concat (shop_flights f)) = successes ids evs))"

lemma tended_step:
  assumes c: "sane_config c" and t: "tended runs hw c dl f" and st: "shop_step runs f m ev d f'"
  shows "tended runs hw c (dl @ d) f' \<and> node_order (shop_pool f') = node_order (shop_pool f)"
proof -
  from t obtain evs where s: "tidy (shop_pool f)" "length (shop_flights f) = length (shop_jobs f)"
    "runs = succeeding \<longrightarrow> healthy (shop_pool f)" "serene hw c evs (shop_pool f) (shop_jobs f)"
    and bal: "\<And>ids. successes ids dl + successes ids (concat (shop_flights f)) = successes ids evs"
    by (auto simp: tended_def)
  show ?thesis
    using st
  proof (cases rule: shop_step.cases)
    case (shop_work k s' jobs')
    from worker_step_crew [OF shop_work(3)]
    have cs: "crew_step runs (shop_pool f) (shop_jobs f) m ev s' jobs'" and k: "k < length (shop_flights f)"
      using s(2) by simp_all
    note s1 = serene_crew_step [OF c s(4) cs]
    have idx: "set (node_order s') = dom (nodes s')" "set (node_order (shop_pool f)) = dom (nodes (shop_pool f))"
      using reach_parts(8) [OF c serene_reach(1) [OF c conjunct1 [OF s1]]]
        reach_parts(8) [OF c serene_reach(1) [OF c s(4)]] by (simp_all add: wf_index_def)
    have "tidy s'"
      using s(1) s1 idx crew_step_edges [OF c s(4) cs] unfolding tidy_def by (metis domIff)
    moreover have "runs = succeeding \<longrightarrow> healthy s'"
      using healthy_crew.keeps_step [of c hw evs "shop_pool f" "shop_jobs f" m ev s' jobs'] c s(3,4) cs
      by (auto simp: healthy_every serene_def)
    moreover have "successes ids (dl @ []) + successes ids (concat ((shop_flights f)[k := ev])) = successes ids (evs @ ev)" for ids
      using successes_update [OF k, of ids ev] shop_work(4) bal [of ids] by (simp add: successes_append successes_def)
    ultimately show ?thesis
      using s1 s(2) crew_step_length [OF cs] shop_work(1,2) unfolding tended_def by auto
  next
    case (shop_deliver k e rest)
    have "successes ids (dl @ [e]) + successes ids (concat ((shop_flights f)[k := rest])) = successes ids evs" for ids
      using successes_update [OF shop_deliver(5), of ids rest] successes_append [of ids "[e]" rest] bal [of ids]
        shop_deliver(6) by (simp add: successes_append)
    with s shop_deliver(1-4) show ?thesis unfolding tended_def by auto
  qed
qed

lemma tended_run:
  assumes "sane_config c" "shop_run runs f m ev d f'" "tended runs hw c dl f"
  shows "tended runs hw c (dl @ d) f' \<and> node_order (shop_pool f') = node_order (shop_pool f)"
  using assms(2,3)
proof (induction rule: shop_run.induct)
  case (shop_next f m evs d1 f1 k ev d2 f2)
  from tended_step [OF assms(1) _ shop_next.hyps(2)] shop_next.IH [OF shop_next.prems] show ?case by fastforce
qed simp

interpretation shop_chain: task_chain "shop_submit work" shop_cancel shop_alloc fac "\<lambda>f. node_order (shop_pool f)"
  "\<lambda>dl f. sane_config c \<and> roomy (normalize_config hw c) \<and> works runs work \<and> tended runs hw c dl f"
  "\<lambda>f dl f'. True" for work fac hw c runs
proof (unfold_locales, goal_cases)
  case (1 dl f t stg now f' d u)
  then have c: "sane_config c" "roomy (normalize_config hw c)" "works runs work" and t: "tended runs hw c dl f" by simp_all
  obtain s1 ev1 d1 where one: "pool_submit now (shop_pool f) t stg = (s1, ev1, Inr u)"
    "work (f\<lparr>shop_pool := s1\<rparr>) = (f', d1)" "d = ev1 @ d1"
    using 1(5) by (auto simp: shop_submit_def split: prod.splits)
  from t obtain evs where s: "tidy (shop_pool f)" "length (shop_flights f) = length (shop_jobs f)"
    "runs = succeeding \<longrightarrow> healthy (shop_pool f)" "serene hw c evs (shop_pool f) (shop_jobs f)"
    and bal: "\<And>ids. successes ids dl + successes ids (concat (shop_flights f)) = successes ids evs"
    by (auto simp: tended_def)
  note fresh = engine_task_fresh [OF 1(2)]
  note sub = engine_submits [OF c(1,2) serene_reach(1) [OF c(1) s(4)] 1(2,3) s(1) one(1)]
  have "serene hw c (evs @ ev1) s1 (shop_jobs f)"
    by (rule serene_client [OF s(4)]) (use sub submit_serene [OF one(1) fresh] in simp_all)
  moreover have "successes ids (dl @ ev1) + successes ids (concat (shop_flights f)) = successes ids (evs @ ev1)" for ids
    using bal [of ids] by (simp add: successes_append)
  ultimately have "tended runs hw c (dl @ ev1) (f\<lparr>shop_pool := s1\<rparr>)"
    using s sub submit_healthy [OF one(1) _ fresh] unfolding tended_def by auto
  moreover obtain m ev where "shop_run runs (f\<lparr>shop_pool := s1\<rparr>) m ev d1 f'" using c(3) one(2) unfolding works_def by blast
  ultimately show ?case
    using tended_run [OF c(1)] submit_order [OF one(1) fresh] c one(3) by fastforce
next
  case (2 dl f f' k)
  then obtain hp where f': "f' = f\<lparr>shop_pool := (shop_pool f)\<lparr>pool_heap := hp\<rparr>\<rparr>"
    by (auto simp: shop_alloc_def pool_alloc_def split: prod.splits)
  have "serene hw c (evs @ []) ((shop_pool f)\<lparr>pool_heap := hp\<rparr>) (shop_jobs f)"
    if "serene hw c evs (shop_pool f) (shop_jobs f)" for evs
    by (rule serene_client [OF that]) (simp_all add: step_token pause_free_def unpaused_def every_node_def)
  with 2(1) show ?case by (auto simp: f' tended_def tidy_def healthy_def)
qed simp_all

text \<open>An accepted first generation: what was delivered before the registration is lost.\<close>

lemma shop_start:
  assumes c: "sane_config c" "roomy (normalize_config hw c)" "works runs work" and n: "n + 2 \<le> INT_MAX"
    and g: "start_generation (shop_ops work) dis now story style n (create_app fac (open_shop hw c h)) = (a, sigs1)"
    and busy: "busy (app_ui a)"
  obtains tr ids dl evs1 where
    "follows hw c tr ids (successes ids dl) (system_at a) evs1 []" "int (length ids) \<le> INT_MAX"
    "length ids = nat (n + 2)" "\<forall>ok path. Generation_completed ok path \<notin> set sigs1"
    "\<And>is. successes is dl + successes is (concat (shop_flights (app_sched a))) = successes is evs1"
    "runs = succeeding \<longrightarrow> healthy (shop_pool (app_sched a))"
proof -
  let ?s0 = "open_shop hw c h"
  let ?a0 = "create_app fac ?s0"
  obtain eng s1 calls trace p2 where
    st0: "start_workflow (op_submit (shop_ops work)) (op_cancel (shop_ops work)) (op_alloc (shop_ops work)) dis now
      (app_engine ?a0) (app_sched ?a0) story style n = (eng, s1, calls, Inr trace)"
    and a: "a = \<lparr>app_ui = p2, app_engine = eng, app_sched = s1, app_posted = app_posted ?a0 @ map post_of calls\<rparr>"
    and p2: "busy p2" "output_path p2 = []" "current_trace_id p2 = trace"
    by (rule start_accepted [OF g created_app(1) busy])
  have st: "start_workflow (shop_submit work) shop_cancel shop_alloc dis now (app_engine ?a0) ?s0 story style n =
      (eng, s1, calls, Inr trace)" using st0 by (simp add: shop_ops_def created_app(5))
  let ?idle = "replicate (nat (worker_count (normalize_config hw c))) None :: crew"
  have "pool_reach hw c [] (create_pool hw c h) (hands ?idle)" using reach_start by simp
  then have "serene hw c [] (create_pool hw c h) ?idle"
    by (simp add: serene_def pause_free_def unpaused_def every_node_def create_pool_def)
  then have t0: "tended runs hw c [] ?s0"
    by (auto simp: tended_def open_shop_def Let_def tidy_def succs_def healthy_def create_pool_def successes_def)
  from shop_chain.start_taken [of c hw runs work "[]" ?s0, OF _ created_app(3,6) st] c t0 obtain w dl where
    w: "active_workflows eng = [w]" "completion_cb eng = Some 0" "wf_completed w = 0" "wf_total w = i32 (n + 2)"
      "length (wf_tasks w) = nat (n + 2)" "0 < n" "calls = []" "wf_trace w = trace"
    and took: "tended runs hw c dl s1" "node_order (shop_pool s1) = wf_tasks w"
    by (auto simp: created_app(4) open_shop_def create_pool_def Let_def)
  from took(1) obtain evs1 where s1: "length (shop_flights s1) = length (shop_jobs s1)"
    "serene hw c evs1 (shop_pool s1) (shop_jobs s1)" "runs = succeeding \<longrightarrow> healthy (shop_pool s1)"
    and bal: "\<And>is. successes is dl + successes is (concat (shop_flights s1)) = successes is evs1"
    by (auto simp: tended_def)
  have len: "wf_total w = int (length (wf_tasks w))" "int (length (wf_tasks w)) \<le> INT_MAX"
    using w(4-6) n by (simp_all add: i32_id INT_MAX_def)
  have "0 < length (wf_tasks w)" using w(5,6) by simp
  then have "tracks trace (wf_tasks w) 0 [] (sys_app (system_at a))"
    using w p2 len by (simp add: a system_at_def tracks_def counts_def quiet_def finishes_def created_app(2))
  moreover have "0 + successes (wf_tasks w) (concat (shop_flights s1)) + successes (wf_tasks w) dl = successes (wf_tasks w) evs1"
    using bal [of "wf_tasks w"] by simp
  ultimately have "follows hw c trace (wf_tasks w) (successes (wf_tasks w) dl) (system_at a) evs1 []"
    using s1(1,2) took(2) unfolding follows_def by (intro conjI exI [of _ 0]) (simp_all add: a system_at_def)
  moreover have "\<not> finishes sigs1"
  proof -
    obtain p1 g1 where p1: "ui_all (start_texts story style n) (app_ui ?a0) = (p1, g1)" by fastforce
    have "sigs1 = g1 @ snd (ui_all (start_succeeded trace) p1)"
      using g created_app(1) [of fac ?s0] p1 st0 by (auto simp: start_generation_def split: prod.splits)
    moreover have "\<not> finishes (snd (ui_all (start_succeeded trace) p1))"
      by (simp add: start_succeeded_def ui_then_snd)
    ultimately show ?thesis using start_texts_effect [OF p1] by simp
  qed
  ultimately show thesis
    using that [of trace "wf_tasks w" dl evs1] w(5) len(2) bal s1(3) by (auto simp: finishes_def a)
qed

text \<open>A success was lost exactly if some task is missed.\<close>

lemma lost_missed:
  assumes c: "sane_config c" and s: "serene hw c evs (shop_pool f) (shop_jobs f)"
    and bal: "\<And>is. successes is dl + successes is (concat (shop_flights f)) = successes is evs"
  shows "0 < successes ids dl \<longleftrightarrow> (\<exists>i \<in> set ids. missed f i)"
proof -
  have none: "successes [i] es = 0 \<longleftrightarrow> (\<forall>ev \<in> set es. ev_task ev = i \<longrightarrow> ev_state ev \<noteq> Succeeded)" for i es
    by (auto simp: successes_def filter_empty_conv)
  have state: "successes [i] evs = (if pool_state_of (shop_pool f) i = Some Succeeded then 1 else 0)" for i
    using successes_state [OF c serene_reach(1) [OF c s], of "[i]"] by simp
  have one: "0 < successes [i] dl \<longleftrightarrow> missed f i" for i
    using bal [of "[i]"] state [of i] none [of i "concat (shop_flights f)"] unfolding missed_def by (auto split: if_splits)
  have "0 < successes ids dl \<longleftrightarrow> (\<exists>i \<in> set ids. 0 < successes [i] dl)"
    by (auto simp: successes_def filter_empty_conv)
  with one show ?thesis by simp
qed

section \<open>The end is always in reach\<close>

lemma system_lands:
  assumes "k \<le> length (sys_flights x)"
  shows "\<exists>y. system_run runs may dis fm x 0 [] [] y \<and> app_sched (sys_app y) = app_sched (sys_app x) \<and>
    sys_jobs y = sys_jobs x \<and> length (sys_flights y) = length (sys_flights x) \<and> (\<forall>j < k. sys_flights y ! j = [])"
  using assms
proof (induction k)
  case 0
  then show ?case using system_here by blast
next
  case (Suc k)
  then obtain y where y: "system_run runs may dis fm x 0 [] [] y" "app_sched (sys_app y) = app_sched (sys_app x)"
    "sys_jobs y = sys_jobs x" "length (sys_flights y) = length (sys_flights x)" "\<forall>j < k. sys_flights y ! j = []" by auto
  from Suc.prems y(4) have k: "k < length (sys_flights y)" by simp
  from system_run_trans [OF system_land [OF k refl] y(1)] y k show ?case
    by (intro exI [of _ "y\<lparr>sys_app := deliver_to_app (sys_flights y ! k) (sys_app y), sys_flights := (sys_flights y)[k := []]\<rparr>"])
       (auto simp: nth_list_update less_Suc_eq)
qed

lemma concat_empty: "\<forall>j < length fs. fs ! j = [] \<Longrightarrow> concat fs = []"
  by (auto simp: concat_eq_Nil_conv in_set_conv_nth)

lemma system_ends:
  assumes c: "sane_config c" and n: "int (length ids) \<le> INT_MAX" and f: "follows hw c tr ids lost x evs sigs"
    and total: "\<And>st ctx. \<exists>out. runs st ctx out" and may: "may Show_next"
  shows "\<exists>k ev new y. system_run runs may dis fm x k ev new y \<and> \<not> pool_has_pending (app_sched (sys_app y)) \<and>
    concat (sys_flights y) = [] \<and> app_posted (sys_app y) = []"
  using f
proof (induction "crew_work (app_sched (sys_app x))" arbitrary: x evs sigs rule: less_induct)
  case less
  from system_lands [OF order_refl, where x = x and runs = runs and may = may and dis = dis and fm = fm] obtain y where
    y: "system_run runs may dis fm x 0 [] [] y" "app_sched (sys_app y) = app_sched (sys_app x)"
      "\<forall>j < length (sys_flights y). sys_flights y ! j = []" by auto
  note fy = follows_run [OF c n y(1) less.prems]
  then have s: "serene hw c (evs @ []) (app_sched (sys_app y)) (sys_jobs y)"
    "length (sys_flights y) = length (sys_jobs y)" by (simp_all add: follows_def)
  then have r: "pool_reach hw c (evs @ []) (app_sched (sys_app y)) (hands (sys_jobs y))" "pause_free (evs @ [])"
    by (simp_all add: serene_def)
  show ?case
  proof (cases "pool_has_pending (app_sched (sys_app y))")
    case True
    from crew_enabled [where runs = runs, OF c r total True] obtain ev s' jobs' where
      "crew_step runs (app_sched (sys_app y)) (sys_jobs y) 1 ev s' jobs'" by blast
    from crew_step_worker [OF this] obtain k where
      k: "k < length (sys_jobs y)" "worker_step runs k (app_sched (sys_app y)) (sys_jobs y) 1 ev s' jobs'" by blast
    with y(3) s(2) have "sys_flights y ! k = []" by simp
    note step = system_work [where may = may and dis = dis and fm = fm, OF k(2) this]
    let ?z = "\<lparr>sys_app = (sys_app y)\<lparr>app_sched := s'\<rparr>, sys_jobs = jobs', sys_flights = (sys_flights y)[k := ev]\<rparr>"
    have "crew_work (app_sched (sys_app ?z)) < crew_work (app_sched (sys_app x))"
      using system_step_keeps [OF c fy step] y(2) by simp
    from less.hyps [OF this follows_step [OF c n fy step]] obtain l ev2 new z where
      z: "system_run runs may dis fm ?z l ev2 new z" "\<not> pool_has_pending (app_sched (sys_app z))"
        "concat (sys_flights z) = []" "app_posted (sys_app z) = []" by blast
    from system_run_trans [OF z(1) system_run_trans [OF system_run_step [OF step] y(1)]] z(2-4) show ?thesis by blast
  next
    case False
    obtain d new rest where act: "app_run pool_ops dis fm (replicate (length (app_posted (sys_app y))) (0, Show_next)) (sys_app y)
        = (d, new, rest)" by (metis prod_cases3)
    from system_run_trans [OF system_shows [where x = y and runs = runs and may = may, OF may act] y(1)]
    have "system_run runs may dis fm x 0 [] new (y\<lparr>sys_app := d\<rparr>)" by simp
    moreover have "app_posted d = []" "app_sched d = app_sched (sys_app y)"
      using act run_show_all [of pool_ops dis fm "sys_app y" 0] by auto
    ultimately show ?thesis using False concat_empty [OF y(3)]
      by (intro exI [of _ "0 :: nat"] exI [of _ "[]"] exI [of _ new] exI [of _ "y\<lparr>sys_app := d\<rparr>"]) simp
  qed
qed

section \<open>Properties\<close>

text \<open>C17: A generation completes on the default scheduler. Let the first click on start be accepted by an
  application on the thread-pool scheduler whose stages succeed, with the workers running as they like
  between the submissions, unless the success of a task was delivered before the workflow was
  registered. Then whatever the order in which workers step and deliver, the timer fires, closures run
  and further clicks on start come, but nobody clicks on cancel and the deliveries of different
  workers to the engine do not overlap: as long as a task has not succeeded the window is busy and silent;
  when nothing is pending, in flight or posted any more, every task has succeeded and the window is
  idle, shows the output and has reported success; and from every moment the application can go on to
  such an end, with at most two steps per task being beginnings and endings in all.\<close>

theorem system_generation_completes:
  assumes "sane_config c" and "roomy (normalize_config hw c)" and "works succeeding work" and "n + 2 \<le> INT_MAX"
    and "start_generation (shop_ops work) dis now story style n (create_app fac (open_shop hw c h)) = (a, sigs1)"
    and "busy (app_ui a)"
    and "\<forall>i \<in> set (node_order (shop_pool (app_sched a))). \<not> missed (app_sched a) i"
    and "system_run succeeding patient dis fm (system_at a) m evs sigs x"
  shows "length (node_order (app_sched (sys_app x))) = nat (n + 2) \<and>
    ((\<exists>i \<in> set (node_order (app_sched (sys_app x))). pool_state_of (app_sched (sys_app x)) i \<noteq> Some Succeeded) \<longrightarrow>
       busy (app_ui (sys_app x)) \<and> output_path (app_ui (sys_app x)) = [] \<and>
       (\<forall>ok path. Generation_completed ok path \<notin> set sigs)) \<and>
    (\<not> pool_has_pending (app_sched (sys_app x)) \<and> concat (sys_flights x) = [] \<and> app_posted (sys_app x) = [] \<longrightarrow>
       (\<forall>i \<in> set (node_order (app_sched (sys_app x))). pool_state_of (app_sched (sys_app x)) i = Some Succeeded) \<and>
       \<not> busy (app_ui (sys_app x)) \<and> output_path (app_ui (sys_app x)) = mock_output_path \<and>
       Generation_completed True mock_output_path \<in> set sigs) \<and>
    (\<exists>k evs2 sigs2 y. system_run succeeding patient dis fm x k evs2 sigs2 y \<and> m + k \<le> 2 * nat (n + 2) \<and>
       (\<forall>i \<in> set (node_order (app_sched (sys_app y))). pool_state_of (app_sched (sys_app y)) i = Some Succeeded) \<and>
       \<not> busy (app_ui (sys_app y)) \<and> output_path (app_ui (sys_app y)) = mock_output_path \<and>
       Generation_completed True mock_output_path \<in> set (sigs @ sigs2))"
proof -
  obtain tr ids dl evs1 where
    f0: "follows hw c tr ids (successes ids dl) (system_at a) evs1 []"
    and ids: "length ids = nat (n + 2)" "int (length ids) \<le> INT_MAX"
    and bal: "\<And>is. successes is dl + successes is (concat (shop_flights (app_sched a))) = successes is evs1"
    and h: "healthy (shop_pool (app_sched a))"
    by (rule shop_start [OF assms(1-6)]) simp
  have a: "app_sched (sys_app (system_at a)) = shop_pool (app_sched a)" "sys_jobs (system_at a) = shop_jobs (app_sched a)"
    by (simp_all add: system_at_def)
  then have s: "serene hw c evs1 (shop_pool (app_sched a)) (shop_jobs (app_sched a))"
    "node_order (shop_pool (app_sched a)) = ids" using f0 by (simp_all add: follows_def)
  from lost_missed [OF assms(1) s(1) bal, of ids] assms(7) s(2) have "successes ids dl = 0" by simp
  note f0 = f0 [unfolded this]
  have reached: "m' \<le> 2 * nat (n + 2) \<and> node_order (app_sched (sys_app y)) = ids \<and>
      (\<forall>i \<in> set ids. pool_state_of (app_sched (sys_app y)) i \<noteq> Some Succeeded \<longrightarrow>
         busy (app_ui (sys_app y)) \<and> output_path (app_ui (sys_app y)) = [] \<and>
         (\<forall>ok path. Generation_completed ok path \<notin> set sg)) \<and>
      (\<not> pool_has_pending (app_sched (sys_app y)) \<and> concat (sys_flights y) = [] \<and> app_posted (sys_app y) = [] \<longrightarrow>
         (\<forall>i \<in> set ids. pool_state_of (app_sched (sys_app y)) i = Some Succeeded) \<and> shows_success (app_ui (sys_app y)) sg)"
    if run: "system_run succeeding patient dis fm (system_at a) m' es sg y" for m' es sg y
  proof -
    note f = follows_run [OF assms(1) ids(2) run f0, unfolded append_Nil]
    have ord: "node_order (app_sched (sys_app y)) = ids" using f by (simp add: follows_def)
    have "m' \<le> crew_work (shop_pool (app_sched a))"
      using system_run_keeps [OF assms(1) ids(2) run f0] a by simp
    then have m: "m' \<le> 2 * nat (n + 2)" using crew_work_bound [of "shop_pool (app_sched a)"] ids(1) s(2) by simp
    have "every_node (\<lambda>n. nstate n \<noteq> Failed \<and> nstate n \<noteq> Canceled) (app_sched (sys_app y))"
      by (rule healthy_crew.keeps_system_run [OF assms(1) ids(2) _ run f0, THEN conjunct1])
         (use patient_keeps h a in \<open>simp_all add: healthy_every\<close>)
    then have hy: "healthy (app_sched (sys_app y))" by (simp add: healthy_every)
    have idx: "wf_index (app_sched (sys_app y))"
      using f reach_parts(8) [OF assms(1)] by (auto simp: follows_def serene_def)
    have ends: "pool_state_of (app_sched (sys_app y)) i = Some Succeeded"
      if "\<not> pool_has_pending (app_sched (sys_app y))" "i \<in> set ids" for i
      using healthy_dry [OF hy _ idx, of i] that ord by (simp add: has_pending_tasks)
    have "shows_success (app_ui (sys_app y)) sg"
      if "\<not> pool_has_pending (app_sched (sys_app y))" "concat (sys_flights y) = []" "app_posted (sys_app y) = []"
      by (rule follows_done [OF assms(1) f]) (use ends that in simp_all)
    with m ord ends follows_busy [OF assms(1) f] show ?thesis by blast
  qed
  note fx = follows_run [OF assms(1) ids(2) assms(8) f0, unfolded append_Nil]
  have total: "\<exists>out. succeeding st ctx out" for st ctx
    by (intro exI [of _ "(ctx, [], Ok)"]) (simp add: succeeding_def)
  have "patient Show_next" by (simp add: patient_def)
  from system_ends [where runs = succeeding and may = patient and dis = dis and fm = fm, OF assms(1) ids(2) fx total this]
  obtain k evs2 sigs2 y where y: "system_run succeeding patient dis fm x k evs2 sigs2 y"
    "\<not> pool_has_pending (app_sched (sys_app y))" "concat (sys_flights y) = []" "app_posted (sys_app y) = []" by blast
  note now = reached [OF assms(8)] and later = reached [OF system_run_trans [OF y(1) assms(8)]]
  have "\<exists>k evs2 sigs2 y. system_run succeeding patient dis fm x k evs2 sigs2 y \<and> m + k \<le> 2 * nat (n + 2) \<and>
       (\<forall>i \<in> set (node_order (app_sched (sys_app y))). pool_state_of (app_sched (sys_app y)) i = Some Succeeded) \<and>
       \<not> busy (app_ui (sys_app y)) \<and> output_path (app_ui (sys_app y)) = mock_output_path \<and>
       Generation_completed True mock_output_path \<in> set (sigs @ sigs2)"
    using later y by (intro exI [of _ k] exI [of _ evs2] exI [of _ sigs2] exI [of _ y]) (auto simp: shows_success_def)
  with now ids(1) show ?thesis by (auto simp: shows_success_def)
qed

text \<open>C20: A success that comes too early is lost, and with it the generation. Let the first click on start be
  accepted while the workers run between the submissions. If by the time the workflow is registered
  some task has succeeded and its success was delivered, so that no worker has it in hand any more,
  then in every further run of the application, whatever the stages do and the user clicks, the window
  stays busy, shows no output and reports nothing, even when all tasks succeed.\<close>

theorem early_success_lost:
  assumes "sane_config c" and "roomy (normalize_config hw c)" and "works runs work" and "n + 2 \<le> INT_MAX"
    and "start_generation (shop_ops work) dis now story style n (create_app fac (open_shop hw c h)) = (a, sigs1)"
    and "busy (app_ui a)"
    and "missed (app_sched a) i"
    and "system_run runs2 (\<lambda>act. True) dis fm (system_at a) m evs sigs x"
  shows "busy (app_ui (sys_app x)) \<and> output_path (app_ui (sys_app x)) = [] \<and>
    (\<forall>ok path. Generation_completed ok path \<notin> set (sigs1 @ sigs))"
proof -
  obtain tr ids dl evs1 where
    f0: "follows hw c tr ids (successes ids dl) (system_at a) evs1 []" and ids: "int (length ids) \<le> INT_MAX"
    and sigs1: "\<forall>ok path. Generation_completed ok path \<notin> set sigs1"
    and bal: "\<And>is. successes is dl + successes is (concat (shop_flights (app_sched a))) = successes is evs1"
    by (rule shop_start [OF assms(1-6)]) blast
  from f0 have s: "serene hw c evs1 (shop_pool (app_sched a)) (shop_jobs (app_sched a))"
    "node_order (shop_pool (app_sched a)) = ids" by (simp_all add: follows_def system_at_def)
  have "i \<in> set ids"
    using assms(7) s(2) reach_parts(8) [OF assms(1) serene_reach(1) [OF assms(1) s(1)]]
    by (auto simp: wf_index_def missed_def pool_state_of_def)
  with lost_missed [OF assms(1) s(1) bal, of ids] assms(7) have "0 < successes ids dl" by blast
  from follows_lost [OF assms(1) follows_run [OF assms(1) ids assms(8) f0] this] sigs1 show ?thesis by simp
qed

section \<open>Two workers\<close>

text \<open>The first worker takes up a task, runs it to the end and keeps its last events in hand, or
  delivers them too.\<close>

fun hand :: "executor \<Rightarrow> int \<Rightarrow> int \<Rightarrow> shop_work" where
  "hand exec t1 t2 \<lparr>shop_pool = s, shop_jobs = None # js, shop_flights = [] # fl\<rparr> =
     (case worker_begin t1 s of
        (s1, ev1, None) \<Rightarrow> (\<lparr>shop_pool = s, shop_jobs = None # js, shop_flights = [] # fl\<rparr>, [])
      | (s1, ev1, Some d) \<Rightarrow>
          (case exec (dstage d) (dctx d) of
             (ctx, ps, res) \<Rightarrow>
               (case finalize_execution t2 s1 (dtask d) (ctx_outputs ctx) res of
                  (s2, ev2) \<Rightarrow> (\<lparr>shop_pool = s2, shop_jobs = None # js, shop_flights = ev2 # fl\<rparr>, ev1))))"
| "hand exec t1 t2 f = (f, [])"

fun land :: shop_work where
  "land \<lparr>shop_pool = s, shop_jobs = js, shop_flights = evs # fl\<rparr> =
     (\<lparr>shop_pool = s, shop_jobs = js, shop_flights = [] # fl\<rparr>, evs)"
| "land f = (f, [])"

definition tardy :: shop_work where
  "tardy = hand obliging 10 20"

definition eager :: shop_work where
  "eager f = (case hand obliging 10 20 f of (f1, d1) \<Rightarrow> case land f1 of (f2, d2) \<Rightarrow> (f2, d1 @ d2))"

lemma shop_run_trans:
  "shop_run runs f1 k ev d f2 \<Longrightarrow> shop_run runs f m evs dl f1 \<Longrightarrow> shop_run runs f (m + k) (evs @ ev) (dl @ d) f2"
proof (induction rule: shop_run.induct)
  case (shop_next f1 k ev d f2 l ev2 d2 f3)
  from shop_run.shop_next [OF shop_next.IH [OF shop_next.prems] shop_next.hyps(2)] show ?case by (simp add: add.assoc)
qed simp

lemma shop_run_step: "shop_step runs f m ev d f' \<Longrightarrow> shop_run runs f m ev d f'"
  using shop_next [OF shop_here] by fastforce

lemma land_run: "shop_run runs \<lparr>shop_pool = s, shop_jobs = js, shop_flights = evs # fl\<rparr> 0 [] evs
    \<lparr>shop_pool = s, shop_jobs = js, shop_flights = [] # fl\<rparr>"
proof (induction evs)
  case Nil
  then show ?case by (rule shop_here)
next
  case (Cons ev evs)
  have "shop_step runs \<lparr>shop_pool = s, shop_jobs = js, shop_flights = (ev # evs) # fl\<rparr> 0 [] [ev]
      \<lparr>shop_pool = s, shop_jobs = js, shop_flights = evs # fl\<rparr>"
    using shop_deliver [of 0 "\<lparr>shop_pool = s, shop_jobs = js, shop_flights = (ev # evs) # fl\<rparr>" ev evs runs] by simp
  from shop_run_trans [OF Cons shop_run_step [OF this]] show ?case by simp
qed

lemma works_land: "works runs land"
  unfolding works_def
proof (intro allI impI)
  fix f f' dl
  assume "land f = (f', dl)"
  then show "\<exists>m evs. shop_run runs f m evs dl f'"
    by (cases f rule: land.cases) (auto intro: land_run shop_here)
qed

lemma works_hand:
  assumes x: "\<And>st ctx. runs st ctx (exec st ctx)"
  shows "works runs (hand exec t1 t2)"
  unfolding works_def
proof (intro allI impI)
  fix f f' dl
  assume h: "hand exec t1 t2 f = (f', dl)"
  show "\<exists>m evs. shop_run runs f m evs dl f'"
  proof (cases "\<exists>s js fl. f = \<lparr>shop_pool = s, shop_jobs = None # js, shop_flights = [] # fl\<rparr>")
    case False
    then have "hand exec t1 t2 f = (f, [])" by (cases "(exec, t1, t2, f)" rule: hand.cases) auto
    with h show ?thesis by (auto intro: shop_here)
  next
    case True
    then obtain s js fl where f: "f = \<lparr>shop_pool = s, shop_jobs = None # js, shop_flights = [] # fl\<rparr>" by blast
    obtain s1 ev1 dd where b: "worker_begin t1 s = (s1, ev1, dd)" by (metis prod_cases3)
    show ?thesis
    proof (cases dd)
      case None
      with h b f show ?thesis by (auto intro: shop_here)
    next
      case (Some d)
      obtain ctx ps res where e: "exec (dstage d) (dctx d) = (ctx, ps, res)" by (metis prod_cases3)
      obtain s2 ev2 where fin: "finalize_execution t2 s1 (dtask d) (ctx_outputs ctx) res = (s2, ev2)" by fastforce
      have f': "f' = \<lparr>shop_pool = s2, shop_jobs = None # js, shop_flights = ev2 # fl\<rparr>" "dl = ev1"
        using h b Some e fin by (simp_all add: f)
      let ?f1 = "\<lparr>shop_pool = s1, shop_jobs = Some d # js, shop_flights = ev1 # fl\<rparr>"
      let ?f2 = "\<lparr>shop_pool = s1, shop_jobs = Some d # js, shop_flights = [] # fl\<rparr>"
      have "worker_step runs 0 (shop_pool f) (shop_jobs f) 1 ev1 s1 ((shop_jobs f)[0 := Some d])"
        by (rule worker_begins [where now = t1]) (use b Some in \<open>simp_all add: f\<close>)
      from shop_work [OF this] have one: "shop_step runs f 1 ev1 [] ?f1" by (simp add: f)
      have "worker_step runs 0 (shop_pool ?f2) (shop_jobs ?f2) 1 ev2 s2 ((shop_jobs ?f2)[0 := None])"
        by (rule worker_finishes [where now = t2 and ctx = ctx and ps = ps and res = res])
           (use fin x [of "dstage d" "dctx d"] e in simp_all)
      from shop_work [OF this] have "shop_step runs ?f2 1 ev2 [] f'" by (simp add: f')
      from shop_run_trans [OF shop_run_step [OF this] shop_run_trans [OF land_run shop_run_step [OF one]]] f'(2)
      show ?thesis by auto
    qed
  qed
qed

lemma tardy_works: "works succeeding tardy"
  unfolding tardy_def by (rule works_hand) (simp add: succeeding_def obliging_def)

lemma eager_works: "works succeeding eager"
  unfolding works_def
proof (intro allI impI)
  fix f f' dl
  assume e: "eager f = (f', dl)"
  obtain f1 d1 where one: "hand obliging 10 20 f = (f1, d1)" by fastforce
  obtain f2 d2 where two: "land f1 = (f2, d2)" by fastforce
  from tardy_works one obtain m evs where "shop_run succeeding f m evs d1 f1"
    unfolding works_def tardy_def by blast
  moreover from works_land two obtain k ev where "shop_run succeeding f1 k ev d2 f2" unfolding works_def by blast
  ultimately have "shop_run succeeding f (m + k) (evs @ ev) (d1 @ d2) f2" by (rule shop_run_trans [rotated])
  then show "\<exists>m evs. shop_run succeeding f m evs dl f'" using e one two by (auto simp: eager_def)
qed

definition raced_click :: "shop_work \<Rightarrow> shop app \<times> ui_signal list" where
  "raced_click work = start_generation (shop_ops work) demo_rng 5 ''once'' ''ink'' 1
     (create_app demo_factory (open_shop 4 demo_config empty_heap))"

definition raced_states :: "shop_work \<Rightarrow> task_state option list" where
  "raced_states work = (let s = shop_pool (app_sched (fst (raced_click work))) in map (pool_state_of s) (node_order s))"

definition in_hand :: "shop \<Rightarrow> string \<Rightarrow> bool" where
  "in_hand f i = list_ex (\<lambda>ev. ev_task ev = i \<and> ev_state ev = Succeeded) (concat (shop_flights f))"

text \<open>The storyboard has succeeded before the registration, but its success is still in hand.\<close>

theorem system_generation_completes_witness:
  "raced_states tardy = [Some Succeeded, Some Ready, Some Queued] \<and>
   (\<exists>k evs sigs y. system_run succeeding patient demo_rng plain_format (system_at (fst (raced_click tardy))) k evs sigs y \<and>
      k \<le> 6 \<and> \<not> busy (app_ui (sys_app y)) \<and> output_path (app_ui (sys_app y)) = mock_output_path)"
proof (intro conjI)
  show "raced_states tardy = [Some Succeeded, Some Ready, Some Queued]" by code_simp
  obtain a sigs1 where a: "raced_click tardy = (a, sigs1)" by fastforce
  have "busy (app_ui (fst (raced_click tardy)))" by code_simp
  then have busy: "busy (app_ui a)" unfolding a fst_conv .
  have "let f = app_sched (fst (raced_click tardy)) in
      list_all (\<lambda>i. pool_state_of (shop_pool f) i = Some Succeeded \<longrightarrow> in_hand f i) (node_order (shop_pool f))" by code_simp
  then have kept: "\<forall>i \<in> set (node_order (shop_pool (app_sched a))). \<not> missed (app_sched a) i"
    unfolding a fst_conv by (fastforce simp: missed_def in_hand_def list_all_iff list_ex_iff Let_def)
  have roomy: "roomy (normalize_config 4 demo_config)" by code_simp
  have n: "(1 :: int) + 2 \<le> INT_MAX" by (simp add: INT_MAX_def)
  from system_generation_completes [OF demo_sane roomy tardy_works n a [unfolded raced_click_def] busy kept
      system_here [where fm = plain_format]]
  obtain k evs sigs y where "system_run succeeding patient demo_rng plain_format (system_at a) k evs sigs y"
    "0 + k \<le> 2 * nat (1 + 2)" "\<not> busy (app_ui (sys_app y))" "output_path (app_ui (sys_app y)) = mock_output_path"
    by blast
  then show "\<exists>k evs sigs y. system_run succeeding patient demo_rng plain_format (system_at (fst (raced_click tardy))) k evs sigs y \<and>
      k \<le> 6 \<and> \<not> busy (app_ui (sys_app y)) \<and> output_path (app_ui (sys_app y)) = mock_output_path"
    unfolding a fst_conv by (intro exI [of _ k] exI [of _ evs] exI [of _ sigs] exI [of _ y]) simp
qed

text \<open>Every task has succeeded before the registration, and was reported.\<close>

theorem early_success_lost_witness:
  "raced_states eager = [Some Succeeded, Some Succeeded, Some Succeeded] \<and> busy (app_ui (fst (raced_click eager))) \<and>
   (\<forall>ok path. Generation_completed ok path \<notin> set (snd (raced_click eager)))"
proof -
  obtain a sigs1 where a: "raced_click eager = (a, sigs1)" by fastforce
  have busy: "busy (app_ui (fst (raced_click eager)))" by code_simp
  have all: "raced_states eager = [Some Succeeded, Some Succeeded, Some Succeeded]" by code_simp
  then obtain i where i: "pool_state_of (shop_pool (app_sched a)) i = Some Succeeded"
    unfolding a raced_states_def fst_conv Let_def by (auto simp: map_eq_Cons_conv)
  have "concat (shop_flights (app_sched (fst (raced_click eager)))) = []" by code_simp
  then have none: "concat (shop_flights (app_sched a)) = []" unfolding a fst_conv .
  have "missed (app_sched a) i" using i by (simp add: missed_def none)
  moreover have roomy: "roomy (normalize_config 4 demo_config)" by code_simp
  moreover have n: "(1 :: int) + 2 \<le> INT_MAX" by (simp add: INT_MAX_def)
  ultimately have "\<forall>ok path. Generation_completed ok path \<notin> set (sigs1 @ [])"
    using early_success_lost [OF demo_sane roomy eager_works n a [unfolded raced_click_def] busy [unfolded a fst_conv] _ system_here]
    by blast
  with all busy show ?thesis unfolding a snd_conv by simp
qed

end
