(* ===== verification/Pool_Fairness.thy ===== *)
theory Pool_Fairness
  imports Pool_Drain
begin

text \<open>
  How long a ready task can be overtaken: aging turns the wait into priority, so a task that becomes
  ready late enough is taken after it, whatever its priority.
\<close>

section \<open>Bounded overtaking\<close>

text \<open>Aging as arithmetic: what waits longer by the worth of the gap is ranked before.\<close>

lemma aging_gap:
  assumes p: "0 < interval_ms a" "0 < boost_per_interval a"
    and low: "since \<le> now" "\<bar>low\<bar> \<le> INT_MAX"
      "((now - since) div 1000000 div interval_ms a) * boost_per_interval a \<le> 2 ^ 62"
    and high: "late \<le> now" "\<bar>high\<bar> \<le> INT_MAX"
      "((now - late) div 1000000 div interval_ms a) * boost_per_interval a \<le> 2 ^ 62"
    and gap: "since + ((high - low) div boost_per_interval a + 1) * interval_ms a * 1000000 \<le> late"
  shows "aging_score a now late high < aging_score a now since low"
proof -
  let ?k = "(high - low) div boost_per_interval a + 1"
  have "(now - late) div 1000000 + ?k * interval_ms a = (now - late + ?k * interval_ms a * 1000000) div 1000000"
    by simp
  also have "\<dots> \<le> (now - since) div 1000000" using gap by (intro zdiv_mono1) simp_all
  finally have "((now - late) div 1000000 + ?k * interval_ms a) div interval_ms a \<le> (now - since) div 1000000 div interval_ms a"
    using p(1) by (intro zdiv_mono1) simp_all
  then have "(now - late) div 1000000 div interval_ms a + ?k \<le> (now - since) div 1000000 div interval_ms a"
    using p(1) by simp
  then have "((now - late) div 1000000 div interval_ms a + ?k) * boost_per_interval a
      \<le> ((now - since) div 1000000 div interval_ms a) * boost_per_interval a"
    using p(2) by (intro mult_right_mono) simp_all
  moreover have "high - low < ?k * boost_per_interval a"
    using pos_mod_bound [OF p(2), of "high - low"] div_mult_mod_eq [of "high - low" "boost_per_interval a"]
    unfolding distrib_right by linarith
  ultimately show ?thesis
    using aging_score_exact [OF low(1) p(1) _ low(2,3)] aging_score_exact [OF high(1) p(1) _ high(2,3)] p(2)
    by (simp add: distrib_right)
qed

text \<open>C39: Overtaking is bounded. In every reachable configuration, let a worker take a task while another task
  is ready that fits the hard budget, and the soft one if the task taken does. Then the task taken
  became ready before a fixed moment: the time when the other became ready plus one aging interval for
  each boost that the gap in priorities amounts to, plus one. Whatever arrives later waits behind it.
  The bounds keep the 64-bit product of the aging from wrapping.\<close>

theorem pool_overtaking_bounded:
  assumes "sane_config c" and "pool_reach hw c evs s ws" and "worker_begin now s = (s', ev, Some d)"
    and "nodes s i = Some n" and "nstate n = Ready" and "fits_cpu_hard s (demand (ntask n))"
    and "nodes s (dtask d) = Some m" and "fits_soft s (demand (ntask m)) \<longrightarrow> fits_soft s (demand (ntask n))"
    and "a = aging_policy (config s)"
    and "ready_since n \<le> now" and "\<bar>priority (ntask n)\<bar> \<le> INT_MAX"
    and "((now - ready_since n) div 1000000 div interval_ms a) * boost_per_interval a \<le> 2 ^ 62"
    and "ready_since m \<le> now" and "\<bar>priority (ntask m)\<bar> \<le> INT_MAX"
    and "((now - ready_since m) div 1000000 div interval_ms a) * boost_per_interval a \<le> 2 ^ 62"
  shows "ready_since m < ready_since n +
    ((priority (ntask m) - priority (ntask n)) div boost_per_interval a + 1) * interval_ms a * 1000000"
proof (rule ccontr)
  assume late: "\<not> ?thesis"
  have "config s = normalize_config hw c" using reach_frame [OF assms(1,2)] by simp
  then have p: "0 < interval_ms a" "0 < boost_per_interval a"
    by (simp_all add: assms(9) normalize_config_def Let_def)
  from assms(3) obtain cd where pick: "pick_candidate now s True = Some cd" "cand_id cd = dtask d"
    by (cases rule: begin_cases) auto
  note best = pick_candidate_Some [OF pick(1)]
  have cd: "cd = mk_candidate now s (dtask d) m" using best(2) pick(2) assms(7) by (auto simp: eligible_Some)
  have i: "i \<in> set (ready_set s)" "eligible now s i = Some (mk_candidate now s i n)"
    using reach_parts(2) [OF assms(1,2)] assms(4-6) by (auto simp: wf_ready_def eligible_Some)
  have soft: "soft_fit (mk_candidate now s i n) = fits_soft s (demand (ntask n))"
    "soft_fit cd = fits_soft s (demand (ntask m))" by (simp_all add: cd mk_candidate_def)
  have "\<not> better_than (mk_candidate now s i n) cd"
    using best(4) [OF i] best(5) [OF i] assms(8) soft by blast
  moreover have "aging_score a now (ready_since m) (priority (ntask m)) < aging_score a now (ready_since n) (priority (ntask n))"
    by (rule aging_gap [OF p assms(10-15)]) (use late in simp)
  then have "better_than (mk_candidate now s i n) cd"
    by (simp add: cd mk_candidate_def better_than_def assms(9))
  ultimately show False by simp
qed

text \<open>Of two ready tasks the one with the higher priority is taken, though it came a millisecond later.\<close>

definition fair_task :: "string \<Rightarrow> int \<Rightarrow> task_descriptor" where
  "fair_task i p = (new_task 0 i ''t'' Storyboard)\<lparr>priority := p\<rparr>"

definition fair1 :: pool where
  "fair1 = fst (pool_submit 0 demo0 (fair_task ''low'' 1) (Some MockStoryboardStage))"
definition fair2 :: pool where
  "fair2 = fst (pool_submit 1000000 fair1 (fair_task ''high'' 5) (Some MockStoryboardStage))"

lemma fresh_fair: "fresh_task (fair_task i p)"
  by (simp add: fair_task_def fresh_task_def task_wf_def new_task_def)

lemma fair_reach1: "pool_reach 4 demo_config [StateEvent ''low'' Ready flt_zero] fair1 [None, None]"
  by (rule run_submit [OF demo_reach0 fresh_fair [of "''low''" 1], of fair1 0 "Some MockStoryboardStage"], code_simp, code_simp)
     (simp add: fair1_def, code_simp)

lemma fair_reach2:
  "pool_reach 4 demo_config [StateEvent ''low'' Ready flt_zero, StateEvent ''high'' Ready flt_zero] fair2 [None, None]"
  by (rule run_submit [OF fair_reach1 fresh_fair [of "''high''" 5], of fair2 1000000 "Some MockStoryboardStage"], code_simp, code_simp)
     (simp add: fair2_def, code_simp)

theorem pool_overtaking_bounded_witness:
  "map_option dtask (snd (snd (worker_begin 2000000 fair2))) = Some ''high'' \<and>
   ready_since (demo_node fair2 ''high'') < ready_since (demo_node fair2 ''low'') + 5 * 500 * 1000000"
proof -
  obtain s' ev dd where b: "worker_begin 2000000 fair2 = (s', ev, dd)" by (metis prod_cases3)
  have "map_option dtask (snd (snd (worker_begin 2000000 fair2))) = Some ''high''" by code_simp
  then obtain d where d: "dd = Some d" "dtask d = ''high''" unfolding b by auto
  have n: "nodes fair2 ''low'' = Some (demo_node fair2 ''low'')" by (rule demo_node) code_simp
  have "nodes fair2 ''high'' = Some (demo_node fair2 ''high'')" by (rule demo_node) code_simp
  then have m: "nodes fair2 (dtask d) = Some (demo_node fair2 ''high'')" by (simp add: d)
  have r: "nstate (demo_node fair2 ''low'') = Ready" "fits_cpu_hard fair2 (demand (ntask (demo_node fair2 ''low'')))"
    "fits_soft fair2 (demand (ntask (demo_node fair2 ''low'')))" by code_simp+
  have a: "aging_policy (config fair2) = \<lparr>interval_ms = 500, boost_per_interval = 1\<rparr>" by code_simp
  have t: "ready_since (demo_node fair2 ''low'') = 0" "ready_since (demo_node fair2 ''high'') = 1000000"
    "priority (ntask (demo_node fair2 ''low'')) = 1" "priority (ntask (demo_node fair2 ''high'')) = 5" by code_simp+
  have "ready_since (demo_node fair2 ''high'') < ready_since (demo_node fair2 ''low'') + (4 + 1) * 500 * 1000000"
    using pool_overtaking_bounded [OF demo_sane fair_reach2 b [unfolded d(1)] n r(1,2) m _ refl] r(3)
    by (simp add: t a INT_MAX_def)
  then show ?thesis using b d by simp
qed

end
