(* ===== verification/Path_Service.thy ===== *)
theory Path_Service
  imports Platform "HOL-Library.Word"
begin

text \<open>
  \<open>infra/path_service.h\<close> and what \<open>PathService::create\<close> builds on each platform: on a Unix
  (\<open>platform/path_service_unix.cpp\<close>, with the branches for macOS) and on Windows
  (\<open>platform/path_service_windows.cpp\<close>). The answers of the Windows shell and of its text
  conversion are arguments. The directories that \<open>XdgPaths\<close> makes are a set of paths.
\<close>

section \<open>Windows\<close>

type_synonym wide_text = "16 word list"

datatype windows_error = Conversion_failed | Known_folder_failed

datatype known_folder_id = RoamingAppData | LocalAppData | Downloads

text \<open>
  \<open>WideCharToMultiByte\<close> on a terminated text: the bytes with their terminating zero, none if it fails.
\<close>

definition wide_to_utf8 :: "(wide_text \<Rightarrow> string) \<Rightarrow> wide_text \<Rightarrow> windows_error + string" where
  "wide_to_utf8 conv input =
     (if input = [] then Inr []
      else let out = conv input
           in if out = [] then Inl Conversion_failed
              else Inr (if last out = CHR 0x00 then butlast out else out))"

text \<open>\<open>SHGetKnownFolderPath\<close> returns no path when it fails.\<close>

definition known_folder ::
  "(wide_text \<Rightarrow> string) \<Rightarrow> (known_folder_id \<Rightarrow> wide_text option) \<Rightarrow> known_folder_id \<Rightarrow> windows_error + string" where
  "known_folder conv shell fid =
     (case shell fid of None \<Rightarrow> Inl Known_folder_failed | Some w \<Rightarrow> wide_to_utf8 conv w)"

definition below :: "'e + string \<Rightarrow> string \<Rightarrow> 'e + string" where
  "below r rest = (case r of Inl e \<Rightarrow> Inl e | Inr d \<Rightarrow> Inr (d @ rest))"

section \<open>The service\<close>

record 'e path_service =
  svc_config :: "'e + string"
  svc_cache :: "'e + string"
  svc_data :: "'e + string"
  svc_download :: "'e + string"

definition path_service_windows ::
  "(wide_text \<Rightarrow> string) \<Rightarrow> (known_folder_id \<Rightarrow> wide_text option) \<Rightarrow> windows_error path_service" where
  "path_service_windows conv shell =
     \<lparr>svc_config = below (known_folder conv shell RoamingAppData) (CHR 0x5C # ''stv_renew''),
      svc_cache = below (known_folder conv shell LocalAppData) (CHR 0x5C # ''stv_renew'' @ CHR 0x5C # ''cache''),
      svc_data = below (known_folder conv shell LocalAppData) (CHR 0x5C # ''stv_renew'' @ CHR 0x5C # ''data''),
      svc_download = known_folder conv shell Downloads\<rparr>"

definition path_service_mac :: "environment \<Rightarrow> string option \<Rightarrow> platform_error path_service" where
  "path_service_mac env pw =
     \<lparr>svc_config = below (home_dir env pw) ''/Library/Application Support/stv_renew'',
      svc_cache = below (home_dir env pw) ''/Library/Caches/stv_renew'',
      svc_data = below (home_dir env pw) ''/Library/Application Support/stv_renew/data'',
      svc_download = download_dir env pw\<rparr>"

definition path_service_unix :: "environment \<Rightarrow> string option \<Rightarrow> platform_error path_service" where
  "path_service_unix env pw =
     \<lparr>svc_config = config_dir env pw, svc_cache = cache_dir env pw, svc_data = data_dir env pw,
      svc_download = download_dir env pw\<rparr>"

section \<open>The directories are kept apart\<close>

text \<open>The three directories of the program, where they are known, are different from each other.\<close>

definition apart :: "'e path_service \<Rightarrow> bool" where
  "apart p \<longleftrightarrow> (\<forall>a b c. svc_config p = Inr a \<longrightarrow> svc_cache p = Inr b \<longrightarrow> svc_data p = Inr c \<longrightarrow>
     a \<noteq> b \<and> a \<noteq> c \<and> b \<noteq> c)"

lemma below_Inr: "below r rest = Inr d \<longleftrightarrow> (\<exists>a. r = Inr a \<and> d = a @ rest)"
  by (auto simp: below_def split: sum.splits)

lemma mac_apart: "apart (path_service_mac env pw)"
  by (auto simp: apart_def path_service_mac_def below_Inr)

text \<open>On Windows the cache and the data are apart; the settings are if the two shell folders are neither
  the same nor nested in that way.\<close>

lemma windows_cache_data:
  assumes "svc_cache (path_service_windows conv shell) = Inr b" "svc_data (path_service_windows conv shell) = Inr c"
  shows "b \<noteq> c"
  using assms by (auto simp: path_service_windows_def below_Inr)

lemma windows_same_folder:
  assumes "shell RoamingAppData = shell LocalAppData"
  shows "apart (path_service_windows conv shell)"
  using assms by (auto simp: apart_def path_service_windows_def below_Inr known_folder_def)

text \<open>On a Unix nothing keeps them apart when variables name the same directory.\<close>

lemma unix_not_apart:
  "\<not> apart (path_service_unix [''XDG_CONFIG_HOME'' \<mapsto> ''/x'', ''XDG_CACHE_HOME'' \<mapsto> ''/x'', ''XDG_DATA_HOME'' \<mapsto> ''/x''] pw)"
  by (simp add: apart_def path_service_unix_def config_dir_def cache_dir_def data_dir_def service_dir_def env_value_def)

lemma unix_apart:
  assumes "env_value env ''XDG_CONFIG_HOME'' = None" "env_value env ''XDG_CACHE_HOME'' = None"
    "env_value env ''XDG_DATA_HOME'' = None"
  shows "apart (path_service_unix env pw)"
  using assms
  by (auto simp: apart_def path_service_unix_def config_dir_def cache_dir_def data_dir_def service_dir_def
      split: sum.splits)

section \<open>Two layouts\<close>

text \<open>
  \<open>XdgPaths\<close> and \<open>PathService\<close> answer the same question, and never agree: the one uses \<open>stv-renew\<close>, the
  other \<open>stv_renew\<close>.
\<close>

lemma append_same_tail: "length x = length y \<Longrightarrow> a @ x = b @ y \<Longrightarrow> x = y"
  by simp

lemma path_join_tail: "\<exists>p. path_join a b = p @ b"
  by (simp add: path_join_def)

lemma xdg_layouts_differ:
  assumes "config_dir env pw = Inr d"
  shows "d \<noteq> get_config_dir env"
proof -
  obtain p where p: "get_config_dir env = p @ ''stv-renew''"
    using path_join_tail by (auto simp: get_config_dir_def xdg_dir_def)
  obtain q where q: "d = q @ ''stv_renew''"
  proof -
    from assms consider v where "d = v @ ''/stv_renew''" | h where "d = h @ ''/.config/stv_renew''"
      by (auto simp: config_dir_def service_dir_def split: option.splits sum.splits)
    then show ?thesis by cases (use that [of "_ @ ''/''"] that [of "_ @ ''/.config/''"] in simp_all)
  qed
  show ?thesis
  proof
    assume "d = get_config_dir env"
    with p q append_same_tail [of "''stv_renew''" "''stv-renew''" q p] show False by simp
  qed
qed

section \<open>Directories that are made\<close>

text \<open>
  \<open>XdgPaths\<close> makes the directories it answers. The directories of the file system are a set of paths;
  making one makes the paths above it, and succeeds.
\<close>

definition paths_to :: "string \<Rightarrow> string list" where
  "paths_to p = filter (\<lambda>q. q = p \<or> p ! length q = CHR ''/'') (map (\<lambda>k. take k p) [1 ..< Suc (length p)])"

definition create_directories :: "string \<Rightarrow> string set \<Rightarrow> string set" where
  "create_directories p ds = set (paths_to p) \<union> ds"

definition xdg_config_dir :: "environment \<Rightarrow> string set \<Rightarrow> string \<times> string set" where
  "xdg_config_dir env ds = (get_config_dir env, create_directories (get_config_dir env) ds)"

definition xdg_cache_dir :: "environment \<Rightarrow> string set \<Rightarrow> string \<times> string set" where
  "xdg_cache_dir env ds = (get_cache_dir env, create_directories (get_cache_dir env) ds)"

definition xdg_data_dir :: "environment \<Rightarrow> string set \<Rightarrow> string \<times> string set" where
  "xdg_data_dir env ds = (get_data_dir env, create_directories (get_data_dir env) ds)"

definition xdg_output_dir :: "environment \<Rightarrow> string set \<Rightarrow> string \<times> string set" where
  "xdg_output_dir env ds =
     (case env_value env ''STV_OUTPUT_DIR'' of
        Some v \<Rightarrow> (v, create_directories v ds)
      | None \<Rightarrow> (case xdg_data_dir env ds of
                   (data, ds1) \<Rightarrow> (path_join data ''outputs'', create_directories (path_join data ''outputs'') ds1)))"

lemma create_directories_makes: "p \<noteq> [] \<Longrightarrow> p \<in> create_directories p ds" "ds \<subseteq> create_directories p ds"
  by (auto simp: create_directories_def paths_to_def image_iff Suc_le_eq intro: bexI [of _ "length p"])

lemma create_two:
  assumes "p \<noteq> []" "q \<noteq> []"
  shows "p \<in> create_directories p (create_directories q ds)" "ds \<subseteq> create_directories p (create_directories q ds)"
    "q \<in> create_directories p (create_directories q ds)"
  using create_directories_makes [where p = p] create_directories_makes [where p = q] assms by blast+

lemma join_nonempty: "b \<noteq> [] \<Longrightarrow> path_join a b \<noteq> []"
  by (simp add: path_join_def)

text \<open>The output directory is the one of the settings, and is there afterwards; without a variable for it
  so is the data directory.\<close>

lemma xdg_output_made:
  assumes "xdg_output_dir env ds = (d, ds')"
  shows "d = get_output_dir env \<and> d \<in> ds' \<and> ds \<subseteq> ds' \<and>
    (env_value env ''STV_OUTPUT_DIR'' = None \<longrightarrow> get_data_dir env \<in> ds')"
proof (cases "env_value env ''STV_OUTPUT_DIR''")
  case None
  let ?data = "get_data_dir env"
  let ?out = "path_join ?data ''outputs''"
  have n: "?data \<noteq> []" "?out \<noteq> []" by (simp_all add: get_data_dir_def xdg_dir_def join_nonempty)
  have "d = ?out" "ds' = create_directories ?out (create_directories ?data ds)"
    using None assms by (auto simp: xdg_output_dir_def xdg_data_dir_def)
  moreover have "get_output_dir env = ?out" using None by (simp add: get_output_dir_def)
  ultimately show ?thesis using create_two [OF n(2,1), of ds] by (simp only: simp_thms)
next
  case (Some v)
  then have "v \<noteq> []" by (auto simp: env_value_def split: option.splits if_splits)
  with Some assms create_directories_makes [where p = v] show ?thesis by (auto simp: xdg_output_dir_def get_output_dir_def)
qed

lemma paths_to_example: "paths_to ''/a/bc'' = [''/a'', ''/a/bc'']"
  by code_simp

end
