(* ===== verification/Console_Logger.thy ===== *)
theory Console_Logger
  imports Platform
begin

text \<open>
  The logger of \<open>infra/logger.cpp\<close> over spdlog. The library is its registry of loggers by name, the
  pattern of each, and the messages handed to them; creating a logger under a name that is taken
  fails, as the library documents.
\<close>

record spdlog =
  registry :: "string list"
  patterns :: "string \<rightharpoonup> string"
  messages :: "(string \<times> log_level \<times> string) list"

definition stdout_color_mt :: "string \<Rightarrow> spdlog \<Rightarrow> spdlog option" where
  "stdout_color_mt name lib =
     (if name \<in> set (registry lib) then None else Some (lib\<lparr>registry := registry lib @ [name]\<rparr>))"

definition console_pattern :: string where
  "console_pattern = ''[%Y-%m-%dT%H:%M:%S.%e%z] [%^%l%$] %v''"

definition create_console_logger :: "spdlog \<Rightarrow> spdlog option" where
  "create_console_logger lib =
     (case (if ''stv'' \<in> set (registry lib) then Some lib else stdout_color_mt ''stv'' lib) of
        None \<Rightarrow> None
      | Some lib1 \<Rightarrow> Some (lib1\<lparr>patterns := (patterns lib1)(''stv'' \<mapsto> console_pattern)\<rparr>))"

definition console_message :: "string \<Rightarrow> string \<Rightarrow> string \<Rightarrow> string \<Rightarrow> string" where
  "console_message trace component event msg =
     ''['' @ trace @ ''] ['' @ component @ ''] '' @ event @ '': '' @ msg"

definition console_log ::
  "log_level \<Rightarrow> string \<Rightarrow> string \<Rightarrow> string \<Rightarrow> string \<Rightarrow> spdlog \<Rightarrow> spdlog" where
  "console_log lvl trace component event msg lib =
     lib\<lparr>messages := messages lib @ [(''stv'', lvl, console_message trace component event msg)]\<rparr>"

section \<open>Facts\<close>

text \<open>Creating the logger never fails, registers it once, and does not disturb the others.\<close>

lemma create_console_logger_ok:
  assumes "distinct (registry lib)"
  obtains lib' where "create_console_logger lib = Some lib'" "''stv'' \<in> set (registry lib')"
    "distinct (registry lib')" "create_console_logger lib' = Some lib'" "messages lib' = messages lib"
    "\<And>name. name \<noteq> ''stv'' \<Longrightarrow> patterns lib' name = patterns lib name"
  using assms that
  by (cases "''stv'' \<in> set (registry lib)") (auto simp: create_console_logger_def stdout_color_mt_def)

text \<open>The fallback logger writes the same message behind its own prefix.\<close>

lemma log_line_message:
  "log_line stamp lvl trace component event msg =
    ''['' @ stamp @ ''] ['' @ level_text lvl @ ''] '' @ console_message trace component event msg @ [newline]"
  by (simp add: log_line_def console_message_def)

end
