(* ===== verification/Simple_Properties.thy ===== *)
theory Simple_Properties
  imports Simple_Safety
begin

text \<open>
  Properties of the single-threaded scheduler: dependency order in every reachable state, what a
  \<open>tick\<close> promotes, picks and hands to the stage, the report of its end, and two behaviours of
  its event reports and of \<open>resume\<close> that a caller may not expect.
\<close>

section \<open>Two tasks, the second depending on the first\<close>

definition sim_a :: task_descriptor where
  "sim_a = (new_task 0 ''a'' ''t'' Storyboard)"
definition sim_b :: task_descriptor where
  "sim_b = (new_task 0 ''b'' ''t'' ImageGen)\<lparr>deps := [''a'']\<rparr>"

definition sim0 :: simple where "sim0 = create_simple_scheduler empty_heap"
definition sim1 :: simple where "sim1 = fst (simple_submit 1 sim0 sim_a (Some MockStoryboardStage))"
definition sim2 :: simple where "sim2 = fst (simple_submit 2 sim1 sim_b (Some MockImageGenStage))"
definition sim3 :: simple where
  "sim3 = fst (simple_tick 3 (\<lambda>d. ([], Map.empty, Ok)) sim2)"
definition sim4 :: simple where "sim4 = fst (tick_begin 4 sim3)"

lemma sim_reach0: "simple_reach sim0"
  unfolding sim0_def by (rule simple_reach.start)

lemma simple_reach_submit:
  assumes "simple_reach s" "fresh_task t"
  shows "simple_reach (fst (simple_submit now s t stg))"
proof -
  obtain s' evs r where sub: "simple_submit now s t stg = (s', evs, r)" by (metis prod_cases3)
  from simple_reach.step [OF assms(1) simple_step.submit [OF assms(2) sub]] sub show ?thesis by simp
qed

lemma sim_fresh: "fresh_task sim_a" "fresh_task sim_b"
  by (simp_all add: sim_a_def sim_b_def fresh_task_def task_wf_def new_task_def)

lemma sim_reach2: "simple_reach sim2"
  unfolding sim2_def sim1_def by (intro simple_reach_submit sim_reach0 sim_fresh)

lemma sim_reach3: "simple_reach sim3"
  unfolding sim3_def
  by (rule simple_reach_tick [OF sim_reach2 prod.collapse [symmetric]]) simp

lemma sim_reach4: "simple_reach sim4"
proof -
  obtain s' evs d where t: "tick_begin 4 sim3 = (s', evs, d)" by (metis prod_cases3)
  from simple_reach.step [OF sim_reach3 simple_step.begin_tick [OF t]] t show ?thesis
    by (simp add: sim4_def)
qed

lemma filter_split:
  assumes "filter P xs = us @ b # vs"
  obtains us' vs' where "xs = us' @ b # vs'" "P b" "us = filter P us'" "vs = filter P vs'"
  using assms
proof (induction xs arbitrary: us thesis)
  case Nil
  then show ?case by simp
next
  case (Cons x xs)
  show ?case
  proof (cases "P x \<and> us = []")
    case True
    with Cons.prems(2) have "x = b" "vs = filter P xs" by simp_all
    with True show ?thesis by (intro Cons.prems(1) [of "[]" xs]) simp_all
  next
    case False
    define us1 where "us1 = (if P x then tl us else us)"
    have us: "us = (if P x then x # us1 else us1)" "filter P xs = us1 @ b # vs"
      using False Cons.prems(2) by (cases us; auto simp: us1_def split: if_splits)+
    from Cons.IH [OF _ us(2)] obtain us' vs' where
      "xs = us' @ b # vs'" "P b" "us1 = filter P us'" "vs = filter P vs'" by blast
    with us(1) show ?thesis by (intro Cons.prems(1) [of "x # us'" vs']) simp_all
  qed
qed

section \<open>Properties\<close>

text \<open>C24: Dependency order. In every reachable state of the single-threaded scheduler, with any
  interleaving of clients while a stage runs, a task that is ready, running, succeeded, failed, or
  paused after that has only dependencies that succeeded; and task ids are unique.\<close>

theorem simple_dependency_order:
  assumes "simple_reach s" and "e \<in> set (entries s)"
  shows "distinct (map eid (entries s)) \<and>
    (started (etask e) \<longrightarrow> (\<forall>d \<in> set (deps (etask e)). simple_state_of s d = Some Succeeded))"
  using simple_reach_safe [OF assms(1)] assms(2)
  by (auto simp: simple_safe_def simple_inv_def all_deps_met_iff simple_state_of_iff)

theorem simple_dependency_order_witness:
  "simple_state_of sim4 ''a'' = Some Succeeded \<and> simple_state_of sim4 ''b'' = Some Running"
proof -
  let ?e = "entries sim4 ! 1"
  have "length (entries sim4) = 2" by code_simp
  then have e: "?e \<in> set (entries sim4)" by simp
  have "started (etask ?e)" "deps (etask ?e) = [''a'']" by code_simp+
  with simple_dependency_order [OF sim_reach4 e] have "simple_state_of sim4 ''a'' = Some Succeeded" by simp
  moreover have "simple_state_of sim4 ''b'' = Some Running" by code_simp
  ultimately show ?thesis by blast
qed

text \<open>C33: Promotion. The loop that promotes while it walks the vector equals one simultaneous step on
  the states before it: exactly the queued tasks with dependencies, all of which succeeded, become
  ready, each with one event, in the order of submission.\<close>

theorem promote_exact:
  "promote now [] es =
     (map (\<lambda>e. if estate e = Queued \<and> deps (etask e) \<noteq> [] \<and>
          (\<forall>d \<in> set (deps (etask e)). \<exists>x. find_entry es d = Some x \<and> estate x = Succeeded)
        then e\<lparr>etask := apply_transition now (etask e) Ready\<rparr> else e) es,
      map (\<lambda>e. StateEvent (eid e) Ready flt_zero)
        (filter (\<lambda>e. estate e = Queued \<and> deps (etask e) \<noteq> [] \<and>
          (\<forall>d \<in> set (deps (etask e)). \<exists>x. find_entry es d = Some x \<and> estate x = Succeeded)) es))"
proof -
  have "promotable es = (\<lambda>e. estate e = Queued \<and> deps (etask e) \<noteq> [] \<and>
      (\<forall>d \<in> set (deps (etask e)). \<exists>x. find_entry es d = Some x \<and> estate x = Succeeded))"
    by (intro ext) (simp add: promotable_def all_deps_met_iff)
  moreover have "promoted now es = (\<lambda>e. if promotable es e
      then e\<lparr>etask := apply_transition now (etask e) Ready\<rparr> else e)"
    by (intro ext) (simp add: promoted_def promote_entry_def on_task_def)
  ultimately show ?thesis by (simp add: promote_eq)
qed

theorem promote_exact_witness:
  "snd (promote 3 [] (entries (fst (tick_finish 3 (fst (tick_begin 3 sim2)) ''a'' Map.empty Ok)))) =
     [StateEvent ''b'' Ready flt_zero]"
  unfolding promote_exact snd_conv all_deps_met_iff [symmetric] by code_simp

text \<open>What a tick starts. After promotion it takes the ready task of the highest priority, the
  earliest submitted among equals, marks it running and hands its stage the trace id, the token
  and the merged outputs of its dependencies; it starts nothing only if no task is ready.\<close>

theorem simple_tick_starts:
  assumes "tick_begin now s = (s', evs, d)"
  shows "(case d of
      None \<Rightarrow> (\<forall>e \<in> set (fst (promote now [] (entries s))). estate e \<noteq> Ready)
    | Some dd \<Rightarrow> \<exists>us b vs. fst (promote now [] (entries s)) = us @ b # vs \<and> estate b = Ready \<and>
        (\<forall>u \<in> set us. estate u = Ready \<longrightarrow> priority (etask u) < priority (etask b)) \<and>
        (\<forall>v \<in> set vs. estate v = Ready \<longrightarrow> priority (etask v) \<le> priority (etask b)) \<and>
        dtask dd = eid b \<and> dstage dd = estage b \<and> last evs = StateEvent (eid b) Running flt_zero \<and>
        ctx_trace_id (dctx dd) = trace_id (etask b) \<and>
        ctx_cancel_token (dctx dd) = cancel_token (etask b) \<and>
        ctx_inputs (dctx dd) = collect_inputs (entries s') (deps (etask b)) Map.empty)"
proof -
  let ?es = "fst (promote now [] (entries s))"
  let ?rs = "filter (\<lambda>e. estate e = Ready) ?es"
  show ?thesis
  proof (cases "pick_best None ?es")
    case None
    with assms have "d = None" by (auto simp: tick_begin_def split: prod.splits)
    moreover from None have "?rs = []" by (simp only: pick_best_fold fold_best_None_iff)
    ultimately show ?thesis by (simp add: filter_empty_conv)
  next
    case (Some b)
    then have "fold_best more_urgent None ?rs = Some b" by (simp add: pick_best_fold)
    from urgency.fold_best_first [OF this] obtain rus rvs where
      r: "?rs = rus @ b # rvs" "\<forall>u \<in> set rus. more_urgent b u" "\<forall>v \<in> set rvs. \<not> more_urgent v b" by blast
    from r(1) obtain us vs where sp: "?es = us @ b # vs" "estate b = Ready"
      "rus = filter (\<lambda>e. estate e = Ready) us" "rvs = filter (\<lambda>e. estate e = Ready) vs"
      by (rule filter_split)
    have "\<forall>u \<in> set us. estate u = Ready \<longrightarrow> priority (etask u) < priority (etask b)"
      "\<forall>v \<in> set vs. estate v = Ready \<longrightarrow> priority (etask v) \<le> priority (etask b)"
      using r(2,3) sp(3,4) by (auto simp: more_urgent_def not_less)
    moreover from assms Some obtain dd where d: "d = Some dd" "dtask dd = eid b" "dstage dd = estage b"
      "last evs = StateEvent (eid b) Running flt_zero" "ctx_trace_id (dctx dd) = trace_id (etask b)"
      "ctx_cancel_token (dctx dd) = cancel_token (etask b)"
      "ctx_inputs (dctx dd) = collect_inputs (entries s') (deps (etask b)) Map.empty"
      by (auto simp: tick_begin_def Let_def new_context_def split: prod.splits)
    ultimately show ?thesis
      unfolding d(1) option.case by (intro exI [of _ us] exI [of _ b] exI [of _ vs]) (use sp d in simp)
  qed
qed

theorem simple_tick_starts_witness:
  "\<exists>d. snd (snd (tick_begin 3 sim2)) = Some d \<and> dtask d = ''a''"
proof -
  obtain s' evs d where t: "tick_begin 3 sim2 = (s', evs, d)" by (metis prod_cases3)
  let ?es = "fst (promote 3 [] (entries sim2))"
  have "list_ex (\<lambda>e. estate e = Ready) ?es" "list_all (\<lambda>e. estate e = Ready \<longrightarrow> eid e = ''a'') ?es"
    by code_simp+
  then have r: "\<exists>e \<in> set ?es. estate e = Ready" "\<forall>e \<in> set ?es. estate e = Ready \<longrightarrow> eid e = ''a''"
    by (simp_all add: list_ex_iff list_all_iff)
  from simple_tick_starts [OF t] r obtain dd where "d = Some dd" "dtask dd = ''a''"
    by (cases d) fastforce+
  with t show ?thesis by simp
qed

text \<open>The end of a stage that nobody disturbed. If the task is still running, success stores the
  outputs and full progress, an error is recorded with the state it calls for; exactly the
  reported state is entered, and no other task is touched.\<close>

theorem simple_finish_undisturbed:
  assumes "find_entry (entries s) i = Some e" and "estate e = Running"
    and "tick_finish now s i outs res = (s', evs)"
  shows "\<exists>e' p. find_entry (entries s') i = Some e' \<and> evs = [StateEvent i (estate e') p] \<and>
    (case res of
       Inr u \<Rightarrow> estate e' = Succeeded \<and> elast_outputs e' = outs \<and> progress (etask e') = flt_one \<and> p = flt_one
     | Inl err \<Rightarrow> estate e' = (if category err = Cat_Canceled then Canceled else Failed) \<and>
         terror (etask e') = Some err \<and> elast_outputs e' = elast_outputs e) \<and>
    (\<forall>j. j \<noteq> i \<longrightarrow> find_entry (entries s') j = find_entry (entries s) j)"
proof -
  have i: "eid e = i" using find_entry_Some [OF assms(1)] by simp
  show ?thesis
  proof (cases res)
    case (Inr u)
    let ?f = "\<lambda>e. e\<lparr>etask := set_progress (transition_ignoring now (etask e) Succeeded) flt_one,
      elast_outputs := outs\<rparr>"
    have tr: "transition_ignoring now (etask e) Succeeded = apply_transition now (etask e) Succeeded"
      using assms(2) by (simp add: transition_ignoring_eq)
    have lookup: "find_entry (update_entry i ?f (entries s)) j =
        (if j = i then Some (?f e) else find_entry (entries s) j)" for j
      using assms(1) by (rule find_entry_update_same) (simp add: tr i)
    from assms(1,3) Inr have "s' = s\<lparr>entries := update_entry i ?f (entries s)\<rparr>"
      "evs = [StateEvent i Succeeded flt_one]" by (simp_all add: tick_finish_def)
    with Inr lookup tr show ?thesis
      by (intro exI [of _ "?f e"] exI [of _ flt_one])
         (simp add: set_progress_def clamp_def)
  next
    case (Inl err)
    let ?target = "if category err = Cat_Canceled then Canceled else Failed"
    let ?t = "transition_ignoring now ((etask e)\<lparr>terror := Some err\<rparr>) ?target"
    have tr: "tstate ?t = ?target" "terror ?t = Some err" "task_id ?t = i"
      using assms(2) i by (auto simp: transition_ignoring_eq apply_transition_def Let_def)
    have lookup: "find_entry (update_entry i (on_task (\<lambda>_. ?t)) (entries s)) j =
        (if j = i then Some (on_task (\<lambda>_. ?t) e) else find_entry (entries s) j)" for j
      using assms(1) by (rule find_entry_update_same) (simp add: tr)
    from assms(1,3) Inl have "s' = s\<lparr>entries := update_entry i (on_task (\<lambda>_. ?t)) (entries s)\<rparr>"
      "evs = [StateEvent i ?target (progress ?t)]" by (simp_all add: tick_finish_def Let_def)
    with Inl lookup tr show ?thesis
      by (intro exI [of _ "on_task (\<lambda>_. ?t) e"] exI [of _ "progress ?t"]) simp
  qed
qed

theorem simple_finish_undisturbed_witness:
  "simple_state_of (fst (tick_finish 5 (fst (tick_begin 3 sim2)) ''a'' Map.empty (Inl err_null_stage))) ''a'' =
     Some Failed"
proof -
  let ?s = "fst (tick_begin 3 sim2)"
  have "simple_state_of ?s ''a'' = Some Running" by code_simp
  then obtain e where e: "find_entry (entries ?s) ''a'' = Some e" "estate e = Running"
    by (auto simp: simple_state_of_iff)
  obtain s' evs where f: "tick_finish 5 ?s ''a'' Map.empty (Inl err_null_stage) = (s', evs)" by fastforce
  have "category err_null_stage \<noteq> Cat_Canceled" by code_simp
  with simple_finish_undisturbed [OF e f] f show ?thesis by (auto simp: simple_state_of_iff)
qed

text \<open>The end of the stage of \<open>a\<close>, whose task was canceled while the stage ran.\<close>

definition canceled_run :: "simple \<times> state_event list" where
  "canceled_run = simple_tick 3 (\<lambda>d. ([Act_cancel ''a''], [''x'' \<mapsto> Any_int 1], Ok)) sim2"

text \<open>Events can contradict the state. When a task is canceled while its stage runs and the stage
  still returns success, the success is reported after the cancellation and the outputs are
  stored, although the task stays canceled and its dependents never start.\<close>

theorem simple_cancel_overwritten:
  "simple_state_of (fst canceled_run) ''a'' = Some Canceled \<and>
   map (\<lambda>ev. (ev_task ev, ev_state ev)) (snd canceled_run) =
     [(''a'', Running), (''a'', Canceled), (''a'', Succeeded)] \<and>
   list_ex (\<lambda>e. eid e = ''a'' \<and> elast_outputs e ''x'' \<noteq> None) (entries (fst canceled_run)) \<and>
   snd (snd (tick_begin 4 (fst canceled_run))) = None \<and> simple_has_pending (fst canceled_run)"
  unfolding conj_assoc [symmetric]
proof (intro conjI)
  have "case snd (snd (tick_begin 4 (fst canceled_run))) of None \<Rightarrow> True | Some d \<Rightarrow> False" by code_simp
  then show "snd (snd (tick_begin 4 (fst canceled_run))) = None" by (simp split: option.splits)
qed code_simp+

text \<open>A resumed task that was never paused.\<close>

definition stuck :: simple where
  "stuck = fst (simple_resume 5 sim2 ''a'')"

text \<open>\<open>resume\<close> is not restricted to paused tasks. Resuming a ready task marks it running without
  running it: no later tick starts anything, and the scheduler has pending work for ever.\<close>

theorem simple_resume_strands:
  "simple_state_of sim2 ''a'' = Some Ready \<and> simple_state_of stuck ''a'' = Some Running \<and>
   simple_has_pending (fst (simple_tick now behave stuck)) \<and>
   simple_state_of (fst (simple_tick now behave stuck)) ''a'' = Some Running"
proof (intro conjI)
  show "simple_state_of sim2 ''a'' = Some Ready" by code_simp
  show run: "simple_state_of stuck ''a'' = Some Running" by code_simp
  let ?p = "\<lambda>e. estate e = Running \<or> (estate e = Queued \<and> deps (etask e) \<noteq> [] \<and>
      \<not> all_deps_met (entries stuck) (deps (etask e)))"
  have idle: "list_all ?p (entries stuck)" by code_simp
  then have none: "\<not> promotable (entries stuck) e" if "e \<in> set (entries stuck)" for e
    using that by (auto simp: list_all_iff promotable_def)
  then have "map (promoted now (entries stuck)) (entries stuck) = entries stuck"
    by (simp add: promoted_def map_idI)
  moreover have "filter (promotable (entries stuck)) (entries stuck) = []"
    using none by (simp add: filter_empty_conv)
  ultimately have "promote now [] (entries stuck) = (entries stuck, [])" by (simp add: promote_eq)
  moreover have "pick_best None (entries stuck) = None"
    using idle by (auto simp: pick_best_fold list_all_iff filter_empty_conv)
  ultimately have t: "simple_tick now behave stuck = (stuck, [])"
    by (simp add: simple_tick_def tick_begin_def)
  show "simple_has_pending (fst (simple_tick now behave stuck))"
    unfolding t fst_conv by code_simp
  show "simple_state_of (fst (simple_tick now behave stuck)) ''a'' = Some Running"
    unfolding t fst_conv by (rule run)
qed

end
