(* ===== verification/Curl_Client.thy ===== *)
theory Curl_Client
  imports Http_Client
begin

text \<open>
  \<open>infra/src/curl_http_client.cpp\<close>: the client over libcurl, and \<open>curl_http_client_stub.cpp\<close> for
  builds without it. libcurl is an argument, with the network, the clock and the other threads behind
  it as a state of any type: from that state, the options set on the handle and the answers of the
  progress callback, \<open>perform\<close> gives the next state and the outcome of the transfer, so that no two
  transfers need to end alike; \<open>strerror\<close> gives the text of a code. The codes are libcurl's documented numbers. The tokens live in the token heap; the table of
  requests in flight holds weak pointers, which a token outlives only if someone else owns it.
\<close>

section \<open>The transfer\<close>

record curl_setup =
  opt_url :: string
  opt_timeout_ms :: int
  opt_connect_timeout_ms :: int
  opt_post :: "string option"
  opt_httpget :: bool
  opt_headers :: "string list"

record curl_outcome =
  curl_code :: int
  curl_chunks :: "string list"
  curl_status :: int
  curl_elapsed :: int

definition CURLE_OK :: int where "CURLE_OK = 0"
definition CURLE_COULDNT_RESOLVE_HOST :: int where "CURLE_COULDNT_RESOLVE_HOST = 6"
definition CURLE_COULDNT_CONNECT :: int where "CURLE_COULDNT_CONNECT = 7"
definition CURLE_OPERATION_TIMEDOUT :: int where "CURLE_OPERATION_TIMEDOUT = 28"
definition CURLE_ABORTED_BY_CALLBACK :: int where "CURLE_ABORTED_BY_CALLBACK = 42"
definition CURLE_SEND_ERROR :: int where "CURLE_SEND_ERROR = 55"
definition CURLE_RECV_ERROR :: int where "CURLE_RECV_ERROR = 56"

lemmas curl_codes = CURLE_OK_def CURLE_COULDNT_RESOLVE_HOST_def CURLE_COULDNT_CONNECT_def
  CURLE_OPERATION_TIMEDOUT_def CURLE_ABORTED_BY_CALLBACK_def CURLE_SEND_ERROR_def CURLE_RECV_ERROR_def

definition setup_request :: "http_request \<Rightarrow> curl_setup" where
  "setup_request req = \<lparr>opt_url = req_url req, opt_timeout_ms = req_timeout req,
     opt_connect_timeout_ms = req_timeout req sdiv 2,
     opt_post = (if req_method req = POST then Some (req_body req) else None),
     opt_httpget = (req_method req = GET),
     opt_headers = map (\<lambda>(k, v). k @ '': '' @ v) (req_headers req)\<rparr>"

definition write_callback :: "string \<Rightarrow> string \<Rightarrow> string \<times> nat" where
  "write_callback buffer ptr = (buffer @ ptr, length ptr)"

definition progress_callback :: "bool \<Rightarrow> int" where
  "progress_callback is_canceled_now = (if is_canceled_now then 1 else 0)"

definition receive :: "string list \<Rightarrow> string" where
  "receive chunks = foldl (\<lambda>buf c. fst (write_callback buf c)) [] chunks"

definition classify_curl_error :: "int \<Rightarrow> http_error_code" where
  "classify_curl_error c =
     (if c = CURLE_OK then UNKNOWN
      else if c = CURLE_COULDNT_RESOLVE_HOST \<or> c = CURLE_COULDNT_CONNECT \<or> c = CURLE_SEND_ERROR \<or>
              c = CURLE_RECV_ERROR then NETWORK_ERROR
      else if c = CURLE_OPERATION_TIMEDOUT then TIMEOUT
      else if c = CURLE_ABORTED_BY_CALLBACK then CANCELED
      else UNKNOWN)"

section \<open>execute and cancel\<close>

record curl_client =
  in_flight :: "string \<rightharpoonup> nat"
  curl_heap :: token_heap

definition create_curl_client :: "token_heap \<Rightarrow> curl_client" where
  "create_curl_client h = \<lparr>in_flight = Map.empty, curl_heap = h\<rparr>"

definition effective_token :: "nat option \<Rightarrow> token_heap \<Rightarrow> token_heap \<times> nat" where
  "effective_token tok h = (case tok of Some a \<Rightarrow> (h, a) | None \<Rightarrow> create_token h)"

definition curl_failure :: "(int \<Rightarrow> string) \<Rightarrow> int \<Rightarrow> task_error" where
  "curl_failure strerror c =
     (let k = classify_curl_error c;
          user_msg = (if k = NETWORK_ERROR then ''Network error occurred. Please check your connection.''
                      else if k = TIMEOUT then ''Request timed out. Please try again.''
                      else if k = CANCELED then ''Request was canceled.''
                      else ''Unknown error occurred.'')
      in make_http_error k user_msg
           (''CURL error: '' @ strerror c @ '' (code: '' @ to_string_int c @ '')'') (k \<noteq> CANCELED))"

definition curl_result :: "(int \<Rightarrow> string) \<Rightarrow> http_request \<Rightarrow> curl_outcome \<Rightarrow> http_result" where
  "curl_result strerror req out =
     (if curl_code out \<noteq> CURLE_OK then Inl (curl_failure strerror (curl_code out))
      else if 500 \<le> curl_status out
      then Inl (make_http_error SERVER_ERROR ''Server error occurred. Please try again later.''
                  (''HTTP '' @ to_string_int (curl_status out) @ '' response'') True)
      else if curl_status out = 429
      then Inl (make_http_error RATE_LIMIT ''Too many requests. Please slow down.''
                  ''HTTP 429 Rate Limit'' True)
      else if 400 \<le> curl_status out
      then Inl (make_http_error CLIENT_ERROR ''Invalid request. Please check your parameters.''
                  (''HTTP '' @ to_string_int (curl_status out) @ '' response'') False)
      else Inr \<lparr>status_code = i32 (curl_status out), resp_headers = [],
                 resp_body = receive (curl_chunks out),
                 resp_id = (if req_id req = [] then req_trace req @ ''_resp'' else req_id req @ ''_resp''),
                 elapsed_ms = curl_elapsed out\<rparr>)"

text \<open>
  The state of the client is its own and the one of the world around it. \<open>reads\<close> is what the progress
  callback finds in the token during a transfer, call by call. The scope guard that was
  to take the request out of the table holds a null pointer, for which \<open>unique_ptr\<close> never runs its
  deleter: the entry stays.
\<close>

type_synonym 'w transfer = "'w \<Rightarrow> curl_setup \<Rightarrow> int list \<Rightarrow> 'w \<times> curl_outcome"

fun curl_execute ::
  "'w transfer \<Rightarrow> (int \<Rightarrow> string) \<Rightarrow> nat option \<Rightarrow> ('w \<Rightarrow> bool list) \<Rightarrow> ('w \<times> curl_client) inner_client" where
  "curl_execute perform strerror tok reads (w, cl) req =
     (case effective_token tok (curl_heap cl) of
        (h, a) \<Rightarrow>
          (let cl1 = cl\<lparr>curl_heap := h,
                        in_flight := (if req_id req \<noteq> [] then (in_flight cl)(req_id req \<mapsto> a)
                                      else in_flight cl)\<rparr>
           in (case perform w (setup_request req) (map progress_callback (reads w)) of
                 (w', out) \<Rightarrow> ((w', cl1), curl_result strerror req out))))"

definition curl_cancel :: "(nat \<Rightarrow> bool) \<Rightarrow> curl_client \<Rightarrow> string \<Rightarrow> curl_client \<times> bool" where
  "curl_cancel owned cl i =
     (if i = [] then (cl, False)
      else (case in_flight cl i of
              None \<Rightarrow> (cl, False)
            | Some a \<Rightarrow>
                if \<not> owned a then (cl\<lparr>in_flight := (in_flight cl)(i := None)\<rparr>, False)
                else (cl\<lparr>curl_heap := heap_request_cancel (curl_heap cl) a\<rparr>, True)))"

text \<open>The stub never touches a request: no bytes are taken, no error is told apart, nothing is canceled.\<close>

definition stub_write_callback :: "string \<Rightarrow> string \<Rightarrow> string \<times> nat" where
  "stub_write_callback buffer ptr = (buffer, 0)"

definition stub_progress_callback :: "bool \<Rightarrow> int" where
  "stub_progress_callback is_canceled_now = 0"

definition stub_classify_curl_error :: "int \<Rightarrow> http_error_code" where
  "stub_classify_curl_error c = UNKNOWN"

definition stub_cancel :: "curl_client \<Rightarrow> string \<Rightarrow> curl_client \<times> bool" where
  "stub_cancel cl i = (cl, False)"

definition stub_execute :: "'c inner_client" where
  "stub_execute c req = (c, Inl (make_http_error UNKNOWN ''HTTP client backend unavailable on this build.''
     ''libcurl development package not found at build time'' False))"

section \<open>The contract of a client\<close>

text \<open>
  What the retrying client and the stages rely on: an error carries a named code, and its category
  is the one of the code.
\<close>

definition named_error :: "task_error \<Rightarrow> bool" where
  "named_error e \<longleftrightarrow> (\<exists>k. (\<forall>n. k \<noteq> Other_code n) \<and> parse_http_error_code e = k \<and> category e = code_category k)"

lemma named_make: "\<forall>n. k \<noteq> Other_code n \<Longrightarrow> named_error (make_http_error k u m r)"
  unfolding named_error_def
  by (intro exI [of _ k] conjI) (simp_all add: parse_make, simp add: make_http_error_def TaskError6_def)

lemma named_with_detail [simp]:
  "key \<noteq> ''http_error_code'' \<Longrightarrow> named_error (with_detail key v e) = named_error e"
  by (simp add: named_error_def) (simp add: with_detail_def)

lemma named_annotate [simp]: "named_error (annotate n req e) = named_error e"
  by (simp add: annotate_def Let_def)

lemma named_abort [simp]: "\<forall>n. k \<noteq> Other_code n \<Longrightarrow> named_error (retry_abort k u m n req)"
  by (simp add: retry_abort_def named_make)

locale http_backend =
  fixes exec :: "'c \<Rightarrow> http_request \<Rightarrow> 'c \<times> http_result"
  assumes errors_named: "exec c req = (c', Inl e) \<Longrightarrow> named_error e"
begin

lemma final_named: "exec c req = (c1, r1) \<Longrightarrow> final_result n req r1 = Inl e \<Longrightarrow> named_error e"
  using errors_named by (cases r1) (auto simp: final_result_def)

lemma retry_errors_named:
  assumes "retry_loop p (Some exec) rd req n b c = (c', logs, Inl e)"
  shows "named_error e"
  using assms
proof (induction "nat (max_retries p - n)" arbitrary: n b c logs rule: less_induct)
  case smaller: less
  from smaller.prems show ?case
  proof (cases rule: retry_loop_cases)
    case (stop c1 r1)
    with final_named show ?thesis by metis
  next
    case (again c1 r1 logs1)
    from smaller.hyps [OF _ again(4)] again(3) show ?thesis by simp
  qed simp_all
qed

text \<open>The retrying client over a client is a client of the same contract.\<close>

lemma retrying:
  "http_backend (\<lambda>c req. case retry_execute p (Some exec) rd req c of (c', logs, r) \<Rightarrow> (c', r))"
  by unfold_locales (auto simp: retry_execute_def split: prod.splits dest: retry_errors_named)

end

lemma curl_result_named: "curl_result strerror req out = Inl e \<Longrightarrow> named_error e"
  by (auto simp: curl_result_def curl_failure_def classify_curl_error_def Let_def named_make
      split: if_splits)

interpretation curl: http_backend "curl_execute perform strerror tok reads"
  for perform strerror tok reads
  by unfold_locales (auto simp: Let_def curl_result_named split: prod.splits)

interpretation stub: http_backend "stub_execute :: 'c inner_client"
  by unfold_locales (auto simp: stub_execute_def named_make)

interpretation retrying_curl: http_backend
  "\<lambda>c req. case retry_execute p (Some (curl_execute perform strerror tok reads)) rd req c of (c', logs, r) \<Rightarrow> (c', r)"
  for p perform strerror tok reads rd
  by (rule curl.retrying)

section \<open>Properties\<close>

lemma receive_concat: "foldl (\<lambda>buf c. fst (write_callback buf c)) acc chunks = acc @ concat chunks"
  by (induction chunks arbitrary: acc) (simp_all add: write_callback_def)

text \<open>C32: What a transfer turns into. A transfer is a success exactly if libcurl reports none of its
  errors and the status is below 400, and then the body is what was received. It is retried
  exactly for connection, send, receive and resolver errors, timeouts, server errors and 429.\<close>

theorem curl_result_classified:
  "(case curl_result strerror req out of
      Inr resp \<Rightarrow> curl_code out = 0 \<and> curl_status out < 400 \<and> resp_body resp = concat (curl_chunks out)
    | Inl e \<Rightarrow> curl_code out \<noteq> 0 \<or> 400 \<le> curl_status out) \<and>
   (retries p (curl_result strerror req out) \<longleftrightarrow> curl_code out \<in> {6, 7, 28, 55, 56} \<or>
      (curl_code out = 0 \<and> (500 \<le> curl_status out \<or> curl_status out = 429)))"
proof -
  have made: "retries p (Inl (make_http_error k u m r)) = should_retry k" if "\<forall>n. k \<noteq> Other_code n" for k u m r
    using parse_make [OF that] by (simp add: retries_def)
  have named: "\<forall>n. classify_curl_error c \<noteq> Other_code n" for c
    by (simp add: classify_curl_error_def)
  consider "curl_code out \<noteq> 0" | "curl_code out = 0" "500 \<le> curl_status out"
    | "curl_code out = 0" "curl_status out = 429"
    | "curl_code out = 0" "400 \<le> curl_status out" "curl_status out < 500" "curl_status out \<noteq> 429"
    | "curl_code out = 0" "curl_status out < 400" by linarith
  then show ?thesis
  proof cases
    case 1
    have "retries p (curl_result strerror req out) \<longleftrightarrow> should_retry (classify_curl_error (curl_code out))"
      using 1 made [OF named] by (simp add: curl_result_def curl_failure_def CURLE_OK_def Let_def)
    moreover have "should_retry (classify_curl_error (curl_code out)) \<longleftrightarrow> curl_code out \<in> {6, 7, 28, 55, 56}"
      using 1 by (auto simp: classify_curl_error_def should_retry_def curl_codes)
    ultimately show ?thesis using 1 by (simp add: curl_result_def CURLE_OK_def)
  qed (simp_all add: curl_result_def CURLE_OK_def made should_retry_def receive_def receive_concat)
qed

theorem curl_result_classified_witness:
  "retries default_policy (curl_result (\<lambda>_. ''x'') demo_request
     \<lparr>curl_code = 28, curl_chunks = [''half''], curl_status = 0, curl_elapsed = 30000\<rparr>)"
  using curl_result_classified [where strerror = "\<lambda>_. ''x''" and req = demo_request and p = default_policy and
      out = "\<lparr>curl_code = 28, curl_chunks = [''half''], curl_status = 0, curl_elapsed = 30000\<rparr>"]
  by simp

text \<open>C31: Errors stay meaningful through the layers. However the transfers of the attempts end, each in its own
  way, an error returned by the retrying client over the curl client carries a named code whose
  category is the error's, so that the scheduler's test for cancellation agrees with the transport's.\<close>

theorem retrying_curl_errors:
  assumes "retry_execute p (Some (curl_execute perform strerror tok reads)) rd req cl = (cl', logs, Inl e)"
  shows "category e = code_category (parse_http_error_code e) \<and>
    (category e = Cat_Canceled \<longleftrightarrow> parse_http_error_code e = CANCELED) \<and>
    (\<forall>n. parse_http_error_code e \<noteq> Other_code n)"
proof -
  have "(case retry_execute p (Some (curl_execute perform strerror tok reads)) rd req cl of
      (c', logs, r) \<Rightarrow> (c', r)) = (cl', Inl e)" using assms by simp
  then have "named_error e" by (rule retrying_curl.errors_named)
  then obtain k where k: "\<forall>n. k \<noteq> Other_code n" "parse_http_error_code e = k" "category e = code_category k"
    by (auto simp: named_error_def)
  then show ?thesis by (cases k) auto
qed

text \<open>A world that is a script of outcomes: a transfer that times out, a server that fails, and then an abort.\<close>

definition scripted :: "(int \<times> int) list transfer" where
  "scripted w su answers = (tl w, \<lparr>curl_code = fst (hd w), curl_chunks = [], curl_status = snd (hd w), curl_elapsed = 3\<rparr>)"

definition moody_run :: "((int \<times> int) list \<times> curl_client) \<times> retry_log list \<times> http_result" where
  "moody_run = retry_execute default_policy (Some (curl_execute scripted (\<lambda>_. ''x'') None (\<lambda>_. []))) no_cancel
     demo_request ([(28, 0), (0, 503), (42, 0)], create_curl_client empty_heap)"

theorem retrying_curl_errors_witness:
  "\<exists>cl' logs e. moody_run = (([], cl'), logs, Inl e) \<and> length logs = 2 \<and> category e = Cat_Canceled"
proof -
  obtain w cl' logs r where x: "moody_run = ((w, cl'), logs, r)" by (metis surj_pair)
  have "case snd (snd moody_run) of
      Inl e \<Rightarrow> parse_http_error_code e = CANCELED | Inr resp \<Rightarrow> False" by code_simp
  then obtain e where e: "r = Inl e" "parse_http_error_code e = CANCELED" unfolding x by (cases r) auto
  from retrying_curl_errors [OF x [unfolded moody_run_def e(1)]] e have "category e = Cat_Canceled" by simp
  moreover have "fst (fst moody_run) = [] \<and> length (fst (snd moody_run)) = 2" by code_simp
  then have "w = []" "length logs = 2" unfolding x by simp_all
  ultimately show ?thesis using x e(1) by (intro exI [of _ cl'] exI [of _ logs] exI [of _ e]) simp
qed

text \<open>Cancellation reaches the transfer. If libcurl aborts a transfer whose progress callback
  answers with a non-zero value, as it documents, then a transfer during which a callback finds
  the token canceled ends as a canceled error that is not retried.\<close>

theorem curl_cancel_aborts:
  assumes "\<And>w su answers. (\<exists>x \<in> set answers. x \<noteq> 0) \<Longrightarrow> curl_code (snd (perform w su answers)) = CURLE_ABORTED_BY_CALLBACK"
    and "True \<in> set (reads w)"
  shows "\<exists>c' e. curl_execute perform strerror tok reads (w, cl) req = (c', Inl e) \<and>
    category e = Cat_Canceled \<and> \<not> retries p (Inl e)"
proof -
  let ?out = "snd (perform w (setup_request req) (map progress_callback (reads w)))"
  have "\<exists>x \<in> set (map progress_callback (reads w)). x \<noteq> 0"
    using assms(2) by (intro bexI [of _ "progress_callback True"]) (auto simp: progress_callback_def)
  from assms(1) [OF this] have "curl_code ?out = CURLE_ABORTED_BY_CALLBACK" .
  then have "curl_result strerror req ?out = Inl (curl_failure strerror CURLE_ABORTED_BY_CALLBACK)"
    by (simp add: curl_result_def curl_codes)
  moreover have "classify_curl_error CURLE_ABORTED_BY_CALLBACK = CANCELED"
    by (simp add: classify_curl_error_def curl_codes)
  then have "category (curl_failure strerror CURLE_ABORTED_BY_CALLBACK) = Cat_Canceled \<and>
      \<not> retries p (Inl (curl_failure strerror CURLE_ABORTED_BY_CALLBACK))"
    by (simp add: curl_failure_def Let_def retries_def parse_make should_retry_def)
       (simp add: make_http_error_def TaskError6_def)
  moreover obtain w' out where "perform w (setup_request req) (map progress_callback (reads w)) = (w', out)" by fastforce
  ultimately show ?thesis by (simp add: Let_def split: prod.split)
qed

definition dead_host :: "bool list transfer" where
  "dead_host w su answers = (w, \<lparr>curl_code = (if list_ex (\<lambda>x. x \<noteq> 0) answers then 42 else 6), curl_chunks = [],
     curl_status = 0, curl_elapsed = 3\<rparr>)"

theorem curl_cancel_aborts_witness:
  "\<exists>c' e. curl_execute dead_host (\<lambda>_. ''x'') None (\<lambda>w. w) ([False, True], create_curl_client empty_heap) demo_request =
     (c', Inl e) \<and> category e = Cat_Canceled \<and> \<not> retries default_policy (Inl e)"
  by (rule curl_cancel_aborts)
     (simp_all add: dead_host_def curl_codes list_ex_iff)

text \<open>A completed request can still be canceled by its id, although the interface promises false
  for it: the entry is never taken out of the table, so as long as the caller keeps the token,
  \<open>cancel\<close> returns true and cancels the token, for everything else that shares it.\<close>

theorem curl_cancel_completed:
  assumes "curl_execute perform strerror (Some a) reads (w, cl) req = ((w', cl'), Inr resp)"
    and "req_id req \<noteq> []" and "owned a" and "a < length (toks (curl_heap cl))"
  shows "\<exists>cl''. curl_cancel owned cl' (req_id req) = (cl'', True) \<and> heap_is_canceled (curl_heap cl'') a"
proof -
  from assms(1,2) have "in_flight cl' (req_id req) = Some a" "curl_heap cl' = curl_heap cl"
    by (auto simp: effective_token_def Let_def split: prod.splits)
  with assms(2-4) show ?thesis by (simp add: curl_cancel_def heap_request_cancel_iff)
qed

definition quick_ok :: "unit transfer" where
  "quick_ok w su answers = (w, \<lparr>curl_code = 0, curl_chunks = [''{}''], curl_status = 200, curl_elapsed = 1\<rparr>)"

theorem curl_cancel_completed_witness:
  "\<exists>cl'' cl'. curl_cancel (\<lambda>_. True) cl' ''r1'' = (cl'', True) \<and> heap_is_canceled (curl_heap cl'') 0"
proof -
  let ?cl = "create_curl_client (fst (create_token empty_heap))"
  obtain w' cl' r where x: "curl_execute quick_ok (\<lambda>_. ''x'') (Some 0) (\<lambda>_. []) ((), ?cl) demo_request = ((w', cl'), r)"
    by (metis surj_pair)
  then obtain resp where r: "r = Inr resp"
    by (auto simp: effective_token_def quick_ok_def curl_result_def curl_codes Let_def)
  have "req_id demo_request = ''r1''" by (simp add: demo_request_def)
  moreover have "0 < length (toks (curl_heap ?cl))"
    by (simp add: create_curl_client_def create_token_def)
  ultimately show ?thesis
    using curl_cancel_completed [OF x [unfolded r], of "\<lambda>_. True"] by auto
qed

end
