(* ===== verification/Backend_Api.thy ===== *)
theory Backend_Api
  imports Prelude
begin

text \<open>
  \<open>core/remote/dto.h\<close>, \<open>platform_types.h\<close>, \<open>infra/api_client.h\<close>, \<open>api_client.cpp\<close> and \<open>sse_client.cpp\<close>: the data
  exchanged with the backend, and the client whose endpoints are still stubs. Every operation is
  modelled with the error it returns; the request arguments are not used by the code.
\<close>

section \<open>Data transfer objects\<close>

record scene_dto =
  scene_id :: string
  scene_index :: int
  narration :: string
  scene_prompt :: string
  negative_prompt :: string
  scene_duration_ms :: int
  transition :: string
  locked :: bool

definition default_scene :: scene_dto where
  "default_scene = \<lparr>scene_id = [], scene_index = 0, narration = [], scene_prompt = [],
     negative_prompt = [], scene_duration_ms = 3000, transition = ''cut'', locked = False\<rparr>"

record storyboard_dto =
  sb_project :: string
  sb_scenes :: "scene_dto list"

record create_project_req =
  cp_name :: string
  cp_story_text :: string
  cp_style :: string
  cp_scene_count :: int

record project_dto =
  pr_id :: string
  pr_user :: string
  pr_name :: string
  pr_story_text :: string
  pr_style :: string
  pr_scene_count :: int
  pr_status :: string
  pr_current_job :: string
  pr_created_at :: string
  pr_updated_at :: string

record storyboard_patch_req =
  patch_scenes :: "scene_dto list"

record job_dto =
  jb_id :: string
  jb_user :: string
  jb_project :: string
  jb_status :: string
  jb_progress :: flt
  jb_cancel_requested :: bool
  jb_error_code :: string
  jb_error_message :: string
  jb_retryable :: bool
  jb_trace :: string
  jb_created_at :: string
  jb_started_at :: string
  jb_ended_at :: string

record asset_dto =
  as_id :: string
  as_user :: string
  as_project :: string
  as_type :: string
  as_status :: string
  as_storage_key :: string
  as_mime_type :: string
  as_size_bytes :: int
  as_duration_ms :: int
  as_metadata :: "string \<rightharpoonup> string"
  as_created_at :: string

record asset_query =
  aq_project :: string
  aq_type :: string
  aq_page :: int
  aq_page_size :: int

record export_dto =
  ex_id :: string
  ex_user :: string
  ex_project :: string
  ex_status :: string
  ex_asset :: string
  ex_download_url :: string
  ex_created_at :: string
  ex_updated_at :: string

record job_event =
  event_id :: string
  event_seq :: int
  event_trace :: string
  event_job :: string
  event_project :: string
  event_type :: string
  event_ts :: string
  event_payload :: "string \<rightharpoonup> string"

text \<open>\<open>platform_types.h\<close>: two enumerations.\<close>

datatype client_platform = Windows_client | MacOS_client | Linux_client | Unknown_client
datatype cpu_arch = X64 | Arm64 | Unknown_arch

section \<open>The client\<close>

record api_error =
  api_status :: int
  api_code :: string
  api_retryable :: bool
  api_message :: string
  api_trace :: string

record auth_tokens =
  access_token :: string
  refresh_token :: string
  expires_in_sec :: int

record backend_api =
  has_client :: bool
  base_url :: string
  api_tokens :: auth_tokens

definition create_backend_api :: "bool \<Rightarrow> string \<Rightarrow> backend_api" where
  "create_backend_api client url = \<lparr>has_client = client, base_url = url,
     api_tokens = \<lparr>access_token = [], refresh_token = [], expires_in_sec = 0\<rparr>\<rparr>"

definition set_tokens :: "backend_api \<Rightarrow> auth_tokens \<Rightarrow> backend_api" where
  "set_tokens b ts = b\<lparr>api_tokens := ts\<rparr>"

definition make_trace_id :: "int \<Rightarrow> string" where
  "make_trace_id clock = ''cli-'' @ to_string_int clock"

definition api_fail :: "int \<Rightarrow> string \<Rightarrow> bool \<Rightarrow> string \<Rightarrow> string \<Rightarrow> api_error" where
  "api_fail st c r m tr = \<lparr>api_status = st, api_code = c, api_retryable = r, api_message = m, api_trace = tr\<rparr>"

definition ensure_http_client :: "backend_api \<Rightarrow> api_error + unit" where
  "ensure_http_client b =
     (if \<not> has_client b then Inl (api_fail 0 ''CLIENT_NOT_READY'' False ''HTTP client is null'' [])
      else Inr ())"

definition join_url :: "backend_api \<Rightarrow> string \<Rightarrow> string" where
  "join_url b path =
     (if base_url b = [] then path
      else if path \<noteq> [] \<and> hd path = CHR ''/'' then base_url b @ path
      else base_url b @ ''/'' @ path)"

definition make_unimplemented_error :: "int \<Rightarrow> string \<Rightarrow> api_error" where
  "make_unimplemented_error clock name = api_fail 501 ''API_NOT_IMPLEMENTED'' False
     (''HttpBackendApi endpoint binding is pending: '' @ name) (make_trace_id clock)"

definition api_login :: "int \<Rightarrow> backend_api \<Rightarrow> string \<Rightarrow> string \<Rightarrow> api_error + auth_tokens" where
  "api_login clock b email password =
     (case ensure_http_client b of
        Inl e \<Rightarrow> Inl e
      | Inr u \<Rightarrow> Inl (make_unimplemented_error clock ''login''))"

definition api_refresh :: "int \<Rightarrow> backend_api \<Rightarrow> api_error + unit" where
  "api_refresh clock b =
     (case ensure_http_client b of
        Inl e \<Rightarrow> Inl e
      | Inr u \<Rightarrow> Inl (make_unimplemented_error clock ''refresh''))"

definition api_create_project :: "int \<Rightarrow> backend_api \<Rightarrow> create_project_req \<Rightarrow> api_error + project_dto" where
  "api_create_project clock b req = Inl (make_unimplemented_error clock ''create_project'')"

definition api_list_projects :: "int \<Rightarrow> backend_api \<Rightarrow> int \<Rightarrow> int \<Rightarrow> api_error + project_dto list" where
  "api_list_projects clock b page page_size = Inl (make_unimplemented_error clock ''list_projects'')"

definition api_get_storyboard :: "int \<Rightarrow> backend_api \<Rightarrow> string \<Rightarrow> api_error + storyboard_dto" where
  "api_get_storyboard clock b project = Inl (make_unimplemented_error clock ''get_storyboard'')"

definition api_update_storyboard ::
  "int \<Rightarrow> backend_api \<Rightarrow> string \<Rightarrow> scene_dto list \<Rightarrow> api_error + storyboard_dto" where
  "api_update_storyboard clock b project scenes = Inl (make_unimplemented_error clock ''update_storyboard'')"

definition api_start_job :: "int \<Rightarrow> backend_api \<Rightarrow> string \<Rightarrow> api_error + job_dto" where
  "api_start_job clock b project = Inl (make_unimplemented_error clock ''start_job'')"

definition api_cancel_job :: "int \<Rightarrow> backend_api \<Rightarrow> string \<Rightarrow> api_error + unit" where
  "api_cancel_job clock b job = Inl (make_unimplemented_error clock ''cancel_job'')"

definition api_retry_job :: "int \<Rightarrow> backend_api \<Rightarrow> string \<Rightarrow> api_error + unit" where
  "api_retry_job clock b job = Inl (make_unimplemented_error clock ''retry_job'')"

definition api_list_assets :: "int \<Rightarrow> backend_api \<Rightarrow> asset_query \<Rightarrow> api_error + asset_dto list" where
  "api_list_assets clock b q = Inl (make_unimplemented_error clock ''list_assets'')"

definition api_export_video :: "int \<Rightarrow> backend_api \<Rightarrow> string \<Rightarrow> api_error + export_dto" where
  "api_export_video clock b project = Inl (make_unimplemented_error clock ''export_video'')"

section \<open>The event stream\<close>

definition sse_subscribe :: "string \<Rightarrow> api_error + unit" where
  "sse_subscribe job =
     (if job = [] then Inl (api_fail 400 ''INVALID_JOB_ID'' False ''job_id is empty'' [])
      else Inl (api_fail 501 ''SSE_NOT_IMPLEMENTED'' True
                  ''SSE stream parser/reconnect is pending implementation'' []))"

section \<open>Urls\<close>

lemma join_url_slash:
  assumes "base_url b \<noteq> []"
  shows "join_url b path = base_url b @ CHR ''/'' # (if path \<noteq> [] \<and> hd path = CHR ''/'' then tl path else path)"
  using assms by (cases path) (auto simp: join_url_def)

end
