(* ===== verification/Screens.thy ===== *)
theory Screens
  imports Platform
begin

text \<open>
  The small presenters of \<open>app/src\<close>: sign-in (\<open>auth_presenter.cpp\<close>), projects, storyboard, job,
  assets and export. Texts of the window are taken to be Latin-1. An operation returns the new
  state and the signals it emits, by name, in order; the sign-in also the files it leaves, and an
  exception if one escapes it. A \<open>double\<close> is its exact value.
\<close>

section \<open>Texts of the window\<close>

definition q_space :: "char \<Rightarrow> bool" where
  "q_space c \<longleftrightarrow> is_blank c \<or> of_char c = (0x85 :: nat) \<or> of_char c = (0xA0 :: nat)"

text \<open>\<open>QString::trimmed\<close>\<close>

definition trimmed :: "string \<Rightarrow> string" where
  "trimmed s = rev (dropWhile q_space (rev (dropWhile q_space s)))"

section \<open>Sign-in\<close>

record auth =
  logged_in :: bool
  user_email :: string
  auth_error :: string

type_synonym auth_result = "auth \<times> files \<times> string list \<times> platform_error option"

text \<open>
  The storage object outlives a failure of the constructor: the exception comes from \<open>load\<close>, after
  it was created. The directory is looked up at every call.
\<close>

definition create_auth :: "environment \<Rightarrow> string option \<Rightarrow> files \<Rightarrow> auth" where
  "create_auth env pw fs =
     (let a = \<lparr>logged_in = False, user_email = [], auth_error = []\<rparr>
      in case config_dir env pw of
           Inl e \<Rightarrow> a\<lparr>auth_error := ''token storage init failed''\<rparr>
         | Inr dir \<Rightarrow>
             (case token_load dir fs of
                None \<Rightarrow> a
              | Some pair \<Rightarrow> a\<lparr>logged_in := True, user_email := ''restored@local''\<rparr>))"

definition login ::
  "environment \<Rightarrow> string option \<Rightarrow> string \<Rightarrow> string \<Rightarrow> files \<Rightarrow> auth \<Rightarrow> auth_result" where
  "login env pw email password fs a =
     (if trimmed email = [] \<or> password = []
      then (a\<lparr>auth_error := ''email/password required''\<rparr>, fs, [''lastErrorChanged''], None)
      else (case config_dir env pw of
              Inl e \<Rightarrow> (a, fs, [], Some e)
            | Inr dir \<Rightarrow>
                (a\<lparr>user_email := trimmed email, logged_in := True, auth_error := []\<rparr>,
                 token_save dir ''access_token_placeholder'' ''refresh_token_placeholder'' fs,
                 [''userEmailChanged'', ''loggedInChanged'', ''lastErrorChanged''], None)))"

definition logout :: "environment \<Rightarrow> string option \<Rightarrow> files \<Rightarrow> auth \<Rightarrow> auth_result" where
  "logout env pw fs a =
     (let a1 = a\<lparr>logged_in := False, user_email := [], auth_error := []\<rparr>
      in case config_dir env pw of
           Inl e \<Rightarrow> (a1, fs, [], Some e)
         | Inr dir \<Rightarrow> (a1, token_clear dir fs,
             [''loggedInChanged'', ''userEmailChanged'', ''lastErrorChanged''], None))"

section \<open>Projects and storyboard\<close>

record project_list =
  project_names :: "string list"
  project_error :: string

definition create_project_list :: project_list where
  "create_project_list = \<lparr>project_names = [], project_error = []\<rparr>"

definition refresh_projects :: "project_list \<Rightarrow> project_list \<times> string list" where
  "refresh_projects p =
     (if project_names p = [] then (p\<lparr>project_names := [''Demo Project'']\<rparr>, [''projectNamesChanged''])
      else (p, []))"

definition create_project :: "string \<Rightarrow> project_list \<Rightarrow> project_list \<times> string list" where
  "create_project name p =
     (if trimmed name = [] then (p\<lparr>project_error := ''project name required''\<rparr>, [''lastErrorChanged''])
      else (p\<lparr>project_names := project_names p @ [trimmed name], project_error := []\<rparr>,
            [''projectNamesChanged'', ''lastErrorChanged'']))"

record storyboard_page =
  scene_count :: int
  storyboard_error :: string

definition create_storyboard_page :: storyboard_page where
  "create_storyboard_page = \<lparr>scene_count = 0, storyboard_error = []\<rparr>"

definition set_scene_count :: "int \<Rightarrow> storyboard_page \<Rightarrow> storyboard_page \<times> string list" where
  "set_scene_count n p =
     (if n < 1 then (p\<lparr>storyboard_error := ''scene_count must be >= 1''\<rparr>, [''lastErrorChanged''])
      else (p\<lparr>scene_count := n, storyboard_error := []\<rparr>, [''sceneCountChanged'', ''lastErrorChanged'']))"

definition save_storyboard :: "storyboard_page \<Rightarrow> storyboard_page \<times> string list" where
  "save_storyboard p =
     (if scene_count p < 1
      then (p\<lparr>storyboard_error := ''no scenes to save''\<rparr>, [''lastErrorChanged''])
      else (p\<lparr>storyboard_error := []\<rparr>, [''lastErrorChanged'', ''storyboardSaved'']))"

section \<open>Job, assets, export\<close>

record job_page =
  job_id :: string
  job_progress :: rat
  job_status :: string

definition create_job_page :: job_page where
  "create_job_page = \<lparr>job_id = [], job_progress = 0, job_status = ''idle''\<rparr>"

text \<open>The \<open>double\<close> next to 0.01.\<close>

definition one_percent :: rat where
  "one_percent = 5764607523034235 / 576460752303423488"

definition start_job :: "string \<Rightarrow> job_page \<Rightarrow> job_page \<times> string list" where
  "start_job project p =
     (if trimmed project = [] then (p\<lparr>job_status := ''invalid_project''\<rparr>, [''statusChanged''])
      else (\<lparr>job_id = ''job_'' @ take 8 project, job_progress = one_percent, job_status = ''queued''\<rparr>,
            [''jobIdChanged'', ''progressChanged'', ''statusChanged'']))"

definition cancel_job :: "job_page \<Rightarrow> job_page \<times> string list" where
  "cancel_job p = (p\<lparr>job_status := ''cancel_requested''\<rparr>, [''statusChanged''])"

definition retry_job :: "job_page \<Rightarrow> job_page \<times> string list" where
  "retry_job p = (p\<lparr>job_progress := 0, job_status := ''retry_queued''\<rparr>, [''progressChanged'', ''statusChanged''])"

definition refresh_assets :: "string \<Rightarrow> string list \<Rightarrow> string list \<times> string list" where
  "refresh_assets project assets =
     ((if trimmed project \<noteq> [] then [''final_video.mp4'', ''scene_1.png'', ''scene_1.mp3''] else []),
      [''assetsChanged''])"

record export_page =
  export_status :: string
  download_url :: string

definition create_export_page :: export_page where
  "create_export_page = \<lparr>export_status = ''idle'', download_url = []\<rparr>"

definition create_export :: "string \<Rightarrow> export_page \<Rightarrow> export_page \<times> string list" where
  "create_export project p =
     ((if trimmed project = [] then \<lparr>export_status = ''failed'', download_url = []\<rparr>
       else \<lparr>export_status = ''succeeded'',
              download_url = ''https://storage.local/users/demo/projects/'' @ project @ ''/final_video/final.mp4''\<rparr>),
      [''exportStatusChanged'', ''downloadUrlChanged''])"

section \<open>Facts\<close>

lemma placeholder_lines: "newline \<notin> set ''access_token_placeholder''" "newline \<notin> set ''refresh_token_placeholder''"
  by simp_all

lemma load_saved:
  assumes "newline \<notin> set access" "newline \<notin> set refresh" "access \<noteq> []" "refresh \<noteq> []"
  shows "token_load dir (token_save dir access refresh fs) = Some (access, refresh)"
  using assms takeWhile_newline by (auto simp: token_load_def token_save_def getline_def)

lemma load_cleared: "token_load dir (token_clear dir fs) = None"
  by (simp add: token_load_def token_clear_def)

section \<open>Properties\<close>

text \<open>A session survives a restart exactly until the sign-out. With a home directory, accepted
  credentials sign the user in, under the trimmed address, and a window opened later on the files
  is signed in as well; after the sign-out it is not. Refused credentials change neither the
  session nor the files. Without a home directory every accepted sign-in ends in an exception.\<close>

theorem session_survives_restart:
  assumes "trimmed email \<noteq> []" and "password \<noteq> []"
  shows "(\<forall>dir. config_dir env pw = Inr dir \<longrightarrow>
      (case login env pw email password fs a of (a1, fs1, sigs, ex) \<Rightarrow>
         ex = None \<and> logged_in a1 \<and> user_email a1 = trimmed email \<and> logged_in (create_auth env pw fs1) \<and>
         (case logout env pw fs1 a1 of (a2, fs2, sigs2, ex2) \<Rightarrow>
            ex2 = None \<and> \<not> logged_in a2 \<and> \<not> logged_in (create_auth env pw fs2)))) \<and>
    (\<forall>e. config_dir env pw = Inl e \<longrightarrow>
      login env pw email password fs a = (a, fs, [], Some e) \<and> \<not> logged_in (create_auth env pw fs)) \<and>
    (case login env pw bad [] fs a of (a3, fs3, sigs3, ex3) \<Rightarrow>
       ex3 = None \<and> fs3 = fs \<and> logged_in a3 = logged_in a \<and> user_email a3 = user_email a)"
  using assms load_saved [OF placeholder_lines]
  by (simp add: login_def logout_def create_auth_def load_cleared Let_def)

theorem session_survives_restart_witness:
  "logged_in (create_auth [''HOME'' \<mapsto> ''/home/u''] None
     (fst (snd (login [''HOME'' \<mapsto> ''/home/u''] None '' me@x '' ''pw'' Map.empty
       (create_auth [''HOME'' \<mapsto> ''/home/u''] None Map.empty)))))"
proof -
  let ?env = "[''HOME'' \<mapsto> ''/home/u'']"
  have t: "trimmed '' me@x '' \<noteq> []" by code_simp
  have "config_dir ?env None = Inr ''/home/u/.config/stv_renew''"
    by (simp add: config_dir_def service_dir_def home_dir_def env_value_def)
  note dir = this
  obtain a1 fs1 sigs ex where l: "login ?env None '' me@x '' ''pw'' Map.empty (create_auth ?env None Map.empty) =
      (a1, fs1, sigs, ex)" by (metis prod_cases4)
  from session_survives_restart [OF t, of "''pw''" ?env None Map.empty "create_auth ?env None Map.empty"]
  have "logged_in (create_auth ?env None fs1)" using dir l by simp
  with l show ?thesis by simp
qed

end
