(* ===== verification/Spec2Isabelle.thy ===== *)
theory Spec2Isabelle
  imports App_Race Pool_Fairness Path_Service Console_Logger Simple_Properties Curl_Client Backend_Api Screens
begin

text \<open>
  \<^bold>\<open>stv-renew: schedulers, workflow engine, server client and application\<close>

  The program turns a story into a video. A window (\<open>app\<close>) starts a workflow; the workflow engine
  (\<open>core/src/orchestrator.cpp\<close>) submits one storyboard task, one image task per scene and one
  composition task to a scheduler; the scheduler runs the stage of every task when its dependencies
  have succeeded, and reports state changes to the engine, which reports to the window. Stages
  (\<open>infra/src/stages.cpp\<close>) call a server over HTTP; mock stages stand in for them. This library
  models the C++ of that program as functions and step relations and proves what makes it correct.

  \<^bold>\<open>Theories and sources\<close>

  \<^item> \<^theory_text>\<open>Prelude\<close>: integers at their width (\<open>i32\<close>, \<open>i64\<close>), \<open>float\<close> values with C++
    comparisons, decimal numerals, list lemmas, the collections \<open>no_wrap\<close> and \<open>frame\<close>.
  \<^item> \<^theory_text>\<open>Result\<close>: \<open>result.h\<close>, both templates, as the sums that the other theories use.
    \<^theory_text>\<open>Task\<close>: \<open>core/src/task.cpp\<close>, \<open>task.h\<close>, \<open>task_error.h\<close>. A descriptor is a record; \<open>transition_to\<close> is the state machine.
  \<^item> \<^theory_text>\<open>Cancel_Token\<close>: \<open>cancel_token.cpp\<close>, sequentially and as a step relation (\<open>race_step\<close>)
    at the granularity of the atomic flag and the lock.
  \<^item> \<^theory_text>\<open>Pipeline\<close>: \<open>pipeline.h\<close>, \<open>pipeline.cpp\<close>: stage contexts and mock stages.
  \<^item> \<^theory_text>\<open>Selection\<close>, \<^theory_text>\<open>Scheduler_Interface\<close>: choosing a best element under a strict weak
    order; \<open>scheduler.h\<close> with the \<open>IScheduler\<close> contract as the locales \<open>submission\<close> and \<open>scheduler\<close>.
  \<^item> \<^theory_text>\<open>Simple_Scheduler\<close>, \<^theory_text>\<open>Simple_Safety\<close>, \<^theory_text>\<open>Simple_Liveness\<close>,
    \<^theory_text>\<open>Simple_Properties\<close>: \<open>core/src/scheduler.cpp\<close>. A \<open>tick\<close> is split where it releases the
    mutex for the stage, so calls of other threads during a stage are part of the model.
  \<^item> \<^theory_text>\<open>Pool_Scheduler\<close>: \<open>core/src/thread_pool_scheduler.cpp\<close>, one definition per section of
    code under the mutex; \<open>pool_step\<close> (\<^theory_text>\<open>Pool_Steps\<close>) interleaves clients and workers. The
    proofs are spread over \<^theory_text>\<open>Pool_Graph\<close> (edges, cycle guard, cancellation cascade),
    \<^theory_text>\<open>Pool_Select\<close> (choice and aging), \<^theory_text>\<open>Pool_Invariant\<close>, \<^theory_text>\<open>Pool_Calm\<close> and
    \<^theory_text>\<open>Pool_Exec\<close> (the invariant and what keeps it), \<^theory_text>\<open>Pool_Contract\<close> (the scheduler
    contract), \<^theory_text>\<open>Pool_Properties\<close> and \<^theory_text>\<open>Pool_Operations\<close> (the results), and
    \<^theory_text>\<open>Pool_Live\<close>, \<^theory_text>\<open>Pool_Progress\<close>, \<^theory_text>\<open>Pool_Drain\<close>, \<^theory_text>\<open>Pool_Crew\<close> (no deadlock
    as long as no task is paused; \<open>worker_loop\<close> composed of its sections, alone and for all workers at
    once: every task ends; the locale \<open>crew_property\<close> is what a client proves of the tasks of a crew);
    \<^theory_text>\<open>Pool_Client\<close> lets clients submit, cancel, tick and register beside the workers
    (\<open>client_run\<close>); \<^theory_text>\<open>Pool_Fairness\<close>: how long a ready task can be overtaken;
    \<^theory_text>\<open>Scenarios\<close> has concrete runs.
  \<^item> \<^theory_text>\<open>Task_Graph\<close>, \<^theory_text>\<open>Pool_Trace\<close>, \<^theory_text>\<open>Pool_Types\<close>: the specification of a scheduler
    as a machine that reads the reported events and keeps a phase per task; the thread-pool scheduler
    implements it; and the typing of every stored task by its state.
  \<^item> \<^theory_text>\<open>Orchestrator\<close>, \<^theory_text>\<open>Workflows\<close>, \<^theory_text>\<open>Workflow_Properties\<close>: \<open>WorkflowEngine\<close>. Starting
    and canceling are proved in the locale \<open>workflow_host\<close> for any scheduler that keeps the contract,
    and interpreted on both. \<^theory_text>\<open>Workflow_Start\<close>: what an accepted start leaves in the
    scheduler and the engine (the locale \<open>task_chain\<close>), interpreted on both schedulers and on a shop:
    a pool whose workers run and deliver between the submissions.
  \<^item> \<^theory_text>\<open>Http_Client\<close>, \<^theory_text>\<open>Curl_Client\<close>: \<open>http_client.h\<close>, \<open>http_client.cpp\<close>,
    \<open>curl_http_client.cpp\<close> and its stub. The locale \<open>http_backend\<close> is what the retrying client asks of
    the client it wraps; the curl client, the stub and the retrying client itself interpret it.
  \<^item> \<^theory_text>\<open>Float_Text\<close>, \<^theory_text>\<open>Stages\<close>: printing and reading of floats as the stages use them,
    \<open>stages.cpp\<close>, \<open>stage_factory.h\<close>.
  \<^item> \<^theory_text>\<open>Backend_Api\<close>: \<open>api_client.cpp\<close>, \<open>sse_client.cpp\<close>, \<open>dto.h\<close>, whose endpoints are stubs.
  \<^item> \<^theory_text>\<open>Platform\<close>: \<open>config.h\<close>, \<open>path_service_unix.cpp\<close>, \<open>token_storage.cpp\<close>, \<open>logger.cpp\<close>;
    \<^theory_text>\<open>Path_Service\<close>: \<open>path_service.h\<close> as it is built on Linux, macOS and Windows;
    \<^theory_text>\<open>Console_Logger\<close>: the logger over spdlog.
  \<^item> \<^theory_text>\<open>App_Config\<close>: the decisions of \<open>app/src/main.cpp\<close>. \<^theory_text>\<open>Presenter\<close>: \<open>presenter.cpp\<close>, with
    the queue of closures between the callbacks and the window's thread. \<^theory_text>\<open>Screens\<close>: the small
    presenters.
  \<^item> \<^theory_text>\<open>App_Flow\<close>, \<^theory_text>\<open>App_Liveness\<close>, \<^theory_text>\<open>App_Pool\<close>: what holds of the components together,
    on either scheduler. \<^theory_text>\<open>App_Main\<close>: \<open>main\<close> composed of its decisions, from the environment to
    the window.
  \<^item> \<^theory_text>\<open>App_System\<close>: the whole application as a step relation (\<open>system_run\<close>): the window's
    thread, the workers, and the events each worker still has to deliver after it released the mutex
    (\<open>dispatch_events\<close>). \<^theory_text>\<open>Window_Track\<close> relates the reported successes to what the window
    shows; \<open>follows\<close> is the invariant that ties pool, events in flight, engine and window.
    \<^theory_text>\<open>App_Outcome\<close>: when a generation does not end; \<^theory_text>\<open>App_Race\<close>: the start with
    workers that run while \<open>start_workflow\<close> is still submitting, and the end that follows.

  \<^bold>\<open>What is shown\<close>

  \<^item> Thread-pool scheduler, in every reachable configuration of any interleaving: dependency order,
    resource bounds, exact ready and running sets, every end reported once and final, no idling
    while work is ready; the exact effect of cancellation and failure on dependents; the cycle guard
    decides reachability; the choice of the next task, and that later arrivals can overtake a ready
    task only for a bounded time; expiry of pause requests. Every run
    refines the machine of \<open>Task_Graph\<close>: from the reported events alone, the phase of every task can
    be computed, and each report was legal given the phases of the dependencies.
  \<^item> Single-threaded scheduler: dependency order, promotion as one simultaneous step, and that it
    drains: one tick per task.
  \<^item> The pool serves its clients: whatever they submit, cancel and tick while the workers run, at most
    two steps per task are beginnings and endings, some worker can go on while a task is pending, and
    in the end every task has reported its end once.
  \<^item> Workflows: all or nothing at the start, every task ended after a cancellation, and at which events
    the completion callback is called: not before the last success, then at that and at every later
    event of the workflow. Application, in any interleaving of the window's thread, the workers and the
    deliveries: with stages that succeed a generation completes on either scheduler (the click, the
    work, the result), the window is busy until all tasks have succeeded, and the end can be reached
    from every moment, unless the success of a task was delivered before its workflow was registered:
    then the generation never completes although all its tasks succeed. With the stages that \<open>main\<close>
    installs no generation ever completes; after a click on cancel every task has ended and the window
    stays busy for good. The window stays busy as long as no event reaches a workflow that is complete;
    a late event of an earlier, complete workflow ends whatever generation is running.
  \<^item> HTTP: the number of attempts is bounded, cancellation stops them, errors stay classified through
    the layers; the stages keep one contract. Startup: the configuration built from the environment
    meets the precondition of the scheduler's results. Tokens are read back as written.
  \<^item> Behaviours a caller may not expect: a lost callback of a cancel token,
    a lost wake-up after pause and resume (and in every run from there the task is never woken), edges
    left by a refused submission (and in every run from there a retry is refused), a canceled task that
    is reported as succeeded, failures that never reach the completion callback, server stages that
    never get their inputs, a finished request that can still be canceled, two different layouts
    for the files of the program.

  \<^bold>\<open>Assumptions and bounds\<close>

  \<^item> \<open>sane_config\<close>: twice the worker count and the CPU slots fit an \<open>int\<close>, so that the sums the
    scheduler forms do not wrap; \<open>sane_demand\<close>: the same of the demand of a submitted task. The
    clients of \<open>pool_step\<close> and \<open>client_step\<close> submit tasks in their initial state (\<open>fresh_task\<close>), with
    any dependencies: known, unknown, failed, repeated or cyclic. They do not submit under an id for
    which a refused submission has left edges (\<open>unleaked\<close>); what the code does then is the subject of
    \<open>pool_rejection_leaks\<close> and \<open>stale_scenario\<close>. The submissions of the workflow engine meet all of
    this, which is proved. The code does not check the state of what is submitted. Clients may create and cancel tokens at any
    time (\<open>step_token\<close>). \<open>roomy\<close>: the memory demand of all workers together fits an \<open>int\<close>; settings
    below \<open>2^23\<close> give it.
  \<^item> The results on ends (\<open>client_run\<close>, \<open>system_run\<close>) are about runs in which nobody asks for a pause;
    no code of the application does. In \<open>system_run\<close> the user clicks only while the window is busy,
    so one generation is followed. A click on cancel, and in \<^theory_text>\<open>App_Outcome\<close> the one on start,
    runs as one step; in \<^theory_text>\<open>App_Race\<close> the workers run and deliver as they like after each
    submission of the first click. The events of a run are listed in the order of the locked sections;
    each worker delivers its own in order, and the deliveries of different workers interleave one by
    one. The code lets two deliveries overlap, since \<open>handle_state_change\<close> takes no lock: then a count
    can be lost, which the model leaves out.
  \<^item> No definition uses fuel: loops recurse structurally or with a measure (the retry loop on the
    attempts left, the depth-first searches on the edges not yet visited, the mock stages on the
    steps left, decimal printing on the quotient).
  \<^item> Clock readings, random numbers, the answers of token polls, the outcome of a libcurl transfer
    (which may depend on a state of the world that changes from transfer to transfer), the
    environment, the files and Qt's formatting of numbers are arguments. Writing a file succeeds.

  \<^bold>\<open>Not modelled\<close>

  \<^item> The memory of objects and threads as such: threads appear as interleavings of locked sections.
    Data races outside the locks (the progress callback of the single-threaded scheduler, the
    workflow list of the engine) are not given a semantics.
  \<^item> libcurl, spdlog, Qt and the QML pages, the Windows shell, generated files, the server, tests.
    Log lines of the engine and the schedulers. \<open>name()\<close> of the stages, which no code calls.
  \<^item> Abstract classes and the declarations of the classes in the headers: the definitions follow the
    code of the operations; an interface appears as the locale that its implementations interpret.
\<close>

end
